(* ===== verification/OC_Prelude.thy ===== *)
theory OC_Prelude
  imports Main "HOL-Library.Code_Target_Nat" "HOL-Library.Word" "HOL-Library.Monad_Syntax" "HOL-Library.Char_ord"
    "HOL-Library.Sublist"
begin

text \<open>
  The vocabulary every component theory shares: bytes and C++ strings, big-endian
  integers, in-place buffer writes, and the lemma collections the proofs rest on.

  A \<open>std::uint8_t\<close> is an \<open>8 word\<close>, a \<open>std::vector<std::uint8_t>\<close> (or a
  \<open>std::array\<close> of bytes) is a list of them; a \<open>std::string\<close> is a HOL \<open>string\<close>,
  whose characters are exactly the 256 byte values. \<open>char_of_byte\<close> and \<open>byte_of_char\<close>
  are the two directions of the \<open>reinterpret_cast\<close> between them.
\<close>

unbundle bit_operations_syntax

type_synonym byte = "8 word"
type_synonym bytes = "8 word list"

named_theorems codec_simps \<open>round-trip and length facts of the wire encodings\<close>
named_theorems io_frame \<open>what an I/O operation leaves unchanged\<close>
named_theorems clock_mono \<open>an operation never turns the clock back\<close>

section \<open>Bytes and characters\<close>

definition char_of_byte :: "byte \<Rightarrow> char" where
  "char_of_byte b = char_of (unat b)"

definition byte_of_char :: "char \<Rightarrow> byte" where
  "byte_of_char c = word_of_nat (of_char c)"

definition string_bytes :: "string \<Rightarrow> bytes" where
  "string_bytes s = map byte_of_char s"

definition bytes_string :: "bytes \<Rightarrow> string" where
  "bytes_string bs = map char_of_byte bs"

lemma unat_byte_less [simp]: "unat (b :: byte) < 256"
proof -
  have "(unsigned b :: nat) < 2 ^ LENGTH(8)" by (rule unsigned_less)
  then show ?thesis by simp
qed

lemma char_of_byte_of_char [simp]: "char_of_byte (byte_of_char c) = c"
  by (simp add: char_of_byte_def byte_of_char_def unat_of_nat)

lemma byte_of_char_of_byte [simp]: "byte_of_char (char_of_byte b) = b"
proof -
  have "unat b < 256" by simp
  then show ?thesis by (simp add: char_of_byte_def byte_of_char_def of_char_of)
qed

lemma bytes_string_bytes [simp, codec_simps]: "bytes_string (string_bytes s) = s"
  by (simp add: bytes_string_def string_bytes_def comp_def)

lemma string_bytes_string [simp, codec_simps]: "string_bytes (bytes_string bs) = bs"
  by (simp add: bytes_string_def string_bytes_def comp_def)

lemma length_string_bytes [simp]: "length (string_bytes s) = length s"
  by (simp add: string_bytes_def)

lemma length_bytes_string [simp]: "length (bytes_string bs) = length bs"
  by (simp add: bytes_string_def)

lemma string_bytes_append [simp]: "string_bytes (s @ t) = string_bytes s @ string_bytes t"
  by (simp add: string_bytes_def)

lemma string_bytes_eq_Nil [simp]: "string_bytes s = [] \<longleftrightarrow> s = []"
  by (simp add: string_bytes_def)

lemma byte_of_char_inject [simp]: "byte_of_char c = byte_of_char d \<longleftrightarrow> c = d"
  by (metis char_of_byte_of_char)

lemma string_bytes_inject [simp]: "string_bytes s = string_bytes t \<longleftrightarrow> s = t"
  by (metis bytes_string_bytes)

section \<open>Big-endian integers\<close>

text \<open>
  \<open>be_bytes n w\<close> writes the low \<open>n\<close> bytes of \<open>w\<close>, the last one first, shifting the
  value right by eight each time; \<open>be_word\<close> reads a byte sequence with the usual
  shift-and-or accumulator. Both are the shapes the code's loops have.
\<close>

fun be_bytes :: "nat \<Rightarrow> 'a::len word \<Rightarrow> bytes" where
  "be_bytes 0 w = []"
| "be_bytes (Suc n) w = be_bytes n (drop_bit 8 w) @ [ucast w]"

definition be_word :: "bytes \<Rightarrow> 'a::len word" where
  "be_word bs = foldl (\<lambda>acc b. push_bit 8 acc OR ucast b) 0 bs"

definition be_nat :: "bytes \<Rightarrow> nat" where
  "be_nat bs = foldl (\<lambda>acc b. acc * 256 + unat b) 0 bs"

lemma length_be_bytes [simp, codec_simps]: "length (be_bytes n w) = n"
  by (induction n arbitrary: w) auto

lemma be_nat_snoc: "be_nat (bs @ [b]) = be_nat bs * 256 + unat b"
  by (simp add: be_nat_def)

lemma be_word_snoc: "be_word (bs @ [b]) = push_bit 8 (be_word bs) OR ucast b"
  by (simp add: be_word_def)

lemma power_256: "(256::nat) ^ n = 2 ^ (8 * n)"
  by (simp add: power_mult)

lemma be_nat_less: "be_nat bs < 256 ^ length bs"
proof (induction bs rule: rev_induct)
  case Nil
  show ?case by (simp add: be_nat_def)
next
  case (snoc b bs)
  have "unat b < 256" by (rule unat_byte_less)
  then have "be_nat bs * 256 + unat b < (be_nat bs + 1) * 256" by simp
  also have "\<dots> \<le> 256 ^ length bs * 256"
    using snoc by (intro mult_right_mono) auto
  finally show ?case by (simp add: be_nat_snoc)
qed

lemma unat_be_word:
  assumes "8 * length bs \<le> LENGTH('a::len)"
  shows "unat (be_word bs :: 'a word) = be_nat bs"
  using assms
proof (induction bs rule: rev_induct)
  case Nil
  show ?case by (simp add: be_word_def be_nat_def)
next
  case (snoc b bs)
  let ?w = "be_word bs :: 'a word"
  have IH: "unat ?w = be_nat bs" using snoc by simp
  have wide: "8 \<le> LENGTH('a)" using snoc.prems by simp
  have disj: "push_bit 8 ?w AND (ucast b :: 'a word) = 0"
    by (rule bit_word_eqI) (auto simp: bit_simps dest: bit_imp_le_length)
  have "push_bit 8 ?w OR (ucast b :: 'a word) = push_bit 8 ?w + ucast b"
    using disj by (simp add: disjunctive_add_eq_or)
  then have eq: "be_word (bs @ [b]) = (push_bit 8 ?w + ucast b :: 'a word)"
    by (simp add: be_word_snoc)
  have small: "be_nat bs * 256 + unat b < 2 ^ LENGTH('a)"
  proof -
    have "be_nat (bs @ [b]) < 256 ^ Suc (length bs)"
      using be_nat_less[of "bs @ [b]"] by simp
    also have "\<dots> = 2 ^ (8 * Suc (length bs))"
      by (rule power_256)
    also have "\<dots> \<le> 2 ^ LENGTH('a)"
      using snoc.prems by (intro power_increasing) auto
    finally show ?thesis by (simp add: be_nat_snoc)
  qed
  have "unat (push_bit 8 ?w) = take_bit LENGTH('a) (push_bit 8 (unat ?w))"
    by (rule unsigned_push_bit_eq)
  then have shift: "unat (push_bit 8 ?w) = be_nat bs * 256"
    using small IH by (simp add: take_bit_eq_mod push_bit_eq_mult)
  have "unat b < 2 ^ LENGTH('a)"
    using less_le_trans[OF unat_byte_less[of b] power_increasing[OF wide, of "2::nat", simplified]]
    by simp
  then have "unat (ucast b :: 'a word) = unat b"
    by (simp add: unsigned_ucast_eq take_bit_nat_eq_self)
  then show ?case
    using small shift by (simp add: eq be_nat_snoc unat_word_ariths)
qed

lemma be_nat_be_bytes: "be_nat (be_bytes n w) = unat w mod 256 ^ n"
proof (induction n arbitrary: w)
  case 0
  show ?case by (simp add: be_nat_def)
next
  case (Suc n)
  have "unat (drop_bit 8 w) = unat w div 256"
    by (simp only: unat_drop_bit_eq) (simp add: drop_bit_eq_div)
  moreover have "unat (ucast w :: byte) = unat w mod 256"
    by (simp add: unsigned_ucast_eq take_bit_eq_mod)
  ultimately show ?case
    using Suc by (simp add: be_nat_snoc mod_mult2_eq mult.commute)
qed

lemma be_nat_append: "be_nat (xs @ ys) = be_nat xs * 256 ^ length ys + be_nat ys"
proof (induction ys rule: rev_induct)
  case Nil
  show ?case by (simp add: be_nat_def)
next
  case (snoc y ys)
  then show ?case
    by (simp add: be_nat_snoc append_assoc [symmetric] algebra_simps del: append_assoc)
qed

lemma be_word_be_bytes [codec_simps]:
  assumes "LENGTH('a::len) = 8 * n"
  shows "be_word (be_bytes n w) = (w :: 'a word)"
proof (rule word_unat_eq_iff [THEN iffD2])
  have "unat w < 256 ^ n"
    using unsigned_less[of w] assms by (simp add: power_256)
  then show "unat (be_word (be_bytes n w) :: 'a word) = unat w"
    using assms by (simp add: unat_be_word be_nat_be_bytes)
qed

lemma be_nat_inject:
  "length xs = length ys \<Longrightarrow> be_nat xs = be_nat ys \<Longrightarrow> xs = ys"
proof (induction xs arbitrary: ys rule: rev_induct)
  case Nil
  then show ?case by simp
next
  case (snoc x xs)
  then obtain y ys' where ys: "ys = ys' @ [y]"
    by (metis length_0_conv append_is_Nil_conv not_Cons_self2 rev_exhaust)
  have small: "unat x < 256" "unat y < 256" by simp_all
  have eq: "be_nat xs * 256 + unat x = be_nat ys' * 256 + unat y"
    using snoc.prems(2) by (simp add: ys be_nat_snoc)
  have "unat x = unat y"
    using arg_cong[OF eq, of "\<lambda>n. n mod 256"] small by simp
  moreover from this have "be_nat xs = be_nat ys'"
    using eq by simp
  ultimately have "x = y" and "be_nat xs = be_nat ys'"
    by (simp_all add: word_unat_eq_iff)
  then show ?case using snoc.IH[of ys'] snoc.prems(1) by (simp add: ys)
qed

lemma be_bytes_be_word [codec_simps]:
  assumes "LENGTH('a::len) = 8 * length bs" and "n = length bs"
  shows "be_bytes n (be_word bs :: 'a word) = bs"
proof (rule be_nat_inject)
  show "length (be_bytes n (be_word bs :: 'a word)) = length bs" using assms by simp
  have "be_nat bs < 256 ^ n" using be_nat_less[of bs] assms by simp
  then show "be_nat (be_bytes n (be_word bs :: 'a word)) = be_nat bs"
    using assms by (simp add: be_nat_be_bytes unat_be_word)
qed

lemma be_bytes_inject:
  "LENGTH('a::len) = 8 * n \<Longrightarrow> be_bytes n v = be_bytes n (w :: 'a word) \<longleftrightarrow> v = w"
  by (metis be_word_be_bytes)

text \<open>The explicit shift lists of the writers in the code are \<open>be_bytes\<close>.\<close>

lemma be_bytes_2: "be_bytes 2 w = [ucast (drop_bit 8 w), ucast w]"
  by (simp add: numeral_2_eq_2)

lemma be_bytes_4:
  "be_bytes 4 w = [ucast (drop_bit 24 w), ucast (drop_bit 16 w), ucast (drop_bit 8 w), ucast w]"
  by (simp add: eval_nat_numeral)

text \<open>Masking with \<open>0xFF\<close> before a cast to a byte changes nothing.\<close>

lemma ucast_and_255 [simp]: "ucast (w AND 255) = (ucast w :: byte)"
proof -
  have eq: "(255 :: 'a word) = mask 8" by (simp add: mask_eq_exp_minus_1)
  show ?thesis
    unfolding eq by (rule bit_word_eqI) (auto simp: bit_simps dest: bit_imp_le_length)
qed

section \<open>Lists as buffers\<close>

text \<open>\<open>write_at off xs buf\<close> stores \<open>xs\<close> into the buffer from index \<open>off\<close>.\<close>

definition write_at :: "nat \<Rightarrow> 'a list \<Rightarrow> 'a list \<Rightarrow> 'a list" where
  "write_at off xs buf = take off buf @ xs @ drop (off + length xs) buf"

lemma length_write_at [simp]:
  "off + length xs \<le> length buf \<Longrightarrow> length (write_at off xs buf) = length buf"
  by (simp add: write_at_def)

lemma take_write_at:
  "off \<le> length buf \<Longrightarrow> take (off + length xs) (write_at off xs buf) = take off buf @ xs"
  by (simp add: write_at_def)

lemma write_at_Nil [simp]: "off \<le> length buf \<Longrightarrow> write_at off [] buf = buf"
  by (simp add: write_at_def)

section \<open>Options\<close>

text \<open>A check that needs a value to be there.\<close>

lemma case_option_exists:
  "(case x of None \<Rightarrow> False | Some y \<Rightarrow> P y) \<longleftrightarrow> (\<exists>y. x = Some y \<and> P y)"
  by (cases x) auto

text \<open>An early \<open>return false\<close>.\<close>

lemma early_return_false: "(if b then False else c) \<longleftrightarrow> \<not> b \<and> c"
  by simp

lemmas checks = case_option_exists early_return_false

section \<open>Searching in strings\<close>

text \<open>
  \<open>std::string::find\<close> and \<open>rfind\<close> (and \<open>find_first_of\<close>) as the index of the first or the
  last element with a property; \<open>npos\<close> is \<open>None\<close>.
\<close>

fun find_first :: "('a \<Rightarrow> bool) \<Rightarrow> 'a list \<Rightarrow> nat option" where
  "find_first P [] = None"
| "find_first P (x # xs) = (if P x then Some 0 else map_option Suc (find_first P xs))"

definition find_last :: "('a \<Rightarrow> bool) \<Rightarrow> 'a list \<Rightarrow> nat option" where
  "find_last P xs = map_option (\<lambda>i. length xs - 1 - i) (find_first P (rev xs))"

lemma find_first_None [simp]: "find_first P xs = None \<longleftrightarrow> (\<forall>x \<in> set xs. \<not> P x)"
  by (induction xs) auto

lemma find_first_append:
  "(\<forall>x \<in> set xs. \<not> P x) \<Longrightarrow> P y \<Longrightarrow> find_first P (xs @ y # ys) = Some (length xs)"
  by (induction xs) auto

lemma find_first_Some:
  "find_first P xs = Some i \<Longrightarrow>
     i < length xs \<and> P (xs ! i) \<and> (\<forall>x \<in> set (take i xs). \<not> P x)
     \<and> xs = take i xs @ xs ! i # drop (Suc i) xs"
proof (induction xs arbitrary: i)
  case Nil
  then show ?case by simp
next
  case (Cons x xs)
  then show ?case by (cases "P x") auto
qed

lemma find_last_None [simp]: "find_last P xs = None \<longleftrightarrow> (\<forall>x \<in> set xs. \<not> P x)"
  by (simp add: find_last_def)

lemma find_last_append:
  "(\<forall>x \<in> set ys. \<not> P x) \<Longrightarrow> P y \<Longrightarrow> find_last P (xs @ y # ys) = Some (length xs)"
  using find_first_append[of "rev ys" P y "rev xs"] by (simp add: find_last_def)

lemma find_last_Some:
  assumes "find_last P xs = Some i"
  shows "i < length xs" "P (xs ! i)" "\<forall>x \<in> set (drop (Suc i) xs). \<not> P x"
    and "xs = take i xs @ xs ! i # drop (Suc i) xs"
proof -
  obtain j where j: "find_first P (rev xs) = Some j" and i: "i = length xs - 1 - j"
    using assms by (auto simp: find_last_def)
  note f = find_first_Some[OF j]
  then show less: "i < length xs" by (auto simp: i)
  show "P (xs ! i)" using f by (auto simp: i rev_nth)
  have "Suc i = length xs - j" using f by (auto simp: i)
  then have "drop (Suc i) xs = rev (take j (rev xs))" by (simp add: take_rev)
  then show "\<forall>x \<in> set (drop (Suc i) xs). \<not> P x" using f by simp
  show "xs = take i xs @ xs ! i # drop (Suc i) xs" using less by (rule id_take_nth_drop)
qed

end
