(* ===== verification/Socket_IO.thy ===== *)
theory Socket_IO
  imports OC_Prelude
begin

text \<open>
  The operating-system side of one connected stream socket, as the controller sees it
  through \<open>poll\<close>, \<open>recv\<close>, \<open>send\<close> and \<open>steady_clock::now\<close>, and the two loops of
  \<open>control_protocol.cpp\<close> that sit directly on it: \<open>waitFor\<close> and \<open>transfer\<close>.

  A \<open>sock\<close> holds the bytes the peer's stream still has for us (\<open>rx\<close>), the bytes the
  kernel has accepted from us (\<open>tx\<close>), the clock in nanoseconds, and two scripts: what the
  coming \<open>poll\<close> calls and the coming \<open>recv\<close>/\<open>send\<close> calls will answer. The scripts are
  arbitrary, so a statement about every \<open>sock\<close> is a statement about every fragmentation
  of the stream, every spurious error and every delay. When the \<open>poll\<close> script is used up
  the peer stays silent for ever: a \<open>poll\<close> with a timeout then times out, and one without
  blocks for ever, which is the value \<open>None\<close> of every operation here.
\<close>

section \<open>The calls into the operating system\<close>

datatype errno = EINTR | EAGAIN | EWOULDBLOCK | EOTHER

datatype poll_result = PollReady "16 word" | PollTimeout | PollError errno

datatype io_event = Moved nat | IoError errno

datatype io_result = IoCount bytes | IoFail errno

record sock =
  rx :: bytes
  tx :: bytes
  polls :: "(nat \<times> poll_result) list"
  ios :: "io_event list"
  clock :: int

definition POLLIN :: "16 word" where "POLLIN = 1"
definition POLLOUT :: "16 word" where "POLLOUT = 4"
definition POLLERR :: "16 word" where "POLLERR = 8"
definition POLLHUP :: "16 word" where "POLLHUP = 16"
definition POLLNVAL :: "16 word" where "POLLNVAL = 32"

definition ns_per_ms :: int where "ns_per_ms = 1000000"

text \<open>\<open>poll\<close> on the one descriptor, with the timeout in milliseconds.\<close>

definition sys_poll :: "int \<Rightarrow> sock \<Rightarrow> (poll_result \<times> sock) option" where
  "sys_poll timeout s =
     (case polls s of
        [] \<Rightarrow> if timeout < 0 then None
              else Some (PollTimeout, s\<lparr>clock := clock s + timeout * ns_per_ms\<rparr>)
      | (d, r) # rest \<Rightarrow> Some (r, s\<lparr>polls := rest, clock := clock s + int d\<rparr>))"

text \<open>
  \<open>recv\<close> of at most \<open>want\<close> bytes: \<open>Moved n\<close> hands over up to \<open>n + 1\<close> of the bytes that
  are there, so the count is 0 exactly at the end of the peer's stream. \<open>send\<close> of \<open>data\<close>
  accepts up to \<open>n + 1\<close> bytes of it.
\<close>

definition next_io :: "sock \<Rightarrow> io_event" where
  "next_io s = (case ios s of [] \<Rightarrow> IoError EAGAIN | e # _ \<Rightarrow> e)"

definition sys_recv :: "nat \<Rightarrow> sock \<Rightarrow> io_result \<times> sock" where
  "sys_recv want s =
     (case next_io s of
        IoError e \<Rightarrow> (IoFail e, s\<lparr>ios := tl (ios s)\<rparr>)
      | Moved n \<Rightarrow>
          let k = min (Suc n) want
          in (IoCount (take k (rx s)), s\<lparr>ios := tl (ios s), rx := drop k (rx s)\<rparr>))"

definition sys_send :: "bytes \<Rightarrow> sock \<Rightarrow> io_result \<times> sock" where
  "sys_send data s =
     (case next_io s of
        IoError e \<Rightarrow> (IoFail e, s\<lparr>ios := tl (ios s)\<rparr>)
      | Moved n \<Rightarrow>
          let k = min (Suc n) (length data)
          in (IoCount (take k data), s\<lparr>ios := tl (ios s), tx := tx s @ take k data\<rparr>))"

lemma sys_poll_frame [io_frame]:
  "sys_poll t s = Some (r, s') \<Longrightarrow> rx s' = rx s \<and> tx s' = tx s \<and> ios s' = ios s"
  by (auto simp: sys_poll_def split: list.splits if_splits)

lemma sys_poll_consumes:
  "sys_poll t s = Some (r, s') \<Longrightarrow> r \<noteq> PollTimeout \<Longrightarrow> length (polls s') < length (polls s)"
  by (auto simp: sys_poll_def split: list.splits if_splits)

lemma sys_poll_returns: "0 \<le> t \<Longrightarrow> \<exists>r s'. sys_poll t s = Some (r, s')"
  by (auto simp: sys_poll_def split: list.splits)

lemma sys_recv_polls: "sys_recv n s = (r, s') \<Longrightarrow> polls s' = polls s"
  by (auto simp: sys_recv_def Let_def split: io_event.splits)

lemma sys_send_polls: "sys_send d s = (r, s') \<Longrightarrow> polls s' = polls s"
  by (auto simp: sys_send_def Let_def split: io_event.splits)

lemma sys_recv_count:
  assumes "sys_recv want s = (IoCount got, s')"
  shows "rx s = got @ rx s'" and "length got \<le> want" and "tx s' = tx s"
  using assms by (auto simp: sys_recv_def Let_def min_def split: io_event.splits if_splits)

lemma sys_recv_fail:
  "sys_recv want s = (IoFail e, s') \<Longrightarrow> rx s' = rx s \<and> tx s' = tx s"
  by (auto simp: sys_recv_def Let_def split: io_event.splits)

lemma sys_send_count:
  assumes "sys_send data s = (IoCount got, s')"
  shows "tx s' = tx s @ got" and "got = take (length got) data" and "rx s' = rx s"
    and "length got \<le> length data"
  using assms by (auto simp: sys_send_def Let_def min_def split: io_event.splits if_splits)

lemma sys_send_fail:
  "sys_send data s = (IoFail e, s') \<Longrightarrow> tx s' = tx s \<and> rx s' = rx s"
  by (auto simp: sys_send_def Let_def split: io_event.splits)

section \<open>Deadlines\<close>

definition deadlineFor :: "int \<Rightarrow> sock \<Rightarrow> int" where
  "deadlineFor timeoutMs s =
     (if timeoutMs < 0 then 2 ^ 63 - 1 else clock s + timeoutMs * ns_per_ms)"

section \<open>Waiting for readiness\<close>

text \<open>
  \<open>wait_round\<close> is one pass through the body of the \<open>while (true)\<close> loop of \<open>waitFor\<close>:
  \<open>Some b\<close> when the pass returns, \<open>None\<close> when it goes round again, which only an
  \<open>EINTR\<close> makes it do. Each further round uses up one answer of the script, which is why
  the loop ends.
\<close>

definition wait_round ::
  "16 word \<Rightarrow> int \<Rightarrow> int \<Rightarrow> sock \<Rightarrow> (bool option \<times> sock) option" where
  "wait_round events timeoutMs deadline s =
     (if 0 \<le> timeoutMs \<and> deadline \<le> clock s then Some (Some False, s)
      else
        let remaining =
              (if 0 \<le> timeoutMs then max 1 ((deadline - clock s) div ns_per_ms) else timeoutMs)
        in case sys_poll remaining s of
             None \<Rightarrow> None
           | Some (r, s') \<Rightarrow>
               (case r of
                  PollReady revents \<Rightarrow>
                    Some (Some (revents AND (events OR POLLERR OR POLLHUP) \<noteq> 0), s')
                | PollTimeout \<Rightarrow> Some (Some False, s')
                | PollError e \<Rightarrow> Some (if e \<noteq> EINTR then Some False else None, s')))"

lemma wait_round_frame:
  "wait_round ev t d s = Some (r, s') \<Longrightarrow> rx s' = rx s \<and> tx s' = tx s \<and> ios s' = ios s"
  by (auto simp: wait_round_def Let_def split: if_splits option.splits poll_result.splits
      dest: sys_poll_frame)

lemma wait_round_consumes:
  "wait_round ev t d s = Some (r, s') \<Longrightarrow> r \<noteq> Some False \<Longrightarrow> length (polls s') < length (polls s)"
  by (auto simp: wait_round_def Let_def split: if_splits option.splits poll_result.splits
      dest: sys_poll_consumes)

lemma wait_round_returns:
  assumes "0 \<le> t"
  shows "\<exists>r s'. wait_round ev t d s = Some (r, s')"
proof -
  obtain r s' where "sys_poll (max 1 ((d - clock s) div ns_per_ms)) s = Some (r, s')"
    using sys_poll_returns by fastforce
  then show ?thesis
    using assms by (cases r) (auto simp: wait_round_def Let_def)
qed

function waitFor :: "16 word \<Rightarrow> int \<Rightarrow> int \<Rightarrow> sock \<Rightarrow> (bool \<times> sock) option" where
  "waitFor events timeoutMs deadline s =
     (case wait_round events timeoutMs deadline s of
        None \<Rightarrow> None
      | Some (Some b, s') \<Rightarrow> Some (b, s')
      | Some (None, s') \<Rightarrow> waitFor events timeoutMs deadline s')"
  by pat_completeness auto
termination
  by (relation "measure (\<lambda>(_, _, _, s). length (polls s))") (simp, use wait_round_consumes in force)

declare waitFor.simps [simp del]

lemma waitFor_round:
  "wait_round ev t d s = None \<Longrightarrow> waitFor ev t d s = None"
  "wait_round ev t d s = Some (Some b, s') \<Longrightarrow> waitFor ev t d s = Some (b, s')"
  "wait_round ev t d s = Some (None, s') \<Longrightarrow> waitFor ev t d s = waitFor ev t d s'"
  by (simp_all add: waitFor.simps[of ev t d s])

text \<open>
  The result of \<open>waitFor\<close> by its rounds: the last one returns, each one before it was an
  \<open>EINTR\<close>. This is the rule the facts about \<open>waitFor\<close> are proved with.
\<close>

lemma waitFor_rounds [consumes 1, case_names Return Again]:
  assumes "waitFor ev t d s = Some (b, s')"
    and "\<And>s s' b. wait_round ev t d s = Some (Some b, s') \<Longrightarrow> P s b s'"
    and "\<And>s s1 s' b. wait_round ev t d s = Some (None, s1) \<Longrightarrow> P s1 b s' \<Longrightarrow> P s b s'"
  shows "P s b s'"
  using assms(1)
proof (induction "length (polls s)" arbitrary: s rule: less_induct)
  case less
  show ?case
  proof (cases "wait_round ev t d s")
    case None
    then show ?thesis using less.prems by (simp add: waitFor_round)
  next
    case (Some p)
    then obtain r s1 where r: "wait_round ev t d s = Some (r, s1)" by (cases p) auto
    show ?thesis
    proof (cases r)
      case None
      with r have "length (polls s1) < length (polls s)" by (auto dest: wait_round_consumes)
      with less r None have "P s1 b s'" by (simp add: waitFor_round)
      with r None show ?thesis by (auto intro: assms(3))
    next
      case (Some b')
      with r less.prems show ?thesis by (auto simp: waitFor_round intro: assms(2))
    qed
  qed
qed

lemma waitFor_frame [io_frame]:
  "waitFor ev t d s = Some (b, s') \<Longrightarrow> rx s' = rx s \<and> tx s' = tx s \<and> ios s' = ios s"
  by (induction rule: waitFor_rounds) (auto dest: wait_round_frame)

lemma waitFor_consumes:
  assumes "waitFor ev t d s = Some (True, s')"
  shows "length (polls s') < length (polls s)"
proof -
  have "b \<Longrightarrow> length (polls s') < length (polls s)" if "waitFor ev t d s = Some (b, s')" for b
    using that by (induction rule: waitFor_rounds) (auto dest: wait_round_consumes)
  with assms show ?thesis by blast
qed

lemma waitFor_expired:
  "0 \<le> t \<Longrightarrow> d \<le> clock s \<Longrightarrow> waitFor ev t d s = Some (False, s)"
  by (simp add: waitFor.simps wait_round_def)

lemma waitFor_returns:
  assumes "0 \<le> t"
  shows "\<exists>b s'. waitFor ev t d s = Some (b, s')"
proof (induction "length (polls s)" arbitrary: s rule: less_induct)
  case less
  obtain r s1 where r: "wait_round ev t d s = Some (r, s1)"
    using wait_round_returns[OF assms] by blast
  show ?case
  proof (cases r)
    case None
    with r have "length (polls s1) < length (polls s)" by (auto dest: wait_round_consumes)
    with less r None show ?thesis by (simp add: waitFor_round)
  next
    case (Some b)
    with r show ?thesis by (auto simp: waitFor_round)
  qed
qed

section \<open>Moving a whole buffer\<close>

text \<open>
  \<open>transfer\<close> sends or fills the whole buffer \<open>data\<close> or fails. \<open>transfer_from\<close> is its
  loop at a given \<open>offset\<close>; the result carries the buffer, which reading fills in place.
\<close>

definition retryable :: "errno \<Rightarrow> bool" where
  "retryable e \<longleftrightarrow> e = EINTR \<or> e = EAGAIN \<or> e = EWOULDBLOCK"

text \<open>One pass through the loop body: \<open>Some b\<close> when it returns, \<open>None\<close> when it goes on.\<close>

definition transfer_round ::
  "bool \<Rightarrow> int \<Rightarrow> int \<Rightarrow> nat \<Rightarrow> bytes \<Rightarrow> sock \<Rightarrow> (bool option \<times> nat \<times> bytes \<times> sock) option" where
  "transfer_round writing timeoutMs deadline offset data s =
     (case waitFor (if writing then POLLOUT else POLLIN) timeoutMs deadline s of
        None \<Rightarrow> None
      | Some (ready, s1) \<Rightarrow>
          if \<not> ready then Some (Some False, offset, data, s1)
          else
            (case (if writing then sys_send (drop offset data) s1
                   else sys_recv (length data - offset) s1) of
               (IoFail e, s2) \<Rightarrow>
                 Some (if retryable e then None else Some False, offset, data, s2)
             | (IoCount got, s2) \<Rightarrow>
                 if got = [] then Some (Some False, offset, data, s2)
                 else Some (None, offset + length got,
                            if writing then data else write_at offset got data, s2)))"

lemma transfer_round_consumes:
  "transfer_round w t d off data s = Some (r, off', data', s') \<Longrightarrow> r \<noteq> Some False
     \<Longrightarrow> length (polls s') < length (polls s)"
  by (auto simp: transfer_round_def split: option.splits prod.splits if_splits io_result.splits
      dest!: waitFor_consumes sys_recv_polls sys_send_polls)

function transfer_from ::
  "bool \<Rightarrow> int \<Rightarrow> int \<Rightarrow> nat \<Rightarrow> bytes \<Rightarrow> sock \<Rightarrow> (bool \<times> bytes \<times> sock) option" where
  "transfer_from writing timeoutMs deadline offset data s =
     (if offset < length data then
        (case transfer_round writing timeoutMs deadline offset data s of
           None \<Rightarrow> None
         | Some (Some b, _, data', s') \<Rightarrow> Some (b, data', s')
         | Some (None, offset', data', s') \<Rightarrow>
             transfer_from writing timeoutMs deadline offset' data' s')
      else Some (True, data, s))"
  by pat_completeness auto
termination
  by (relation "measure (\<lambda>(_, _, _, _, _, s). length (polls s))")
    (simp, use transfer_round_consumes in force)

declare transfer_from.simps [simp del]

definition transfer ::
  "bytes \<Rightarrow> bool \<Rightarrow> int \<Rightarrow> int \<Rightarrow> sock \<Rightarrow> (bool \<times> bytes \<times> sock) option" where
  "transfer data writing timeoutMs deadline s = transfer_from writing timeoutMs deadline 0 data s"

lemma transfer_rounds [consumes 1, case_names Full Return Again]:
  assumes "transfer_from w t d off data s = Some (b, data', s')"
    and "\<And>off data s. length data \<le> off \<Longrightarrow> P off data s True data s"
    and "\<And>off data s b off' data' s'. off < length data \<Longrightarrow>
           transfer_round w t d off data s = Some (Some b, off', data', s') \<Longrightarrow>
           P off data s b data' s'"
    and "\<And>off data s off1 data1 s1 b data' s'. off < length data \<Longrightarrow>
           transfer_round w t d off data s = Some (None, off1, data1, s1) \<Longrightarrow>
           P off1 data1 s1 b data' s' \<Longrightarrow> P off data s b data' s'"
  shows "P off data s b data' s'"
  using assms(1)
proof (induction "length (polls s)" arbitrary: off data s rule: less_induct)
  case less
  show ?case
  proof (cases "off < length data")
    case False
    then show ?thesis using less.prems assms(2)[of data off s] by (simp add: transfer_from.simps)
  next
    case True
    with less.prems obtain r off1 data1 s1
      where r: "transfer_round w t d off data s = Some (r, off1, data1, s1)"
      by (auto simp: transfer_from.simps[of w t d off data s] split: option.splits)
    show ?thesis
    proof (cases r)
      case None
      with r have "length (polls s1) < length (polls s)" by (auto dest: transfer_round_consumes)
      moreover have "transfer_from w t d off1 data1 s1 = Some (b, data', s')"
        using less.prems r None True by (simp add: transfer_from.simps[of w t d off data s])
      ultimately show ?thesis using less.hyps assms(4) True r None by blast
    next
      case (Some b')
      with r True less.prems show ?thesis
        by (auto simp: transfer_from.simps[of w t d off data s] intro: assms(3))
    qed
  qed
qed

text \<open>What one round moves, in each direction.\<close>

lemma recv_round:
  assumes "transfer_round False t d off data s = Some (r, off', data', s')"
    and "off < length data"
  shows "\<exists>got. rx s = got @ rx s' \<and> off' = off + length got \<and> off' \<le> length data
           \<and> data' = write_at off got data \<and> tx s' = tx s \<and> (r \<noteq> None \<longrightarrow> got = [] \<and> r = Some False)"
proof -
  obtain b s1 where w: "waitFor POLLIN t d s = Some (b, s1)"
    using assms by (auto simp: transfer_round_def split: option.splits)
  note f = waitFor_frame[OF w]
  obtain o2 s2 where o2: "sys_recv (length data - off) s1 = (o2, s2)" by force
  show ?thesis
  proof (cases o2)
    case (IoFail e)
    then show ?thesis
      using assms w f o2 sys_recv_fail[of _ s1 e s2]
      by (intro exI[of _ "[]"]) (auto simp: transfer_round_def split: if_splits)
  next
    case (IoCount got)
    note c = sys_recv_count[OF o2[unfolded IoCount]]
    show ?thesis
      using assms w f o2 c IoCount
      by (intro exI[of _ "if b then got else []"])
        (auto simp: transfer_round_def split: if_splits)
  qed
qed

lemma send_round:
  assumes "transfer_round True t d off data s = Some (r, off', data', s')"
    and "off < length data"
  shows "\<exists>k. tx s' = tx s @ take k (drop off data) \<and> off' = off + k \<and> off' \<le> length data
           \<and> data' = data \<and> rx s' = rx s \<and> (r \<noteq> None \<longrightarrow> k = 0 \<and> r = Some False)"
proof -
  obtain b s1 where w: "waitFor POLLOUT t d s = Some (b, s1)"
    using assms by (auto simp: transfer_round_def split: option.splits)
  note f = waitFor_frame[OF w]
  obtain o2 s2 where o2: "sys_send (drop off data) s1 = (o2, s2)" by force
  show ?thesis
  proof (cases o2)
    case (IoFail e)
    then show ?thesis
      using assms w f o2 sys_send_fail[of _ s1 e s2]
      by (intro exI[of _ 0]) (auto simp: transfer_round_def split: if_splits)
  next
    case (IoCount got)
    note c = sys_send_count[OF o2[unfolded IoCount]]
    show ?thesis
      using assms w f o2 c IoCount
      by (intro exI[of _ "if b then length got else 0"])
        (auto simp: transfer_round_def split: if_splits)
  qed
qed

lemma transfer_read:
  assumes "transfer_from False t d off data s = Some (b, data', s')" and "off \<le> length data"
  shows "\<exists>got. rx s = got @ rx s' \<and> tx s' = tx s \<and> length got \<le> length data - off
           \<and> (b \<longrightarrow> data' = take off data @ got \<and> length got = length data - off)"
  using assms
proof (induction rule: transfer_rounds)
  case (Full off data s)
  then show ?case by auto
next
  case (Return off data s b off' data' s')
  then show ?case using recv_round[OF Return(2,1)] by auto
next
  case (Again off data s off1 data1 s1 b data' s')
  obtain g where g: "rx s = g @ rx s1" "off1 = off + length g" "off1 \<le> length data"
    "data1 = write_at off g data" "tx s1 = tx s"
    using recv_round[OF Again(2,1)] by auto
  with Again obtain got where "rx s1 = got @ rx s'" "tx s' = tx s1"
    "length got \<le> length data1 - off1" "b \<longrightarrow> data' = take off1 data1 @ got \<and> length got = length data1 - off1"
    by auto
  with g Again.hyps Again.prems show ?case
    by (intro exI[of _ "g @ got"]) (auto simp: take_write_at)
qed

lemma transfer_write:
  assumes "transfer_from True t d off data s = Some (b, data', s')" and "off \<le> length data"
  shows "\<exists>k. tx s' = tx s @ take k (drop off data) \<and> rx s' = rx s \<and> k \<le> length data - off
           \<and> (b \<longleftrightarrow> k = length data - off)"
  using assms
proof (induction rule: transfer_rounds)
  case (Full off data s)
  then show ?case by auto
next
  case (Return off data s b off' data' s')
  then show ?case using send_round[OF Return(2,1)] by fastforce
next
  case (Again off data s off1 data1 s1 b data' s')
  obtain k where k: "tx s1 = tx s @ take k (drop off data)" "off1 = off + k" "off1 \<le> length data"
    "data1 = data" "rx s1 = rx s"
    using send_round[OF Again(2,1)] by auto
  with Again obtain j where j: "tx s' = tx s1 @ take j (drop off1 data)" "rx s' = rx s1"
    "j \<le> length data - off1" "b \<longleftrightarrow> j = length data - off1"
    by auto
  have "take k (drop off data) @ take j (drop off1 data) = take (k + j) (drop off data)"
    using k by (simp add: take_add drop_drop add.commute [of off])
  with k j show ?case by (intro exI[of _ "k + j"]) auto
qed

lemma transfer_expired:
  "0 \<le> t \<Longrightarrow> d \<le> clock s \<Longrightarrow> data \<noteq> [] \<Longrightarrow>
     transfer data w t d s = Some (False, data, s)"
  by (simp add: transfer_def transfer_from.simps transfer_round_def waitFor_expired)

lemma transfer_round_returns:
  assumes "0 \<le> t"
  shows "\<exists>r. transfer_round w t d off data s = Some r"
  using waitFor_returns[OF assms, of "if w then POLLOUT else POLLIN" d s]
  by (fastforce simp: transfer_round_def split: io_result.splits prod.splits)

lemma transfer_from_returns:
  assumes "0 \<le> t"
  shows "\<exists>r. transfer_from w t d off data s = Some r"
proof (induction "length (polls s)" arbitrary: off data s rule: less_induct)
  case less
  obtain r off1 data1 s1 where r: "transfer_round w t d off data s = Some (r, off1, data1, s1)"
    using transfer_round_returns[OF assms] by (metis prod_cases4)
  show ?case
  proof (cases r)
    case None
    with r have "length (polls s1) < length (polls s)" by (auto dest: transfer_round_consumes)
    then have "\<exists>r. transfer_from w t d off1 data1 s1 = Some r" by (rule less.hyps)
    with r None show ?thesis
      by (cases "off < length data") (auto simp: transfer_from.simps[of w t d off data s])
  next
    case (Some b)
    with r show ?thesis
      by (cases "off < length data") (auto simp: transfer_from.simps[of w t d off data s])
  qed
qed

lemma transfer_returns: "0 \<le> t \<Longrightarrow> \<exists>r. transfer data w t d s = Some r"
  unfolding transfer_def by (rule transfer_from_returns)

section \<open>The clock\<close>

lemma sys_poll_clock [clock_mono]: "sys_poll t s = Some (r, s') \<Longrightarrow> clock s \<le> clock s'"
  by (auto simp: sys_poll_def ns_per_ms_def split: list.splits if_splits)

lemma sys_io_clock:
  "sys_recv n s = (r, s') \<Longrightarrow> clock s' = clock s" "sys_send d s = (r, s') \<Longrightarrow> clock s' = clock s"
  by (auto simp: sys_recv_def sys_send_def Let_def split: io_event.splits)

lemma wait_round_clock: "wait_round ev t d s = Some (r, s') \<Longrightarrow> clock s \<le> clock s'"
  by (auto simp: wait_round_def Let_def split: if_splits option.splits poll_result.splits
      dest: sys_poll_clock)

lemma waitFor_clock [clock_mono]: "waitFor ev t d s = Some (b, s') \<Longrightarrow> clock s \<le> clock s'"
  by (induction rule: waitFor_rounds) (auto dest: wait_round_clock)

lemma transfer_round_clock:
  "transfer_round w t d off data s = Some (r, off', data', s') \<Longrightarrow> clock s \<le> clock s'"
  by (auto simp: transfer_round_def split: option.splits prod.splits if_splits io_result.splits
      dest!: waitFor_clock dest: sys_io_clock)

lemma transfer_clock [clock_mono]: "transfer data w t d s = Some (b, data', s') \<Longrightarrow> clock s \<le> clock s'"
proof -
  have "transfer_from w t d off data s = Some (b, data', s') \<Longrightarrow> clock s \<le> clock s'" for off
    by (induction rule: transfer_rounds) (auto dest!: transfer_round_clock)
  then show "transfer data w t d s = Some (b, data', s') \<Longrightarrow> clock s \<le> clock s'"
    by (simp add: transfer_def)
qed

section \<open>An undisturbed stream\<close>

text \<open>
  \<open>smooth n s\<close>: the next \<open>n\<close> polls report the socket ready at once and the next \<open>n\<close> reads or
  writes move at least a byte each. A buffer of \<open>n\<close> bytes then goes through, whatever the
  sizes of the pieces.
\<close>

definition smooth :: "nat \<Rightarrow> sock \<Rightarrow> bool" where
  "smooth n s \<longleftrightarrow> n \<le> length (polls s) \<and> n \<le> length (ios s)
     \<and> (\<forall>p \<in> set (take n (polls s)). p = (0, PollReady (POLLIN OR POLLOUT)))
     \<and> (\<forall>e \<in> set (take n (ios s)). \<exists>k. e = Moved k)"

lemma smooth_mono: "smooth n s \<Longrightarrow> m \<le> n \<Longrightarrow> smooth m s"
  by (auto simp: smooth_def dest!: in_set_takeD simp: set_take_subset_set_take [THEN subsetD])

lemma smooth_SucE:
  assumes "smooth (Suc n) s"
  obtains ps k es where "polls s = (0, PollReady (POLLIN OR POLLOUT)) # ps" "ios s = Moved k # es"
    "smooth n (s\<lparr>polls := ps, ios := es\<rparr>)"
  using assms by (cases "polls s"; cases "ios s") (auto simp: smooth_def)

lemma smooth_frame: "polls s' = polls s \<Longrightarrow> ios s' = ios s \<Longrightarrow> smooth n s' \<longleftrightarrow> smooth n s"
  by (simp add: smooth_def)

lemma waitFor_smooth:
  assumes "polls s = (0, PollReady (POLLIN OR POLLOUT)) # ps" "clock s < d"
    and "ev = POLLIN \<or> ev = POLLOUT"
  shows "waitFor ev t d s = Some (True, s\<lparr>polls := ps\<rparr>)"
  using assms
  by (auto simp: waitFor.simps wait_round_def Let_def sys_poll_def POLLIN_def POLLOUT_def
      POLLERR_def POLLHUP_def)

lemma transfer_smooth_read:
  assumes "smooth n s" "clock s < d" "off \<le> length data" "length data - off \<le> n"
    "length data - off \<le> length (rx s)"
  shows "\<exists>data' s'. transfer_from False t d off data s = Some (True, data', s')
           \<and> smooth (n - (length data - off)) s' \<and> clock s' = clock s"
  using assms
proof (induction n arbitrary: s off data)
  case 0
  then show ?case by (simp add: transfer_from.simps)
next
  case (Suc n)
  show ?case
  proof (cases "off < length data")
    case False
    with Suc.prems show ?thesis by (simp add: transfer_from.simps)
  next
    case True
    obtain ps k es where s: "polls s = (0, PollReady (POLLIN OR POLLOUT)) # ps" "ios s = Moved k # es"
      and sm: "smooth n (s\<lparr>polls := ps, ios := es\<rparr>)"
      using smooth_SucE[OF Suc.prems(1)] .
    define j where "j = min (Suc k) (length data - off)"
    let ?got = "take j (rx s)"
    let ?s = "s\<lparr>polls := ps, ios := es, rx := drop j (rx s)\<rparr>"
    let ?data = "write_at off ?got data"
    have j: "0 < j" "j \<le> length data - off" "length ?got = j"
      using True Suc.prems by (auto simp: j_def)
    have round: "transfer_round False t d off data s = Some (None, off + j, ?data, ?s)"
      using j s Suc.prems waitFor_smooth[OF s(1) Suc.prems(2), of POLLIN t]
      by (auto simp: transfer_round_def sys_recv_def next_io_def Let_def j_def [symmetric])
    have len: "length ?data = length data"
      using j by (intro length_write_at) auto
    obtain data' s' where rec: "transfer_from False t d (off + j) ?data ?s = Some (True, data', s')"
      "smooth (n - (length ?data - (off + j))) s'" "clock s' = clock ?s"
      using Suc.IH[of ?s "off + j" ?data] sm Suc.prems j len by (force simp: smooth_def)
    have "smooth (Suc n - (length data - off)) s'"
      using rec(2) j len by (elim smooth_mono) auto
    moreover have "transfer_from False t d off data s = Some (True, data', s')"
      using True round rec(1) by (simp add: transfer_from.simps[of _ _ _ off])
    ultimately show ?thesis using rec(3) by auto
  qed
qed

lemma transfer_smooth_write:
  assumes "smooth n s" "clock s < d" "off \<le> length data" "length data - off \<le> n"
  shows "\<exists>data' s'. transfer_from True t d off data s = Some (True, data', s')
           \<and> smooth (n - (length data - off)) s' \<and> clock s' = clock s"
  using assms
proof (induction n arbitrary: s off)
  case 0
  then show ?case by (simp add: transfer_from.simps)
next
  case (Suc n)
  show ?case
  proof (cases "off < length data")
    case False
    with Suc.prems show ?thesis by (simp add: transfer_from.simps)
  next
    case True
    obtain ps k es where s: "polls s = (0, PollReady (POLLIN OR POLLOUT)) # ps" "ios s = Moved k # es"
      and sm: "smooth n (s\<lparr>polls := ps, ios := es\<rparr>)"
      using smooth_SucE[OF Suc.prems(1)] .
    define j where "j = min (Suc k) (length data - off)"
    let ?s = "s\<lparr>polls := ps, ios := es, tx := tx s @ take j (drop off data)\<rparr>"
    have j: "0 < j" "j \<le> length data - off" using True by (auto simp: j_def)
    have round: "transfer_round True t d off data s = Some (None, off + j, data, ?s)"
      using j s waitFor_smooth[OF s(1) Suc.prems(2), of POLLOUT t]
      by (auto simp: transfer_round_def sys_send_def next_io_def Let_def j_def [symmetric])
    obtain data' s' where rec: "transfer_from True t d (off + j) data ?s = Some (True, data', s')"
      "smooth (n - (length data - (off + j))) s'" "clock s' = clock ?s"
      using Suc.IH[of ?s "off + j"] sm Suc.prems j by (force simp: smooth_def)
    have "smooth (Suc n - (length data - off)) s'"
      using rec(2) j by (elim smooth_mono) auto
    moreover have "transfer_from True t d off data s = Some (True, data', s')"
      using True round rec(1) by (simp add: transfer_from.simps[of _ _ _ off])
    ultimately show ?thesis using rec(3) by auto
  qed
qed

text \<open>A socket on which every \<open>poll\<close> is ready at once and every call moves all it can.\<close>

definition quiet :: "nat \<Rightarrow> bytes \<Rightarrow> sock" where
  "quiet n input = \<lparr>rx = input, tx = [], polls = replicate n (0, PollReady (POLLIN OR POLLOUT)),
     ios = replicate n (Moved 70000), clock = 0\<rparr>"

lemma quiet_fields [simp]: "rx (quiet n input) = input" "tx (quiet n input) = []"
  "clock (quiet n input) = 0"
  by (simp_all add: quiet_def)

lemma smooth_quiet [simp]: "n \<le> m \<Longrightarrow> smooth n (quiet m input)"
  by (rule smooth_mono[of m]) (simp_all add: smooth_def quiet_def)

end
