(* ===== verification/Message_Stream.thy ===== *)
theory Message_Stream
  imports OC_Prelude
begin

text \<open>
  The contract the two receivers of the control protocol share: \<open>receiveFrame\<close> on the raw
  socket and \<open>AuthenticatedChannel::receive\<close> on top of it. A receiver step \<open>accept s m s'\<close>
  takes one message off the unread bytes; the bytes it takes are the encoding of that
  message under the receiver's position in the session (\<open>pos\<close>), and accepting a message
  advances the position. From these laws alone the accepted messages are a prefix of what
  was encoded onto the stream, in order, without gaps and without repetition.
\<close>

fun encode_from :: "('p \<Rightarrow> 'm \<Rightarrow> bytes) \<Rightarrow> ('p \<Rightarrow> 'p) \<Rightarrow> 'p \<Rightarrow> 'm list \<Rightarrow> bytes" where
  "encode_from code adv p [] = []"
| "encode_from code adv p (m # ms) = code p m @ encode_from code adv (adv p) ms"

inductive accepts :: "('s \<Rightarrow> 'm \<Rightarrow> 's \<Rightarrow> bool) \<Rightarrow> 's \<Rightarrow> 'm list \<Rightarrow> 's \<Rightarrow> bool"
  for accept :: "'s \<Rightarrow> 'm \<Rightarrow> 's \<Rightarrow> bool" where
  accepts_Nil: "accepts accept s [] s"
| accepts_Cons: "accept s m s1 \<Longrightarrow> accepts accept s1 ms s2 \<Longrightarrow> accepts accept s (m # ms) s2"

inductive_simps accepts_Nil_iff [simp]: "accepts accept s [] s'"
inductive_simps accepts_Cons_iff: "accepts accept s (m # ms) s'"

locale message_stream =
  fixes ok :: "'s \<Rightarrow> bool"
    and accept :: "'s \<Rightarrow> 'm \<Rightarrow> 's \<Rightarrow> bool"
    and unread :: "'s \<Rightarrow> bytes"
    and pos :: "'s \<Rightarrow> 'p"
    and adv :: "'p \<Rightarrow> 'p"
    and code :: "'p \<Rightarrow> 'm \<Rightarrow> bytes"
    and valid :: "'m \<Rightarrow> bool"
  assumes accept_consumes:
      "ok s \<Longrightarrow> accept s m s' \<Longrightarrow> unread s = code (pos s) m @ unread s'"
    and accept_valid: "ok s \<Longrightarrow> accept s m s' \<Longrightarrow> valid m"
    and accept_advances: "ok s \<Longrightarrow> accept s m s' \<Longrightarrow> pos s' = adv (pos s)"
    and accept_ok: "ok s \<Longrightarrow> accept s m s' \<Longrightarrow> ok s'"
    and code_prefix_free:
      "valid m \<Longrightarrow> valid m' \<Longrightarrow> code p m @ r = code p m' @ r' \<Longrightarrow> m = m' \<and> r = r'"
begin

lemma accepts_consume:
  "accepts accept s ms s' \<Longrightarrow> ok s \<Longrightarrow>
     unread s = encode_from code adv (pos s) ms @ unread s' \<and> list_all valid ms \<and> ok s'"
proof (induction rule: accepts.induct)
  case (accepts_Nil s)
  then show ?case by simp
next
  case (accepts_Cons s m s1 ms s2)
  note m = accept_consumes[OF accepts_Cons.prems accepts_Cons.hyps(1)]
    accept_valid[OF accepts_Cons.prems accepts_Cons.hyps(1)]
    accept_advances[OF accepts_Cons.prems accepts_Cons.hyps(1)]
    accept_ok[OF accepts_Cons.prems accepts_Cons.hyps(1)]
  show ?case using m accepts_Cons.IH[OF m(4)] by simp
qed

text \<open>Two encodings of message lists that agree as bytes agree message by message.\<close>

lemma encode_from_prefix:
  "list_all valid ms \<Longrightarrow> list_all valid ns \<Longrightarrow> length ms \<le> length ns \<Longrightarrow>
     encode_from code adv p ms @ r = encode_from code adv p ns @ r' \<Longrightarrow>
     ms = take (length ms) ns \<and> r = encode_from code adv ((adv ^^ length ms) p) (drop (length ms) ns) @ r'"
proof (induction ms arbitrary: ns p)
  case Nil
  then show ?case by simp
next
  case (Cons m ms)
  then obtain n ns' where ns: "ns = n # ns'" by (cases ns) auto
  have "m = n" and rest: "encode_from code adv (adv p) ms @ r = encode_from code adv (adv p) ns' @ r'"
    using Cons.prems ns
      code_prefix_free[of m n p "encode_from code adv (adv p) ms @ r"
        "encode_from code adv (adv p) ns' @ r'"]
    by auto
  with Cons.IH[of ns' "adv p"] Cons.prems ns show ?case by (simp add: funpow_swap1)
qed

lemma in_order_delivery:
  assumes "ok s" "accepts accept s ms s'" "list_all valid sent"
    and "unread s = encode_from code adv (pos s) sent @ rest" and "length ms \<le> length sent"
  shows "ms = take (length ms) sent"
    and "unread s' = encode_from code adv ((adv ^^ length ms) (pos s)) (drop (length ms) sent) @ rest"
  using accepts_consume[OF assms(2,1)] encode_from_prefix[of ms sent "pos s" "unread s'" rest] assms
  by auto

end

end
