(* ===== verification/Control_Frames.thy ===== *)
theory Control_Frames
  imports Socket_IO Message_Stream
begin

text \<open>
  The framing layer of \<open>linux/src/control_protocol.cpp\<close>: the ten-byte header, \<open>sendFrame\<close>
  and \<open>receiveFrame\<close>. The frame type is an \<open>enum class : std::uint8_t\<close>; \<open>receiveFrame\<close>
  casts any byte to it, so it is kept as a byte here, with the enumerators as constants.
\<close>

section \<open>Constants\<close>

definition VERSION :: byte where "VERSION = 2"
definition MAX_PAYLOAD :: nat where "MAX_PAYLOAD = 64 * 1024"
definition MAGIC :: bytes where "MAGIC = string_bytes ''OCAM''"
definition HEADER_SIZE :: nat where "HEADER_SIZE = 10"

type_synonym ftype = byte

definition SERVER_HELLO :: ftype where "SERVER_HELLO = 1"
definition CLIENT_AUTH :: ftype where "CLIENT_AUTH = 2"
definition SERVER_AUTH :: ftype where "SERVER_AUTH = 3"
definition DESCRIPTOR :: ftype where "DESCRIPTOR = 4"
definition ACTIVATION :: ftype where "ACTIVATION = 5"
definition ERROR_REPORT :: ftype where "ERROR_REPORT = 6"

record frame =
  ftype :: byte
  payload :: bytes

section \<open>The header\<close>

definition makeHeader :: "ftype \<Rightarrow> nat \<Rightarrow> bytes" where
  "makeHeader ty payloadSize =
     (let size = word_of_nat payloadSize :: 32 word
      in MAGIC @ [VERSION, ty, ucast (drop_bit 24 size), ucast (drop_bit 16 size),
                  ucast (drop_bit 8 size), ucast size])"

definition header_size_field :: "bytes \<Rightarrow> 32 word" where
  "header_size_field h =
     (push_bit 24 (ucast (h ! 6)) OR push_bit 16 (ucast (h ! 7))
      OR push_bit 8 (ucast (h ! 8)) OR ucast (h ! 9))"

section \<open>Sending and receiving a frame\<close>

definition sendFrame :: "ftype \<Rightarrow> bytes \<Rightarrow> int \<Rightarrow> sock \<Rightarrow> (bool \<times> sock) option" where
  "sendFrame ty pl timeoutMs s =
     (if length pl > MAX_PAYLOAD then Some (False, s)
      else
        let header = makeHeader ty (length pl); deadline = deadlineFor timeoutMs s
        in do {
          (ok, _, s1) \<leftarrow> transfer header True timeoutMs deadline s;
          if \<not> ok then Some (False, s1)
          else if pl = [] then Some (True, s1)
          else do {
            (ok2, _, s2) \<leftarrow> transfer pl True timeoutMs deadline s1;
            Some (ok2, s2)
          }
        })"

definition receiveFrame :: "int \<Rightarrow> sock \<Rightarrow> (frame option \<times> sock) option" where
  "receiveFrame timeoutMs s =
     (let deadline = deadlineFor timeoutMs s
      in do {
        (ok, header, s1) \<leftarrow> transfer (replicate HEADER_SIZE 0) False timeoutMs deadline s;
        if \<not> ok then Some (None, s1)
        else if take 4 header \<noteq> MAGIC \<or> header ! 4 \<noteq> VERSION then Some (None, s1)
        else
          let size = header_size_field header
          in if unat size > MAX_PAYLOAD then Some (None, s1)
             else if size = 0 then Some (Some \<lparr>ftype = header ! 5, payload = []\<rparr>, s1)
             else do {
               (ok2, pl, s2) \<leftarrow> transfer (replicate (unat size) 0) False timeoutMs deadline s1;
               Some (if ok2 then Some \<lparr>ftype = header ! 5, payload = pl\<rparr> else None, s2)
             }
      })"

section \<open>Facts about headers\<close>

lemma length_MAGIC [simp]: "length MAGIC = 4"
  by (simp add: MAGIC_def)

lemma makeHeader_alt:
  "makeHeader ty n = MAGIC @ [VERSION, ty] @ be_bytes 4 (word_of_nat n :: 32 word)"
  by (simp add: makeHeader_def be_bytes_4 Let_def)

lemma length_makeHeader [simp, codec_simps]: "length (makeHeader ty n) = HEADER_SIZE"
  by (simp add: makeHeader_alt HEADER_SIZE_def)

text \<open>The shift-and-or expression over the four size bytes is the big-endian reading.\<close>

lemma or_shift_be_word:
  "(push_bit 24 (ucast (a::byte)) OR push_bit 16 (ucast (b::byte)) OR push_bit 8 (ucast (c::byte))
      OR ucast (d::byte) :: 32 word) = be_word [a, b, c, d]"
  by (simp add: be_word_def push_bit_or) (simp add: or.assoc)

lemma header_size_field_be:
  assumes "length h = 10"
  shows "header_size_field h = be_word (drop 6 h)"
proof -
  have "drop 6 h = [h ! 6, h ! 7, h ! 8, h ! 9]"
    using assms by (simp add: list_eq_iff_nth_eq less_Suc_eq eval_nat_numeral)
  then show ?thesis by (simp add: header_size_field_def or_shift_be_word)
qed

lemma header_fields [codec_simps]:
  shows "take 4 (makeHeader ty n) = MAGIC"
    and "makeHeader ty n ! 4 = VERSION"
    and "makeHeader ty n ! 5 = ty"
    and "header_size_field (makeHeader ty n) = word_of_nat n"
proof -
  have "length (makeHeader ty n) = 10" by (simp add: HEADER_SIZE_def)
  then show "header_size_field (makeHeader ty n) = word_of_nat n"
    by (simp add: header_size_field_be) (simp add: makeHeader_alt be_word_be_bytes)
qed (simp_all add: makeHeader_alt nth_append)

lemma header_canonical:
  assumes "length h = HEADER_SIZE" "take 4 h = MAGIC" "h ! 4 = VERSION"
  shows "h = makeHeader (h ! 5) (unat (header_size_field h))"
proof -
  have len: "length h = 10" using assms(1) by (simp add: HEADER_SIZE_def)
  then have tail: "drop 4 h = h ! 4 # h ! 5 # drop 6 h"
    using Cons_nth_drop_Suc[of 4 h] Cons_nth_drop_Suc[of 5 h] by simp
  have h: "h = take 4 h @ drop 4 h" by simp
  have "be_bytes 4 (header_size_field h) = drop 6 h"
    using len by (simp add: header_size_field_be be_bytes_be_word)
  then show ?thesis
    using h assms tail by (simp add: makeHeader_alt)
qed

lemma unat_of_small_nat: "n \<le> MAX_PAYLOAD \<Longrightarrow> unat (word_of_nat n :: 32 word) = n"
  by (simp add: MAX_PAYLOAD_def unat_of_nat)

section \<open>Facts about sending and receiving\<close>

text \<open>The bytes of a frame on the wire.\<close>

definition frame_wire :: "frame \<Rightarrow> bytes" where
  "frame_wire f = makeHeader (ftype f) (length (payload f)) @ payload f"

definition frame_ok :: "frame \<Rightarrow> bool" where
  "frame_ok f \<longleftrightarrow> length (payload f) \<le> MAX_PAYLOAD"

lemma frame_wire_prefix_free:
  assumes "frame_ok f" "frame_ok g" "frame_wire f @ r = frame_wire g @ r'"
  shows "f = g \<and> r = r'"
proof -
  have "makeHeader (ftype f) (length (payload f)) = makeHeader (ftype g) (length (payload g))"
    and rest: "payload f @ r = payload g @ r'"
    using assms(3) by (auto simp: frame_wire_def append_eq_append_conv)
  then have "ftype f = ftype g"
    and "word_of_nat (length (payload f)) = (word_of_nat (length (payload g)) :: 32 word)"
    by (metis header_fields(3), metis header_fields(4))
  then have "length (payload f) = length (payload g)"
    using assms(1,2) by (metis frame_ok_def unat_of_small_nat)
  with rest \<open>ftype f = ftype g\<close> show ?thesis by (simp add: append_eq_append_conv)
qed

lemma sendFrame_cases:
  assumes "sendFrame ty pl t s = Some (b, s')"
  shows "rx s' = rx s"
    and "b \<Longrightarrow> length pl \<le> MAX_PAYLOAD \<and> tx s' = tx s @ makeHeader ty (length pl) @ pl"
    and "\<not> b \<Longrightarrow> \<exists>k. tx s' = tx s @ take k (makeHeader ty (length pl) @ pl)
           \<and> k < HEADER_SIZE + length pl"
proof -
  let ?h = "makeHeader ty (length pl)" and ?d = "deadlineFor t s"
  have "rx s' = rx s \<and> (b \<longrightarrow> length pl \<le> MAX_PAYLOAD \<and> tx s' = tx s @ ?h @ pl)
      \<and> (\<not> b \<longrightarrow> (\<exists>k. tx s' = tx s @ take k (?h @ pl) \<and> k < HEADER_SIZE + length pl))"
  proof (cases "length pl \<le> MAX_PAYLOAD")
    case False
    then show ?thesis
      using assms by (auto simp: sendFrame_def HEADER_SIZE_def intro!: exI[of _ 0])
  next
    case small: True
    obtain ok h' s1 where tr: "transfer_from True t ?d 0 ?h s = Some (ok, h', s1)"
      using assms small by (auto simp: sendFrame_def transfer_def Let_def split: Option.bind_splits)
    obtain k where k: "tx s1 = tx s @ take k ?h" "rx s1 = rx s" "k \<le> HEADER_SIZE"
      "ok \<longleftrightarrow> k = HEADER_SIZE"
      using transfer_write[OF tr] by auto
    show ?thesis
    proof (cases "ok \<and> pl \<noteq> []")
      case False
      then show ?thesis
        using assms small tr k
        by (auto simp: sendFrame_def transfer_def Let_def intro!: exI[of _ k])
    next
      case True
      then obtain ok2 p' s2 where tr2: "transfer_from True t ?d 0 pl s1 = Some (ok2, p', s2)"
        and res: "b = ok2" "s' = s2"
        using assms small tr
        by (auto simp: sendFrame_def transfer_def Let_def split: Option.bind_splits)
      obtain j where j: "tx s2 = tx s1 @ take j pl" "rx s2 = rx s1" "j \<le> length pl"
        "ok2 \<longleftrightarrow> j = length pl"
        using transfer_write[OF tr2] by auto
      show ?thesis
        using True k j res small by (auto intro!: exI[of _ "HEADER_SIZE + j"])
    qed
  qed
  then show "rx s' = rx s"
    and "b \<Longrightarrow> length pl \<le> MAX_PAYLOAD \<and> tx s' = tx s @ ?h @ pl"
    and "\<not> b \<Longrightarrow> \<exists>k. tx s' = tx s @ take k (?h @ pl) \<and> k < HEADER_SIZE + length pl"
    by blast+
qed

text \<open>Sent or not, what went out is the beginning of the frame's encoding.\<close>

lemma sendFrame_prefix:
  assumes "sendFrame ty pl t s = Some (b, s')"
  shows "rx s' = rx s" "\<exists>w. tx s' = tx s @ w \<and> prefix w (frame_wire \<lparr>ftype = ty, payload = pl\<rparr>)
    \<and> (b \<longrightarrow> w = frame_wire \<lparr>ftype = ty, payload = pl\<rparr>)"
proof -
  show "rx s' = rx s" by (rule sendFrame_cases(1)[OF assms])
  show "\<exists>w. tx s' = tx s @ w \<and> prefix w (frame_wire \<lparr>ftype = ty, payload = pl\<rparr>)
    \<and> (b \<longrightarrow> w = frame_wire \<lparr>ftype = ty, payload = pl\<rparr>)"
  proof (cases b)
    case True
    with sendFrame_cases(2)[OF assms] show ?thesis by (simp add: frame_wire_def)
  next
    case False
    with sendFrame_cases(3)[OF assms] obtain k
      where "tx s' = tx s @ take k (makeHeader ty (length pl) @ pl)" by blast
    with False show ?thesis
      by (intro exI[of _ "take k (makeHeader ty (length pl) @ pl)"])
        (simp add: frame_wire_def take_is_prefix del: take_append)
  qed
qed

lemma sendFrame_clock [clock_mono]: "sendFrame ty pl t s = Some (b, s') \<Longrightarrow> clock s \<le> clock s'"
  by (auto simp: sendFrame_def Let_def split: if_splits Option.bind_splits dest!: transfer_clock)

lemma receiveFrame_clock [clock_mono]: "receiveFrame t s = Some (r, s') \<Longrightarrow> clock s \<le> clock s'"
  by (auto simp: receiveFrame_def Let_def split: if_splits Option.bind_splits dest!: transfer_clock)

lemma receiveFrame_consumes:
  assumes "receiveFrame t s = Some (r, s')"
  shows "\<exists>got. rx s = got @ rx s' \<and> tx s' = tx s
           \<and> (\<forall>f. r = Some f \<longrightarrow> frame_ok f \<and> got = frame_wire f)"
proof -
  let ?d = "deadlineFor t s"
  obtain ok h s1 where tr: "transfer_from False t ?d 0 (replicate HEADER_SIZE 0) s = Some (ok, h, s1)"
    using assms by (auto simp: receiveFrame_def transfer_def Let_def split: Option.bind_splits)
  obtain g where g: "rx s = g @ rx s1" "tx s1 = tx s" "ok \<longrightarrow> h = g \<and> length g = HEADER_SIZE"
    using transfer_read[OF tr] by auto
  let ?size = "header_size_field h"
  show ?thesis
  proof (cases "ok \<and> take 4 h = MAGIC \<and> h ! 4 = VERSION \<and> unat ?size \<le> MAX_PAYLOAD")
    case False
    then show ?thesis
      using assms tr g by (auto simp: receiveFrame_def transfer_def Let_def split: if_splits)
  next
    case True
    with g have h: "h = makeHeader (h ! 5) (unat ?size)" by (intro header_canonical) auto
    show ?thesis
    proof (cases "?size = 0")
      case True
      then show ?thesis
        using assms tr g h \<open>ok \<and> _\<close>
        by (auto simp: receiveFrame_def transfer_def Let_def frame_wire_def frame_ok_def)
    next
      case nz: False
      obtain ok2 pl s2 where tr2:
        "transfer_from False t ?d 0 (replicate (unat ?size) 0) s1 = Some (ok2, pl, s2)"
        and res: "r = (if ok2 then Some \<lparr>ftype = h ! 5, payload = pl\<rparr> else None)" "s' = s2"
        using assms tr nz True
        by (auto simp: receiveFrame_def transfer_def Let_def split: Option.bind_splits)
      obtain q where q: "rx s1 = q @ rx s2" "tx s2 = tx s1" "ok2 \<longrightarrow> pl = q \<and> length q = unat ?size"
        using transfer_read[OF tr2] by auto
      show ?thesis
        using g q res h True
        by (intro exI[of _ "g @ q"]) (auto simp: frame_wire_def frame_ok_def)
    qed
  qed
qed

lemma receiveFrame_bounded:
  assumes "receiveFrame t s = Some (r, s')"
  shows "length (rx s) \<le> length (rx s') + HEADER_SIZE + MAX_PAYLOAD"
proof -
  let ?d = "deadlineFor t s"
  obtain ok h s1 where tr: "transfer_from False t ?d 0 (replicate HEADER_SIZE 0) s = Some (ok, h, s1)"
    using assms by (auto simp: receiveFrame_def transfer_def Let_def split: Option.bind_splits)
  have one: "length (rx s) \<le> length (rx s1) + HEADER_SIZE"
    using transfer_read[OF tr] by auto
  show ?thesis
  proof (cases "s1 = s'")
    case True
    with one show ?thesis by simp
  next
    case False
    then obtain ok2 pl where tr2:
      "transfer_from False t ?d 0 (replicate (unat (header_size_field h)) 0) s1 = Some (ok2, pl, s')"
      and small: "unat (header_size_field h) \<le> MAX_PAYLOAD"
      using assms tr
      by (auto simp: receiveFrame_def transfer_def Let_def split: if_splits Option.bind_splits)
    have "length (rx s1) \<le> length (rx s') + unat (header_size_field h)"
      using transfer_read[OF tr2] by auto
    with one small show ?thesis by simp
  qed
qed

text \<open>With a timeout, both always come back.\<close>

lemma sendFrame_returns:
  assumes "0 \<le> t"
  shows "\<exists>b s'. sendFrame ty pl t s = Some (b, s')"
proof -
  let ?d = "deadlineFor t s"
  obtain ok h s1 where "transfer (makeHeader ty (length pl)) True t ?d s = Some (ok, h, s1)"
    using transfer_returns[OF assms] by (metis prod_cases3)
  moreover obtain ok2 p s2 where "transfer pl True t ?d s1 = Some (ok2, p, s2)"
    using transfer_returns[OF assms] by (metis prod_cases3)
  ultimately show ?thesis by (auto simp: sendFrame_def Let_def)
qed

lemma receiveFrame_returns:
  assumes "0 \<le> t"
  shows "\<exists>r s'. receiveFrame t s = Some (r, s')"
proof -
  let ?d = "deadlineFor t s"
  obtain ok h s1 where "transfer (replicate HEADER_SIZE 0) False t ?d s = Some (ok, h, s1)"
    using transfer_returns[OF assms] by (metis prod_cases3)
  moreover obtain ok2 p s2
    where "transfer (replicate (unat (header_size_field h)) 0) False t ?d s1 = Some (ok2, p, s2)"
    using transfer_returns[OF assms] by (metis prod_cases3)
  ultimately show ?thesis by (simp add: receiveFrame_def Let_def)
qed

text \<open>On an undisturbed stream that starts with a frame, that frame is what is received.\<close>

lemma receiveFrame_smooth:
  assumes "0 < t" "smooth n s" "frame_ok f" "rx s = frame_wire f @ rest"
    and "HEADER_SIZE + length (payload f) \<le> n"
  shows "\<exists>s'. receiveFrame t s = Some (Some f, s') \<and> rx s' = rest \<and> tx s' = tx s
           \<and> smooth (n - (HEADER_SIZE + length (payload f))) s' \<and> clock s' = clock s"
proof -
  let ?d = "deadlineFor t s" and ?h = "makeHeader (ftype f) (length (payload f))"
  have d: "clock s < ?d" using assms(1) by (simp add: deadlineFor_def ns_per_ms_def)
  obtain h s1 where tr: "transfer_from False t ?d 0 (replicate HEADER_SIZE 0) s = Some (True, h, s1)"
    and s1: "smooth (n - HEADER_SIZE) s1" "clock s1 = clock s"
    using transfer_smooth_read[OF assms(2) d, of 0 "replicate HEADER_SIZE 0" t] assms
    by (auto simp: frame_wire_def)
  obtain g where "rx s = g @ rx s1" "tx s1 = tx s" "h = g" "length g = HEADER_SIZE"
    using transfer_read[OF tr] by auto
  with assms(4) have h: "h = ?h" and rx1: "rx s1 = payload f @ rest" and tx1: "tx s1 = tx s"
    by (auto simp: frame_wire_def append_eq_append_conv)
  have size: "unat (header_size_field h) = length (payload f)"
    using assms(3) by (simp add: h codec_simps frame_ok_def unat_of_small_nat)
  show ?thesis
  proof (cases "payload f = []")
    case True
    then have "header_size_field h = 0"
      using h by (simp add: codec_simps)
    with True show ?thesis
      using tr s1 h rx1 tx1 assms
      by (simp add: receiveFrame_def transfer_def Let_def codec_simps)
  next
    case False
    with size have nz: "header_size_field h \<noteq> 0" by (metis length_0_conv unat_0)
    have d1: "clock s1 < ?d" using d s1 by simp
    obtain pl s2 where tr2: "transfer_from False t ?d 0 (replicate (length (payload f)) 0) s1
        = Some (True, pl, s2)"
      and s2: "smooth (n - HEADER_SIZE - length (payload f)) s2" "clock s2 = clock s1"
      using transfer_smooth_read[OF s1(1) d1, of 0 "replicate (length (payload f)) 0" t]
        le_diff_conv2[of HEADER_SIZE n "length (payload f)"] assms rx1
      by (simp add: add.commute) blast
    obtain q where "rx s1 = q @ rx s2" "tx s2 = tx s1" "pl = q" "length q = length (payload f)"
      using transfer_read[OF tr2] by auto
    with rx1 have "pl = payload f" "rx s2 = rest" "tx s2 = tx s"
      using tx1 by (auto simp: append_eq_append_conv)
    with tr tr2 s1 s2 h nz size assms show ?thesis
      by (auto simp: receiveFrame_def transfer_def Let_def codec_simps frame_ok_def)
  qed
qed

lemma sendFrame_smooth:
  assumes "0 < t" "smooth n s" "length pl \<le> MAX_PAYLOAD" "HEADER_SIZE + length pl \<le> n"
  shows "\<exists>s'. sendFrame ty pl t s = Some (True, s')
           \<and> smooth (n - (HEADER_SIZE + length pl)) s' \<and> clock s' = clock s"
proof -
  let ?d = "deadlineFor t s" and ?h = "makeHeader ty (length pl)"
  have d: "clock s < ?d" using assms(1) by (simp add: deadlineFor_def ns_per_ms_def)
  obtain h s1 where tr: "transfer_from True t ?d 0 ?h s = Some (True, h, s1)"
    and s1: "smooth (n - HEADER_SIZE) s1" "clock s1 = clock s"
    using transfer_smooth_write[OF assms(2) d, of 0 ?h t] assms by auto
  have d1: "clock s1 < ?d" using d s1 by simp
  obtain p s2 where "transfer_from True t ?d 0 pl s1 = Some (True, p, s2)"
    and "smooth (n - HEADER_SIZE - length pl) s2" "clock s2 = clock s1"
    using transfer_smooth_write[OF s1(1) d1, of 0 pl t]
      le_diff_conv2[of HEADER_SIZE n "length pl"] assms
    by (simp add: add.commute) blast
  with tr s1 assms show ?thesis
    by (auto simp: sendFrame_def transfer_def Let_def)
qed

section \<open>Raw frames as a message stream\<close>

definition frame_step :: "sock \<Rightarrow> frame \<Rightarrow> sock \<Rightarrow> bool" where
  "frame_step s f s' \<longleftrightarrow> (\<exists>t. receiveFrame t s = Some (Some f, s'))"

interpretation raw: message_stream "\<lambda>_. True" frame_step rx "\<lambda>_. ()" "\<lambda>_. ()" "\<lambda>_. frame_wire"
  frame_ok
proof unfold_locales
  show "frame_ok f \<Longrightarrow> frame_ok g \<Longrightarrow> frame_wire f @ r = frame_wire g @ r' \<Longrightarrow> f = g \<and> r = r'"
    for f g r r' by (rule frame_wire_prefix_free)
qed (auto simp: frame_step_def dest!: receiveFrame_consumes)

section \<open>Properties\<close>

text \<open>
  A frame that was sent arrives. Whatever bytes a successful \<open>sendFrame\<close> put on the
  connection, however they were split, \<open>receiveFrame\<close> reads them back as the frame that was
  sent, on any undisturbed stream they are the beginning of, and leaves the rest unread.
\<close>

theorem frame_round_trip:
  assumes "sendFrame ty pl t s = Some (True, s')" "tx s' = tx s @ w"
    and "rx q = w @ rest" "0 < t'" "smooth (length w) q"
  shows "\<exists>q'. receiveFrame t' q = Some (Some \<lparr>ftype = ty, payload = pl\<rparr>, q')
           \<and> rx q' = rest \<and> tx q' = tx q"
proof -
  let ?f = "\<lparr>ftype = ty, payload = pl\<rparr>"
  have w: "w = frame_wire ?f" and ok: "frame_ok ?f"
    using sendFrame_cases(2)[OF assms(1)] assms(2) by (simp_all add: frame_wire_def frame_ok_def)
  then have "length w = HEADER_SIZE + length pl" by (simp add: frame_wire_def)
  with receiveFrame_smooth[OF assms(4,5) ok] assms(3) w show ?thesis by auto
qed

lemma frame_round_trip_witness:
  "\<exists>s' q'. sendFrame ACTIVATION [7, 8] 100 (quiet 20 []) = Some (True, s')
     \<and> receiveFrame 100 (quiet 20 (tx s' @ [9])) = Some (Some \<lparr>ftype = ACTIVATION, payload = [7, 8]\<rparr>, q')
     \<and> rx q' = [9]"
proof -
  obtain s' where s': "sendFrame ACTIVATION [7, 8] 100 (quiet 20 []) = Some (True, s')"
    using sendFrame_smooth[of 100 20 "quiet 20 []" "[7, 8]" ACTIVATION]
    by (auto simp: MAX_PAYLOAD_def HEADER_SIZE_def)
  moreover have "length (tx s') \<le> 20"
    using sendFrame_cases(2)[OF s'] by (simp add: HEADER_SIZE_def)
  ultimately show ?thesis
    using frame_round_trip[OF s', of "tx s'" "quiet 20 (tx s' @ [9])" "[9]" 100] by auto
qed

text \<open>
  \<open>receiveFrame\<close> under any scheduling, any errors and any peer: it consumes a prefix of
  the stream of at most a header and 65536 bytes and sends nothing, and when it returns a
  frame, what it consumed is exactly the encoding of that frame: magic \<open>OCAM\<close>, version 2,
  the type byte, the big-endian length, the payload.
\<close>

theorem receiveFrame_safe:
  assumes "receiveFrame t s = Some (r, s')"
  shows "\<exists>got. rx s = got @ rx s' \<and> tx s' = tx s \<and> length got \<le> HEADER_SIZE + MAX_PAYLOAD
           \<and> (\<forall>f. r = Some f \<longrightarrow> length (payload f) \<le> MAX_PAYLOAD
                \<and> got = string_bytes ''OCAM'' @ [2, ftype f]
                    @ be_bytes 4 (word_of_nat (length (payload f)) :: 32 word) @ payload f)"
proof -
  obtain got where got: "rx s = got @ rx s'" "tx s' = tx s"
    "\<forall>f. r = Some f \<longrightarrow> frame_ok f \<and> got = frame_wire f"
    using receiveFrame_consumes[OF assms] by blast
  then show ?thesis
    using receiveFrame_bounded[OF assms]
    by (intro exI[of _ got]) (auto simp: frame_ok_def frame_wire_def makeHeader_alt MAGIC_def VERSION_def)
qed

lemma receiveFrame_safe_witness:
  "\<exists>q'. receiveFrame 100 (quiet 20 (frame_wire \<lparr>ftype = 5, payload = [7]\<rparr> @ [9]))
       = Some (Some \<lparr>ftype = 5, payload = [7]\<rparr>, q')
     \<and> (\<exists>got. frame_wire \<lparr>ftype = 5, payload = [7]\<rparr> @ [9] = got @ rx q'
          \<and> length got \<le> HEADER_SIZE + MAX_PAYLOAD)"
proof -
  let ?f = "\<lparr>ftype = 5, payload = [7]\<rparr>"
  obtain q' where q': "receiveFrame 100 (quiet 20 (frame_wire ?f @ [9])) = Some (Some ?f, q')"
    using receiveFrame_smooth[of 100 20 "quiet 20 (frame_wire ?f @ [9])" ?f "[9]"]
    by (auto simp: frame_ok_def MAX_PAYLOAD_def HEADER_SIZE_def)
  then show ?thesis using receiveFrame_safe[OF q'] by auto
qed

end
