(* ===== verification/Hex_Codec.thy ===== *)
theory Hex_Codec
  imports OC_Prelude
begin

text \<open>
  \<open>encodeHex\<close> and \<open>decodeHex\<close> of \<open>linux/src/control_protocol.cpp\<close>. \<open>decodeHex\<close> fills the
  caller's output buffer byte by byte, so its model returns the buffer beside the verdict.
\<close>

definition hex_digits :: string where "hex_digits = ''0123456789abcdef''"

fun encodeHex :: "bytes \<Rightarrow> string" where
  "encodeHex [] = []"
| "encodeHex (b # bs) =
     hex_digits ! unat (drop_bit 4 b) # hex_digits ! unat (b AND 15) # encodeHex bs"

definition nibble :: "char \<Rightarrow> int" where
  "nibble c =
     (if CHR ''0'' \<le> c \<and> c \<le> CHR ''9'' then int (of_char c) - int (of_char (CHR ''0''))
      else if CHR ''a'' \<le> c \<and> c \<le> CHR ''f'' then int (of_char c) - int (of_char (CHR ''a'')) + 10
      else if CHR ''A'' \<le> c \<and> c \<le> CHR ''F'' then int (of_char c) - int (of_char (CHR ''A'')) + 10
      else - 1)"

text \<open>The loop at index \<open>i\<close>, with \<open>k\<close> rounds to go.\<close>

fun decode_pairs :: "nat \<Rightarrow> nat \<Rightarrow> string \<Rightarrow> bytes \<Rightarrow> bool \<times> bytes" where
  "decode_pairs 0 i text out = (True, out)"
| "decode_pairs (Suc k) i text out =
     (let high = nibble (text ! (i * 2)); low = nibble (text ! (i * 2 + 1))
      in if high < 0 \<or> low < 0 then (False, out)
         else decode_pairs k (Suc i) text (out[i := word_of_int (push_bit 4 high OR low)]))"

definition decodeHex :: "string \<Rightarrow> bytes \<Rightarrow> nat \<Rightarrow> bool \<times> bytes" where
  "decodeHex text out n =
     (if length text \<noteq> n * 2 then (False, out) else decode_pairs n 0 text out)"

definition is_lower_hex :: "char \<Rightarrow> bool" where
  "is_lower_hex c \<longleftrightarrow> (CHR ''0'' \<le> c \<and> c \<le> CHR ''9'') \<or> (CHR ''a'' \<le> c \<and> c \<le> CHR ''f'')"

lemma length_encodeHex [simp, codec_simps]: "length (encodeHex bs) = 2 * length bs"
  by (induction bs) auto

lemma nibble_hex_digit: "n < 16 \<Longrightarrow> nibble (hex_digits ! n) = int n"
proof -
  have "\<forall>n \<in> set [0..<16]. nibble (hex_digits ! n) = int n" by code_simp
  then show "n < 16 \<Longrightarrow> nibble (hex_digits ! n) = int n" by simp
qed

lemma hex_digit_lower: "n < 16 \<Longrightarrow> is_lower_hex (hex_digits ! n)"
proof -
  have "\<forall>n \<in> set [0..<16]. is_lower_hex (hex_digits ! n)" by code_simp
  then show "n < 16 \<Longrightarrow> is_lower_hex (hex_digits ! n)" by simp
qed

lemma unat_high_nibble: "unat (drop_bit 4 (b :: byte)) = unat b div 16"
  by (simp only: unat_drop_bit_eq) (simp add: drop_bit_eq_div)

lemma unat_low_nibble: "unat ((b :: byte) AND 15) = unat b mod 16"
proof -
  have eq: "(15 :: byte) = mask 4" by (simp add: mask_eq_exp_minus_1)
  have "unat (b AND 15) = take_bit 4 (unat b)"
    unfolding eq by (simp only: take_bit_eq_mask [symmetric] unsigned_take_bit_eq)
  then show ?thesis by (simp add: take_bit_eq_mod)
qed

lemma nibble_bounds: "nibble c < 16"
  by (auto simp: nibble_def less_eq_char_def)

lemma join_nibbles:
  assumes "0 \<le> h" "0 \<le> l" "l < 16"
  shows "(word_of_int (push_bit 4 h OR l) :: byte) = word_of_int (h * 16 + l)"
proof -
  have l: "take_bit 4 l = l" using assms by (simp add: take_bit_int_eq_self_iff)
  have "push_bit 4 h AND l = 0"
  proof (rule bit_eqI)
    fix n
    have "bit l n \<Longrightarrow> n < 4" using l by (metis bit_take_bit_iff)
    then show "bit (push_bit 4 h AND l) n \<longleftrightarrow> bit (0 :: int) n" by (auto simp: bit_simps)
  qed
  then show ?thesis by (simp add: disjunctive_add_eq_or [symmetric] push_bit_eq_mult)
qed

lemma decode_pairs_encode:
  assumes "length out = length pre + length bs" "take (length pre) out = pre"
    and "\<And>j. j < length bs \<Longrightarrow> text ! ((length pre + j) * 2) = encodeHex bs ! (2 * j)
           \<and> text ! ((length pre + j) * 2 + 1) = encodeHex bs ! (2 * j + 1)"
  shows "decode_pairs (length bs) (length pre) text out = (True, pre @ bs)"
  using assms
proof (induction bs arbitrary: pre out)
  case Nil
  then show ?case by simp
next
  case (Cons b bs)
  let ?i = "length pre"
  have hi: "text ! (?i * 2) = hex_digits ! unat (drop_bit 4 b)"
    and lo: "text ! (?i * 2 + 1) = hex_digits ! unat (b AND 15)"
    using Cons.prems(3)[of 0] by simp_all
  have n: "nibble (text ! (?i * 2)) = int (unat b div 16)"
    "nibble (text ! (?i * 2 + 1)) = int (unat b mod 16)"
    unfolding hi lo by (simp_all add: unat_high_nibble unat_low_nibble nibble_hex_digit less_mult_imp_div_less)
  have byte: "word_of_int (push_bit 4 (int (unat b div 16)) OR int (unat b mod 16)) = b"
  proof -
    have "int (unat b div 16) * 16 + int (unat b mod 16) = int (unat b)"
      by (metis div_mult_mod_eq of_nat_add of_nat_mult of_nat_numeral)
    then show ?thesis by (simp add: join_nibbles del: of_nat_add of_nat_mult)
  qed
  let ?out = "out[?i := b]"
  have out: "take (length (pre @ [b])) ?out = pre @ [b]"
    using Cons.prems(1,2) by (simp add: take_Suc_conv_app_nth)
  have "decode_pairs (length bs) (length (pre @ [b])) text ?out = (True, (pre @ [b]) @ bs)"
  proof (rule Cons.IH[OF _ out])
    show "length ?out = length (pre @ [b]) + length bs" using Cons.prems by simp
    fix j assume "j < length bs"
    then show "text ! ((length (pre @ [b]) + j) * 2) = encodeHex bs ! (2 * j) \<and>
        text ! ((length (pre @ [b]) + j) * 2 + 1) = encodeHex bs ! (2 * j + 1)"
      using Cons.prems(3)[of "Suc j"] by simp
  qed
  then show ?case using n byte by (simp add: Let_def)
qed

lemma decodeHex_encodeHex:
  "length out = length bs \<Longrightarrow> decodeHex (encodeHex bs) out (length bs) = (True, bs)"
  using decode_pairs_encode[of out "[]" bs "encodeHex bs"]
  by (simp add: decodeHex_def mult.commute)

lemma encodeHex_lower: "list_all is_lower_hex (encodeHex bs)"
  by (induction bs)
    (auto simp: unat_high_nibble unat_low_nibble less_mult_imp_div_less intro!: hex_digit_lower)

end
