(* ===== verification/Openssl_Crypto.thy ===== *)
theory Openssl_Crypto
  imports Hex_Codec
begin

text \<open>
  The wrappers \<open>linux/src/control_protocol.cpp\<close> puts around OpenSSL. The library itself is
  a parameter: a record of the calls the code makes, each on an abstract context, with
  \<open>None\<close> for a null pointer or a result \<open>\<le> 0\<close>. The wrappers are the code's call sequences
  over that record, early exits included. What the code relies on of AES-256-GCM is the
  predicate \<open>gcm_lawful\<close>: ciphertext is the plaintext under an involutive key stream, and
  decryption finishes only when the tag set is the tag of what was decrypted.

  \<open>OPENSSL_cleanse\<close> erases memory that is not read again; it has no counterpart here.
\<close>

section \<open>The interface to OpenSSL\<close>

definition KEY_SIZE :: nat where "KEY_SIZE = 32"
definition NONCE_SIZE :: nat where "NONCE_SIZE = 32"
definition GCM_NONCE_SIZE :: nat where "GCM_NONCE_SIZE = 12"
definition GCM_TAG_SIZE :: nat where "GCM_TAG_SIZE = 16"

datatype hkdf_mode = EXTRACT_AND_EXPAND | EXPAND_ONLY

record ('c, 'p) openssl =
  hmac_sha256 :: "bytes \<Rightarrow> bytes \<Rightarrow> bytes option"
  crypto_memcmp :: "bytes \<Rightarrow> bytes \<Rightarrow> nat \<Rightarrow> int"
  pkey_ctx_new_hkdf :: "'p option"
  derive_init :: "'p \<Rightarrow> 'p option"
  set_hkdf_mode :: "hkdf_mode \<Rightarrow> 'p \<Rightarrow> 'p option"
  set_hkdf_md_sha256 :: "'p \<Rightarrow> 'p option"
  set1_hkdf_salt :: "bytes \<Rightarrow> 'p \<Rightarrow> 'p option"
  set1_hkdf_key :: "bytes \<Rightarrow> 'p \<Rightarrow> 'p option"
  add1_hkdf_info :: "bytes \<Rightarrow> 'p \<Rightarrow> 'p option"
  derive :: "nat \<Rightarrow> 'p \<Rightarrow> bytes option"
  cipher_ctx_new :: "'c option"
  encrypt_init_aes256gcm :: "'c \<Rightarrow> 'c option"
  encrypt_init_key :: "bytes \<Rightarrow> bytes \<Rightarrow> 'c \<Rightarrow> 'c option"
  encrypt_aad :: "bytes \<Rightarrow> 'c \<Rightarrow> 'c option"
  encrypt_update :: "bytes \<Rightarrow> 'c \<Rightarrow> (bytes \<times> 'c) option"
  encrypt_final :: "'c \<Rightarrow> (bytes \<times> 'c) option"
  decrypt_init_aes256gcm :: "'c \<Rightarrow> 'c option"
  decrypt_init_key :: "bytes \<Rightarrow> bytes \<Rightarrow> 'c \<Rightarrow> 'c option"
  decrypt_aad :: "bytes \<Rightarrow> 'c \<Rightarrow> 'c option"
  decrypt_update :: "bytes \<Rightarrow> 'c \<Rightarrow> (bytes \<times> 'c) option"
  decrypt_final :: "'c \<Rightarrow> (bytes \<times> 'c) option"
  set_ivlen :: "nat \<Rightarrow> 'c \<Rightarrow> 'c option"
  get_tag :: "nat \<Rightarrow> 'c \<Rightarrow> bytes option"
  set_tag :: "bytes \<Rightarrow> 'c \<Rightarrow> 'c option"

section \<open>HMAC, HKDF and comparison\<close>

definition hmac :: "('c, 'p) openssl \<Rightarrow> bytes \<Rightarrow> bytes \<Rightarrow> bytes option" where
  "hmac E key input =
     do {
       out \<leftarrow> hmac_sha256 E key input;
       if length out = 32 then Some out else None
     }"

definition hkdfExpand :: "('c, 'p) openssl \<Rightarrow> bytes \<Rightarrow> string \<Rightarrow> bytes option" where
  "hkdfExpand E prk info =
     do {
       ctx \<leftarrow> pkey_ctx_new_hkdf E;
       ctx \<leftarrow> derive_init E ctx;
       ctx \<leftarrow> set_hkdf_mode E EXPAND_ONLY ctx;
       ctx \<leftarrow> set_hkdf_md_sha256 E ctx;
       ctx \<leftarrow> set1_hkdf_key E prk ctx;
       ctx \<leftarrow> add1_hkdf_info E (string_bytes info) ctx;
       out \<leftarrow> derive E KEY_SIZE ctx;
       if length out \<noteq> KEY_SIZE then None else Some out
     }"

definition hkdfExtractAndExpand ::
  "('c, 'p) openssl \<Rightarrow> bytes \<Rightarrow> bytes \<Rightarrow> bytes \<Rightarrow> string \<Rightarrow> bytes option" where
  "hkdfExtractAndExpand E secret serverNonce clientNonce info =
     (let salt = serverNonce @ clientNonce
      in do {
        ctx \<leftarrow> pkey_ctx_new_hkdf E;
        ctx \<leftarrow> derive_init E ctx;
        ctx \<leftarrow> set_hkdf_mode E EXTRACT_AND_EXPAND ctx;
        ctx \<leftarrow> set_hkdf_md_sha256 E ctx;
        ctx \<leftarrow> set1_hkdf_salt E salt ctx;
        ctx \<leftarrow> set1_hkdf_key E secret ctx;
        ctx \<leftarrow> add1_hkdf_info E (string_bytes info) ctx;
        out \<leftarrow> derive E KEY_SIZE ctx;
        if length out \<noteq> KEY_SIZE then None else Some out
      })"

definition SESSION_KDF_INFO :: string where
  "SESSION_KDF_INFO = ''OpenCam control v2 session''"
definition SERVER_TO_CLIENT_KDF_INFO :: string where
  "SERVER_TO_CLIENT_KDF_INFO = ''OpenCam control v2 server-to-client''"
definition CLIENT_TO_SERVER_KDF_INFO :: string where
  "CLIENT_TO_SERVER_KDF_INFO = ''OpenCam control v2 client-to-server''"
definition MEDIA_CREDENTIAL_DOMAIN :: string where
  "MEDIA_CREDENTIAL_DOMAIN = ''OpenCam RTSP credential v2''"

definition deriveSessionKey ::
  "('c, 'p) openssl \<Rightarrow> bytes \<Rightarrow> bytes \<Rightarrow> bytes \<Rightarrow> bytes option" where
  "deriveSessionKey E secret serverNonce clientNonce =
     hkdfExtractAndExpand E secret serverNonce clientNonce SESSION_KDF_INFO"

definition deriveMediaPassword :: "('c, 'p) openssl \<Rightarrow> bytes \<Rightarrow> string" where
  "deriveMediaPassword E sessionKey =
     (case hmac E sessionKey (string_bytes MEDIA_CREDENTIAL_DOMAIN) of
        None \<Rightarrow> []
      | Some credential \<Rightarrow> encodeHex credential)"

definition makeProof ::
  "('c, 'p) openssl \<Rightarrow> bytes \<Rightarrow> string \<Rightarrow> bytes \<Rightarrow> bytes \<Rightarrow> bytes option" where
  "makeProof E secret domain serverNonce clientNonce =
     hmac E secret (string_bytes domain @ serverNonce @ clientNonce)"

definition constantTimeEqual :: "('c, 'p) openssl \<Rightarrow> bytes \<Rightarrow> bytes \<Rightarrow> nat \<Rightarrow> bool" where
  "constantTimeEqual E left right n \<longleftrightarrow> crypto_memcmp E left right n = 0"

text \<open>\<open>CRYPTO_memcmp\<close> is 0 exactly when the first \<open>n\<close> bytes agree.\<close>

definition memcmp_lawful :: "('c, 'p) openssl \<Rightarrow> bool" where
  "memcmp_lawful E \<longleftrightarrow> (\<forall>l r n. crypto_memcmp E l r n = 0 \<longleftrightarrow> take n l = take n r)"

section \<open>AES-256-GCM\<close>

text \<open>The part of each routine before any data is processed.\<close>

definition encrypt_setup :: "('c, 'p) openssl \<Rightarrow> bytes \<Rightarrow> bytes \<Rightarrow> bytes \<Rightarrow> 'c option" where
  "encrypt_setup E key nonce aad =
     do {
       ctx \<leftarrow> cipher_ctx_new E;
       ctx \<leftarrow> encrypt_init_aes256gcm E ctx;
       ctx \<leftarrow> set_ivlen E GCM_NONCE_SIZE ctx;
       ctx \<leftarrow> encrypt_init_key E key nonce ctx;
       encrypt_aad E aad ctx
     }"

definition decrypt_setup :: "('c, 'p) openssl \<Rightarrow> bytes \<Rightarrow> bytes \<Rightarrow> bytes \<Rightarrow> 'c option" where
  "decrypt_setup E key nonce aad =
     do {
       ctx \<leftarrow> cipher_ctx_new E;
       ctx \<leftarrow> decrypt_init_aes256gcm E ctx;
       ctx \<leftarrow> set_ivlen E GCM_NONCE_SIZE ctx;
       ctx \<leftarrow> decrypt_init_key E key nonce ctx;
       decrypt_aad E aad ctx
     }"

text \<open>The update call, skipped for empty data.\<close>

definition encrypt_data :: "('c, 'p) openssl \<Rightarrow> bytes \<Rightarrow> 'c \<Rightarrow> (bytes \<times> 'c) option" where
  "encrypt_data E plaintext ctx =
     (if plaintext \<noteq> [] then encrypt_update E plaintext ctx else Some ([], ctx))"

definition decrypt_data :: "('c, 'p) openssl \<Rightarrow> bytes \<Rightarrow> 'c \<Rightarrow> (bytes \<times> 'c) option" where
  "decrypt_data E ciphertext ctx =
     (if ciphertext \<noteq> [] then decrypt_update E ciphertext ctx else Some ([], ctx))"

definition encryptGcm ::
  "('c, 'p) openssl \<Rightarrow> bytes \<Rightarrow> bytes \<Rightarrow> bytes \<Rightarrow> bytes \<Rightarrow> bytes option" where
  "encryptGcm E key nonce aad plaintext =
     do {
       ctx \<leftarrow> encrypt_setup E key nonce aad;
       let buf = replicate (length plaintext + GCM_TAG_SIZE) 0;
       (out, ctx) \<leftarrow> encrypt_data E plaintext ctx;
       let buf = write_at 0 out buf;
       let ciphertextSize = length out;
       (fin, ctx) \<leftarrow> encrypt_final E ctx;
       let buf = write_at ciphertextSize fin buf;
       let ciphertextSize = ciphertextSize + length fin;
       tag \<leftarrow> get_tag E GCM_TAG_SIZE ctx;
       let buf = write_at ciphertextSize tag buf;
       Some (take (ciphertextSize + GCM_TAG_SIZE) buf)
     }"

definition decryptGcm ::
  "('c, 'p) openssl \<Rightarrow> bytes \<Rightarrow> bytes \<Rightarrow> bytes \<Rightarrow> bytes \<Rightarrow> bytes \<Rightarrow> bytes option" where
  "decryptGcm E key nonce aad ciphertext tag =
     do {
       ctx \<leftarrow> decrypt_setup E key nonce aad;
       let buf = replicate (length ciphertext) 0;
       (out, ctx) \<leftarrow> decrypt_data E ciphertext ctx;
       let buf = write_at 0 out buf;
       let plaintextSize = length out;
       ctx \<leftarrow> set_tag E tag ctx;
       (fin, ctx) \<leftarrow> decrypt_final E ctx;
       let buf = write_at plaintextSize fin buf;
       Some (take (plaintextSize + length fin) buf)
     }"

section \<open>What is relied on of AES-256-GCM\<close>

text \<open>
  \<open>gctr k n\<close> is the key stream of key \<open>k\<close> and nonce \<open>n\<close> added to the data (NIST SP 800-38D,
  GCTR), \<open>gtag k n a x\<close> the tag of additional data \<open>a\<close> and ciphertext \<open>x\<close>. The library may
  fail any call; where a sequence of calls succeeds it computes these functions, and a
  decryption that finishes had the right tag.
\<close>

definition gcm_lawful ::
  "('c, 'p) openssl \<Rightarrow> (bytes \<Rightarrow> bytes \<Rightarrow> bytes \<Rightarrow> bytes)
     \<Rightarrow> (bytes \<Rightarrow> bytes \<Rightarrow> bytes \<Rightarrow> bytes \<Rightarrow> bytes) \<Rightarrow> bool" where
  "gcm_lawful E gctr gtag \<longleftrightarrow>
     (\<forall>k n x. length (gctr k n x) = length x \<and> gctr k n (gctr k n x) = x)
   \<and> (\<forall>k n a x. length (gtag k n a x) = GCM_TAG_SIZE)
   \<and> (\<forall>k n a c x y c1 z c2 t.
        encrypt_setup E k n a = Some c \<longrightarrow> encrypt_data E x c = Some (y, c1) \<longrightarrow>
        encrypt_final E c1 = Some (z, c2) \<longrightarrow> get_tag E GCM_TAG_SIZE c2 = Some t \<longrightarrow>
        y = gctr k n x \<and> z = [] \<and> t = gtag k n a y)
   \<and> (\<forall>k n a c x y c1 t c2 z c3.
        decrypt_setup E k n a = Some c \<longrightarrow> decrypt_data E x c = Some (y, c1) \<longrightarrow>
        set_tag E t c1 = Some c2 \<longrightarrow> decrypt_final E c2 = Some (z, c3) \<longrightarrow>
        y = gctr k n x \<and> z = [] \<and> t = gtag k n a x)"

lemma gcm_lawfulD:
  assumes "gcm_lawful E gctr gtag"
  shows "length (gctr k n x) = length x" and "gctr k n (gctr k n x) = x"
    and "length (gtag k n a x) = GCM_TAG_SIZE"
    and "encrypt_setup E k n a = Some c \<Longrightarrow> encrypt_data E x c = Some (y, c1) \<Longrightarrow>
      encrypt_final E c1 = Some (z, c2) \<Longrightarrow> get_tag E GCM_TAG_SIZE c2 = Some t \<Longrightarrow>
      y = gctr k n x \<and> z = [] \<and> t = gtag k n a y"
    and "decrypt_setup E k n a = Some d \<Longrightarrow> decrypt_data E x d = Some (y, d1) \<Longrightarrow>
      set_tag E t d1 = Some d2 \<Longrightarrow> decrypt_final E d2 = Some (z, d3) \<Longrightarrow>
      y = gctr k n x \<and> z = [] \<and> t = gtag k n a x"
proof -
  note law = assms[unfolded gcm_lawful_def]
  note enc = law[THEN conjunct2, THEN conjunct2, THEN conjunct1, rule_format]
  note dec = law[THEN conjunct2, THEN conjunct2, THEN conjunct2, rule_format]
  show "length (gctr k n x) = length x" and "gctr k n (gctr k n x) = x"
    and "length (gtag k n a x) = GCM_TAG_SIZE"
    using law by simp_all
  show "encrypt_setup E k n a = Some c \<Longrightarrow> encrypt_data E x c = Some (y, c1) \<Longrightarrow>
      encrypt_final E c1 = Some (z, c2) \<Longrightarrow> get_tag E GCM_TAG_SIZE c2 = Some t \<Longrightarrow>
      y = gctr k n x \<and> z = [] \<and> t = gtag k n a y"
    by (rule enc)
  show "decrypt_setup E k n a = Some d \<Longrightarrow> decrypt_data E x d = Some (y, d1) \<Longrightarrow>
      set_tag E t d1 = Some d2 \<Longrightarrow> decrypt_final E d2 = Some (z, d3) \<Longrightarrow>
      y = gctr k n x \<and> z = [] \<and> t = gtag k n a x"
    by (rule dec)
qed

text \<open>The library is available: no call fails, save a decryption with a wrong tag.\<close>

definition gcm_available :: "('c, 'p) openssl \<Rightarrow> (bytes \<Rightarrow> bytes \<Rightarrow> bytes \<Rightarrow> bytes \<Rightarrow> bytes) \<Rightarrow> bool" where
  "gcm_available E gtag \<longleftrightarrow>
     (\<forall>k n a x. \<exists>c y c1 z c2 t.
        encrypt_setup E k n a = Some c \<and> encrypt_data E x c = Some (y, c1) \<and>
        encrypt_final E c1 = Some (z, c2) \<and> get_tag E GCM_TAG_SIZE c2 = Some t)
   \<and> (\<forall>k n a x. \<exists>c y c1 c2 z c3.
        decrypt_setup E k n a = Some c \<and> decrypt_data E x c = Some (y, c1) \<and>
        set_tag E (gtag k n a x) c1 = Some c2 \<and> decrypt_final E c2 = Some (z, c3))"

text \<open>The buffer arithmetic of the wrappers never leaves the buffer.\<close>

lemma fill_then_tag:
  assumes "length out = n" "length tag = m"
  shows "take (n + m) (write_at n tag (write_at n [] (write_at 0 out (replicate (n + m) 0))))
           = out @ tag"
  using assms by (simp add: write_at_def)

lemma encryptGcm_lawful:
  assumes "gcm_lawful E gctr gtag" "encryptGcm E k n a p = Some c"
  shows "c = gctr k n p @ gtag k n a (gctr k n p)"
proof -
  obtain x y x1 z x2 t where steps: "encrypt_setup E k n a = Some x" "encrypt_data E p x = Some (y, x1)"
    "encrypt_final E x1 = Some (z, x2)" "get_tag E GCM_TAG_SIZE x2 = Some t"
    using assms(2) by (auto simp: encryptGcm_def Let_def split: Option.bind_splits)
  then have r: "y = gctr k n p" "z = []" "t = gtag k n a y"
    using gcm_lawfulD(4)[OF assms(1)] by blast+
  then have "length y = length p" "length t = GCM_TAG_SIZE"
    using gcm_lawfulD(1,3)[OF assms(1)] by simp_all
  with r steps assms(2) show ?thesis
    using fill_then_tag[of y "length p" t GCM_TAG_SIZE] by (simp add: encryptGcm_def Let_def)
qed

lemma decryptGcm_lawful:
  assumes "gcm_lawful E gctr gtag" "decryptGcm E k n a x t = Some p"
  shows "p = gctr k n x" and "t = gtag k n a x"
proof -
  obtain c y c1 c2 z c3 where steps: "decrypt_setup E k n a = Some c" "decrypt_data E x c = Some (y, c1)"
    "set_tag E t c1 = Some c2" "decrypt_final E c2 = Some (z, c3)"
    using assms(2) by (auto simp: decryptGcm_def Let_def split: Option.bind_splits)
  then have r: "y = gctr k n x" "z = []" and t: "t = gtag k n a x"
    using gcm_lawfulD(5)[OF assms(1)] by blast+
  then have "length y = length x" using gcm_lawfulD(1)[OF assms(1)] by simp
  with r steps assms(2) show "p = gctr k n x" by (simp add: decryptGcm_def Let_def write_at_def)
  show "t = gtag k n a x" by (rule t)
qed

lemma encryptGcm_available:
  assumes "gcm_available E gtag"
  shows "\<exists>c. encryptGcm E k n a p = Some c"
proof -
  obtain c y c1 z c2 t where "encrypt_setup E k n a = Some c" "encrypt_data E p c = Some (y, c1)"
    "encrypt_final E c1 = Some (z, c2)" "get_tag E GCM_TAG_SIZE c2 = Some t"
    using assms[unfolded gcm_available_def, THEN conjunct1, rule_format, of k n a p] by auto
  then show ?thesis by (simp add: encryptGcm_def Let_def)
qed

lemma decryptGcm_available:
  assumes "gcm_available E gtag"
  shows "\<exists>p. decryptGcm E k n a x (gtag k n a x) = Some p"
proof -
  obtain c y c1 c2 z c3 where "decrypt_setup E k n a = Some c" "decrypt_data E x c = Some (y, c1)"
    "set_tag E (gtag k n a x) c1 = Some c2" "decrypt_final E c2 = Some (z, c3)"
    using assms[unfolded gcm_available_def, THEN conjunct2, rule_format, of k n a x] by auto
  then show ?thesis by (simp add: decryptGcm_def Let_def)
qed

section \<open>Sealed messages\<close>

text \<open>
  The contract the secure channel uses: a sealed message opens to what was sealed, and a
  message that opens is the sealed form of what it opens to, under the same key, nonce and
  additional data. So with a given (key, nonce, additional data) an altered message never
  opens to the original content.
\<close>

locale sealing =
  fixes lawful :: "'e \<Rightarrow> bool"
    and seal :: "'e \<Rightarrow> bytes \<Rightarrow> bytes \<Rightarrow> bytes \<Rightarrow> bytes \<Rightarrow> bytes option"
    and unseal :: "'e \<Rightarrow> bytes \<Rightarrow> bytes \<Rightarrow> bytes \<Rightarrow> bytes \<Rightarrow> bytes option"
    and sealed :: "'e \<Rightarrow> bytes \<Rightarrow> bytes \<Rightarrow> bytes \<Rightarrow> bytes \<Rightarrow> bytes"
    and overhead :: nat
  assumes seal_sealed: "lawful e \<Longrightarrow> seal e k n a p = Some c \<Longrightarrow> c = sealed e k n a p"
    and unseal_sealed: "lawful e \<Longrightarrow> overhead \<le> length c \<Longrightarrow> unseal e k n a c = Some p \<Longrightarrow>
          c = sealed e k n a p"
    and sealed_inject: "lawful e \<Longrightarrow> sealed e k n a p = sealed e k n a q \<Longrightarrow> p = q"
    and length_sealed: "lawful e \<Longrightarrow> length (sealed e k n a p) = length p + overhead"
begin

lemma unseal_seal:
  assumes "lawful e" "seal e k n a p = Some c" "unseal e k n a c = Some q"
  shows "q = p"
proof -
  have c: "c = sealed e k n a p" using assms(1,2) by (rule seal_sealed)
  then have "overhead \<le> length c" using assms(1) by (simp add: length_sealed)
  with assms(1,3) have "c = sealed e k n a q" by (intro unseal_sealed)
  with c assms(1) show ?thesis by (metis sealed_inject)
qed

lemma tampered_not_original:
  assumes "lawful e" "seal e k n a p = Some c" "c' \<noteq> c" "overhead \<le> length c'"
  shows "unseal e k n a c' \<noteq> Some p"
  using assms by (metis seal_sealed unseal_sealed)

lemma length_seal: "lawful e \<Longrightarrow> seal e k n a p = Some c \<Longrightarrow> length c = length p + overhead"
  by (metis seal_sealed length_sealed)

end

text \<open>
  Opening takes the ciphertext and tag of a message apart the way
  \<open>AuthenticatedChannel::receive\<close> does: all but the last sixteen bytes, then those.
\<close>

definition openGcm :: "('c, 'p) openssl \<Rightarrow> bytes \<Rightarrow> bytes \<Rightarrow> bytes \<Rightarrow> bytes \<Rightarrow> bytes option" where
  "openGcm E key nonce aad c =
     (let n = length c - GCM_TAG_SIZE
      in decryptGcm E key nonce aad (take n c) (drop n c))"

type_synonym ('c, 'p) gcm =
  "('c, 'p) openssl \<times> (bytes \<Rightarrow> bytes \<Rightarrow> bytes \<Rightarrow> bytes)
     \<times> (bytes \<Rightarrow> bytes \<Rightarrow> bytes \<Rightarrow> bytes \<Rightarrow> bytes)"

definition gcm_ok :: "('c, 'p) gcm \<Rightarrow> bool" where
  "gcm_ok G = (case G of (E, gctr, gtag) \<Rightarrow> gcm_lawful E gctr gtag)"

definition gcm_sealed :: "('c, 'p) gcm \<Rightarrow> bytes \<Rightarrow> bytes \<Rightarrow> bytes \<Rightarrow> bytes \<Rightarrow> bytes" where
  "gcm_sealed G k n a p =
     (case G of (E, gctr, gtag) \<Rightarrow> gctr k n p @ gtag k n a (gctr k n p))"

interpretation gcm: sealing gcm_ok "\<lambda>G. encryptGcm (fst G)" "\<lambda>G. openGcm (fst G)"
  gcm_sealed GCM_TAG_SIZE
proof unfold_locales
  fix G :: "('c, 'p) gcm" and k n a p q c
  obtain E gctr gtag where G: "G = (E, gctr, gtag)" by (cases G)
  assume ok: "gcm_ok G"
  then have law: "gcm_lawful E gctr gtag" by (simp add: gcm_ok_def G)
  note inv = gcm_lawfulD(2)[OF law] and len = gcm_lawfulD(1)[OF law]
    and tag = gcm_lawfulD(3)[OF law]
  show "encryptGcm (fst G) k n a p = Some c \<Longrightarrow> c = gcm_sealed G k n a p"
    using encryptGcm_lawful[OF law] by (simp add: G gcm_sealed_def)
  show "length (gcm_sealed G k n a p) = length p + GCM_TAG_SIZE"
    by (simp add: G gcm_sealed_def len tag)
  show "gcm_sealed G k n a p = gcm_sealed G k n a q \<Longrightarrow> p = q"
    by (simp add: G gcm_sealed_def tag) (metis inv)
  show "GCM_TAG_SIZE \<le> length c \<Longrightarrow> openGcm (fst G) k n a c = Some p \<Longrightarrow> c = gcm_sealed G k n a p"
    using decryptGcm_lawful[OF law, of k n a "take (length c - GCM_TAG_SIZE) c"
        "drop (length c - GCM_TAG_SIZE) c" p]
    by (auto simp: G gcm_sealed_def openGcm_def Let_def inv) (metis append_take_drop_id)
qed

end
