(* ===== verification/Secure_Channel.thy ===== *)
theory Secure_Channel
  imports Control_Frames Openssl_Crypto
begin

text \<open>
  \<open>AuthenticatedChannel\<close> of \<open>linux/src/control_protocol.cpp\<close>: its construction from a
  session key, \<open>send\<close> and \<open>receive\<close>. The descriptor \<open>fd\<close> is the \<open>sock\<close> the operations
  take and return beside the channel. The constructor's \<open>std::runtime_error\<close> is \<open>None\<close>.

  The lemmas show that \<open>receive\<close> accepts exactly the sealed encoding of its result under
  the expected sequence number, that the sequence counters count the successful operations,
  and, through the contract \<open>message_stream\<close>, that messages arrive in order, each once.
\<close>

section \<open>Sequence numbers and nonces\<close>

definition SERVER_NONCE_PREFIX :: bytes where "SERVER_NONCE_PREFIX = string_bytes ''SRVR''"
definition CLIENT_NONCE_PREFIX :: bytes where "CLIENT_NONCE_PREFIX = string_bytes ''CLNT''"

definition ENCRYPTED_OVERHEAD :: nat where "ENCRYPTED_OVERHEAD = 8 + GCM_TAG_SIZE"

definition sequenceBytes :: "64 word \<Rightarrow> bytes" where
  "sequenceBytes sequence = be_bytes 8 sequence"

definition makeGcmNonce :: "bytes \<Rightarrow> bytes \<Rightarrow> bytes" where
  "makeGcmNonce noncePrefix sequence = noncePrefix @ sequence"

section \<open>The channel\<close>

record channel =
  sendKey :: bytes
  receiveKey :: bytes
  sendSequence :: "64 word"
  receiveSequence :: "64 word"
  serverSide :: bool

definition makeChannel :: "('c, 'p) openssl \<Rightarrow> bytes \<Rightarrow> bool \<Rightarrow> channel option" where
  "makeChannel E sessionKey server =
     (let sendInfo = (if server then SERVER_TO_CLIENT_KDF_INFO else CLIENT_TO_SERVER_KDF_INFO);
          receiveInfo = (if server then CLIENT_TO_SERVER_KDF_INFO else SERVER_TO_CLIENT_KDF_INFO)
      in do {
        sk \<leftarrow> hkdfExpand E sessionKey sendInfo;
        rk \<leftarrow> hkdfExpand E sessionKey receiveInfo;
        Some \<lparr>sendKey = sk, receiveKey = rk, sendSequence = 0, receiveSequence = 0,
              serverSide = server\<rparr>
      })"

definition send_prefix :: "channel \<Rightarrow> bytes" where
  "send_prefix ch = (if serverSide ch then SERVER_NONCE_PREFIX else CLIENT_NONCE_PREFIX)"

definition receive_prefix :: "channel \<Rightarrow> bytes" where
  "receive_prefix ch = (if serverSide ch then CLIENT_NONCE_PREFIX else SERVER_NONCE_PREFIX)"

definition channel_send ::
  "('c, 'p) openssl \<Rightarrow> channel \<Rightarrow> ftype \<Rightarrow> bytes \<Rightarrow> int \<Rightarrow> sock \<Rightarrow> (bool \<times> channel \<times> sock) option" where
  "channel_send E ch ty pl timeoutMs s =
     (if sendSequence ch = - 1 then Some (False, ch, s)
      else if length pl + ENCRYPTED_OVERHEAD > MAX_PAYLOAD then Some (False, ch, s)
      else
        let sequence = sequenceBytes (sendSequence ch);
            encryptedSize = length pl + GCM_TAG_SIZE;
            wirePayloadSize = length sequence + encryptedSize;
            header = makeHeader ty wirePayloadSize;
            nonce = makeGcmNonce (send_prefix ch) sequence
        in case encryptGcm E (sendKey ch) nonce header pl of
             None \<Rightarrow> Some (False, ch, s)
           | Some encrypted \<Rightarrow> do {
               (ok, s1) \<leftarrow> sendFrame ty (sequence @ encrypted) timeoutMs s;
               if \<not> ok then Some (False, ch, s1)
               else Some (True, ch\<lparr>sendSequence := sendSequence ch + 1\<rparr>, s1)
             })"

definition channel_receive ::
  "('c, 'p) openssl \<Rightarrow> channel \<Rightarrow> int \<Rightarrow> sock \<Rightarrow> (frame option \<times> channel \<times> sock) option" where
  "channel_receive E ch timeoutMs s =
     (if receiveSequence ch = - 1 then Some (None, ch, s)
      else do {
        (r, s1) \<leftarrow> receiveFrame timeoutMs s;
        (case r of
           None \<Rightarrow> Some (None, ch, s1)
         | Some wire \<Rightarrow>
             if length (payload wire) < ENCRYPTED_OVERHEAD then Some (None, ch, s1)
             else
               let sequence = take 8 (payload wire);
                   receivedSequence = be_word sequence
               in if receivedSequence \<noteq> receiveSequence ch then Some (None, ch, s1)
                  else
                    let ciphertextSize = length (payload wire) - length sequence - GCM_TAG_SIZE;
                        header = makeHeader (ftype wire) (length (payload wire));
                        nonce = makeGcmNonce (receive_prefix ch) sequence;
                        ciphertext = take ciphertextSize (drop 8 (payload wire));
                        tag = take GCM_TAG_SIZE (drop (8 + ciphertextSize) (payload wire))
                    in case decryptGcm E (receiveKey ch) nonce header ciphertext tag of
                         None \<Rightarrow> Some (None, ch, s1)
                       | Some plaintext \<Rightarrow>
                           Some (Some \<lparr>ftype = ftype wire, payload = plaintext\<rparr>,
                                 ch\<lparr>receiveSequence := receiveSequence ch + 1\<rparr>, s1))
      })"

lemma length_sequenceBytes [simp, codec_simps]: "length (sequenceBytes w) = 8"
  by (simp add: sequenceBytes_def)

lemma sequence_round_trip [codec_simps]:
  "be_word (sequenceBytes w) = w"
  "length bs = 8 \<Longrightarrow> sequenceBytes (be_word bs) = bs"
  by (simp_all add: sequenceBytes_def be_word_be_bytes be_bytes_be_word)

lemma sequenceBytes_inject [simp]: "sequenceBytes v = sequenceBytes w \<longleftrightarrow> v = w"
  by (metis sequence_round_trip(1))

lemma length_prefixes [simp]:
  "length SERVER_NONCE_PREFIX = 4" "length CLIENT_NONCE_PREFIX = 4"
  by (simp_all add: SERVER_NONCE_PREFIX_def CLIENT_NONCE_PREFIX_def)

lemma prefixes_differ [simp]: "SERVER_NONCE_PREFIX \<noteq> CLIENT_NONCE_PREFIX"
  by (simp add: SERVER_NONCE_PREFIX_def CLIENT_NONCE_PREFIX_def string_bytes_inject)

lemma makeChannel_fields:
  assumes "makeChannel E K b = Some ch"
  shows "serverSide ch = b" "sendSequence ch = 0" "receiveSequence ch = 0"
    "hkdfExpand E K (if b then SERVER_TO_CLIENT_KDF_INFO else CLIENT_TO_SERVER_KDF_INFO)
       = Some (sendKey ch)"
    "hkdfExpand E K (if b then CLIENT_TO_SERVER_KDF_INFO else SERVER_TO_CLIENT_KDF_INFO)
       = Some (receiveKey ch)"
  using assms by (auto simp: makeChannel_def Let_def split: Option.bind_splits)

text \<open>The two ends of one session agree on the keys of each direction.\<close>

lemma makeChannel_peers:
  assumes "makeChannel E K b = Some ch" "makeChannel E K (\<not> b) = Some peer"
  shows "receiveKey peer = sendKey ch" "receiveKey ch = sendKey peer"
    and "receive_prefix peer = send_prefix ch"
  using makeChannel_fields[OF assms(1)] makeChannel_fields[OF assms(2)]
  by (auto simp: receive_prefix_def send_prefix_def split: if_splits)

section \<open>What goes over the wire\<close>

text \<open>The position of one direction of a session: its key, nonce prefix and sequence number.\<close>

type_synonym position = "bytes \<times> bytes \<times> 64 word"

definition send_position :: "channel \<Rightarrow> position" where
  "send_position ch = (sendKey ch, send_prefix ch, sendSequence ch)"

definition receive_position :: "channel \<Rightarrow> position" where
  "receive_position ch = (receiveKey ch, receive_prefix ch, receiveSequence ch)"

fun next_position :: "position \<Rightarrow> position" where
  "next_position (k, p, n) = (k, p, n + 1)"

fun sealed_frame :: "('c, 'p) gcm \<Rightarrow> position \<Rightarrow> frame \<Rightarrow> frame" where
  "sealed_frame G (k, p, n) m =
     \<lparr>ftype = ftype m,
      payload = sequenceBytes n
        @ gcm_sealed G k (makeGcmNonce p (sequenceBytes n))
            (makeHeader (ftype m) (length (payload m) + ENCRYPTED_OVERHEAD)) (payload m)\<rparr>"

definition channel_wire :: "('c, 'p) gcm \<Rightarrow> position \<Rightarrow> frame \<Rightarrow> bytes" where
  "channel_wire G p m = frame_wire (sealed_frame G p m)"

definition message_ok :: "frame \<Rightarrow> bool" where
  "message_ok m \<longleftrightarrow> length (payload m) + ENCRYPTED_OVERHEAD \<le> MAX_PAYLOAD"

lemma length_sealed_frame:
  "gcm_ok G \<Longrightarrow> length (payload (sealed_frame G p m)) = length (payload m) + ENCRYPTED_OVERHEAD"
  by (cases p) (simp add: gcm.length_sealed ENCRYPTED_OVERHEAD_def)

lemma sealed_frame_ok: "gcm_ok G \<Longrightarrow> frame_ok (sealed_frame G p m) \<longleftrightarrow> message_ok m"
  by (simp add: frame_ok_def message_ok_def length_sealed_frame)

lemma ftype_sealed_frame [simp]: "ftype (sealed_frame G p m) = ftype m"
  by (cases p) simp

lemma sealed_frame_inject:
  assumes "gcm_ok G" "sealed_frame G p m = sealed_frame G p m'"
  shows "m = m'"
proof -
  obtain k q n where p: "p = (k, q, n)" by (cases p)
  have len: "length (payload m) = length (payload m')"
    using assms length_sealed_frame[OF assms(1), of p] by (metis add_right_cancel)
  have ty: "ftype m = ftype m'" using assms(2) by (metis ftype_sealed_frame)
  have "payload m = payload m'"
    using assms len ty by (auto simp: p intro: gcm.sealed_inject)
  with ty show ?thesis by simp
qed

lemma channel_wire_prefix_free:
  assumes "gcm_ok G" "message_ok m" "message_ok m'"
    and "channel_wire G p m @ r = channel_wire G p m' @ r'"
  shows "m = m' \<and> r = r'"
  using assms frame_wire_prefix_free[of "sealed_frame G p m" "sealed_frame G p m'" r r']
    sealed_frame_inject[OF assms(1), of p m m']
  by (simp add: channel_wire_def sealed_frame_ok)

section \<open>What the operations do\<close>

lemma channel_send_success:
  assumes "gcm_ok G" "channel_send (fst G) ch ty pl t s = Some (True, ch', s')"
  shows "tx s' = tx s @ channel_wire G (send_position ch) \<lparr>ftype = ty, payload = pl\<rparr>"
    and "rx s' = rx s" and "message_ok \<lparr>ftype = ty, payload = pl\<rparr>"
    and "sendSequence ch \<noteq> - 1" and "ch' = ch\<lparr>sendSequence := sendSequence ch + 1\<rparr>"
proof -
  let ?seq = "sequenceBytes (sendSequence ch)"
  obtain c where seq: "sendSequence ch \<noteq> - 1" and small: "length pl + ENCRYPTED_OVERHEAD \<le> MAX_PAYLOAD"
    and enc: "encryptGcm (fst G) (sendKey ch) (makeGcmNonce (send_prefix ch) ?seq)
      (makeHeader ty (length pl + ENCRYPTED_OVERHEAD)) pl = Some c"
    and snd: "sendFrame ty (?seq @ c) t s = Some (True, s')"
    and ch': "ch' = ch\<lparr>sendSequence := sendSequence ch + 1\<rparr>"
    using assms(2)
    by (auto simp: channel_send_def Let_def ENCRYPTED_OVERHEAD_def add_ac
        split: if_splits option.splits Option.bind_splits)
  have c: "c = gcm_sealed G (sendKey ch) (makeGcmNonce (send_prefix ch) ?seq)
      (makeHeader ty (length pl + ENCRYPTED_OVERHEAD)) pl"
    using gcm.seal_sealed[OF assms(1) enc] .
  show "tx s' = tx s @ channel_wire G (send_position ch) \<lparr>ftype = ty, payload = pl\<rparr>"
    using sendFrame_cases(2)[OF snd]
    by (simp add: c channel_wire_def send_position_def frame_wire_def)
  show "rx s' = rx s" by (rule sendFrame_cases(1)[OF snd])
  show "message_ok \<lparr>ftype = ty, payload = pl\<rparr>" using small by (simp add: message_ok_def)
  show "sendSequence ch \<noteq> - 1" "ch' = ch\<lparr>sendSequence := sendSequence ch + 1\<rparr>"
    by (rule seq, rule ch')
qed

lemma channel_send_prefix:
  assumes "gcm_ok G" "channel_send (fst G) ch ty pl t s = Some (b, ch', s')"
  shows "rx s' = rx s" "\<exists>w. tx s' = tx s @ w
    \<and> prefix w (channel_wire G (send_position ch) \<lparr>ftype = ty, payload = pl\<rparr>)"
proof -
  let ?seq = "sequenceBytes (sendSequence ch)"
  consider "s' = s" | c where "encryptGcm (fst G) (sendKey ch) (makeGcmNonce (send_prefix ch) ?seq)
      (makeHeader ty (length pl + ENCRYPTED_OVERHEAD)) pl = Some c" "sendFrame ty (?seq @ c) t s = Some (b, s')"
    using assms(2)
    by (auto simp: channel_send_def Let_def ENCRYPTED_OVERHEAD_def add_ac
        split: if_splits option.splits Option.bind_splits)
  then have "rx s' = rx s \<and> (\<exists>w. tx s' = tx s @ w
    \<and> prefix w (channel_wire G (send_position ch) \<lparr>ftype = ty, payload = pl\<rparr>))"
  proof cases
    case 1
    then show ?thesis by simp
  next
    case (2 c)
    have "frame_wire \<lparr>ftype = ty, payload = ?seq @ c\<rparr>
        = channel_wire G (send_position ch) \<lparr>ftype = ty, payload = pl\<rparr>"
      using gcm.seal_sealed[OF assms(1) 2(1)] by (simp add: channel_wire_def send_position_def)
    then show ?thesis using sendFrame_prefix[OF 2(2)] by metis
  qed
  then show "rx s' = rx s" "\<exists>w. tx s' = tx s @ w
    \<and> prefix w (channel_wire G (send_position ch) \<lparr>ftype = ty, payload = pl\<rparr>)" by simp_all
qed

lemma channel_send_failure:
  assumes "channel_send E ch ty pl t s = Some (False, ch', s')"
  shows "ch' = ch"
  using assms
  by (auto simp: channel_send_def Let_def split: if_splits option.splits Option.bind_splits)

lemma channel_receive_failure:
  assumes "channel_receive E ch t s = Some (None, ch', s')"
  shows "ch' = ch"
  using assms
  by (auto simp: channel_receive_def Let_def split: if_splits option.splits Option.bind_splits)

lemma channel_receive_tx:
  assumes "channel_receive E ch t s = Some (r, ch', s')"
  shows "tx s' = tx s"
proof -
  have "s' = s \<or> (\<exists>w. receiveFrame t s = Some (w, s'))"
    using assms
    by (auto simp: channel_receive_def Let_def split: if_splits option.splits Option.bind_splits)
  then show ?thesis using receiveFrame_consumes by blast
qed

lemma channel_receive_success:
  assumes "channel_receive E ch t s = Some (Some m, ch', s')"
  obtains wire where "receiveFrame t s = Some (Some wire, s')"
    and "receiveSequence ch \<noteq> - 1"
    and "ENCRYPTED_OVERHEAD \<le> length (payload wire)"
    and "take 8 (payload wire) = sequenceBytes (receiveSequence ch)"
    and "openGcm E (receiveKey ch)
           (makeGcmNonce (receive_prefix ch) (sequenceBytes (receiveSequence ch)))
           (makeHeader (ftype wire) (length (payload wire))) (drop 8 (payload wire))
         = Some (payload m)"
    and "ftype m = ftype wire"
    and "ch' = ch\<lparr>receiveSequence := receiveSequence ch + 1\<rparr>"
proof -
  obtain wire where w: "receiveFrame t s = Some (Some wire, s')"
    and fresh: "receiveSequence ch \<noteq> - 1" and long: "ENCRYPTED_OVERHEAD \<le> length (payload wire)"
    and seq: "be_word (take 8 (payload wire)) = receiveSequence ch"
    and dec: "decryptGcm E (receiveKey ch) (makeGcmNonce (receive_prefix ch) (take 8 (payload wire)))
           (makeHeader (ftype wire) (length (payload wire)))
           (take (length (payload wire) - 8 - GCM_TAG_SIZE) (drop 8 (payload wire)))
           (take GCM_TAG_SIZE (drop (8 + (length (payload wire) - 8 - GCM_TAG_SIZE)) (payload wire)))
         = Some (payload m)"
    and ty: "ftype m = ftype wire" and ch': "ch' = ch\<lparr>receiveSequence := receiveSequence ch + 1\<rparr>"
    using assms
    by (auto simp: channel_receive_def Let_def min_def ENCRYPTED_OVERHEAD_def
        split: if_splits option.splits Option.bind_splits)
  have s8: "take 8 (payload wire) = sequenceBytes (receiveSequence ch)"
    using seq long by (metis ENCRYPTED_OVERHEAD_def length_take min.absorb2 add_leD1
        sequence_round_trip(2))
  have tag: "take GCM_TAG_SIZE (drop (8 + (length (payload wire) - 8 - GCM_TAG_SIZE)) (payload wire))
      = drop (length (payload wire) - 8 - GCM_TAG_SIZE) (drop 8 (payload wire))"
    using long by (simp add: ENCRYPTED_OVERHEAD_def add.commute)
  from that[OF w fresh long s8 _ ty ch'] dec tag s8 show thesis
    by (simp add: openGcm_def Let_def)
qed

lemma channel_send_clock [clock_mono]: "channel_send E ch ty pl t s = Some (b, ch', s') \<Longrightarrow> clock s \<le> clock s'"
  by (auto simp: channel_send_def Let_def split: if_splits Option.bind_splits option.splits dest!: sendFrame_clock)

lemma channel_receive_clock [clock_mono]: "channel_receive E ch t s = Some (r, ch', s') \<Longrightarrow> clock s \<le> clock s'"
  by (auto simp: channel_receive_def Let_def split: if_splits Option.bind_splits option.splits dest!: receiveFrame_clock)

lemma channel_receive_consumes:
  assumes "gcm_ok G" "channel_receive (fst G) ch t s = Some (Some m, ch', s')"
  shows "rx s = channel_wire G (receive_position ch) m @ rx s'"
    and "message_ok m" and "tx s' = tx s" and "receiveSequence ch \<noteq> - 1"
    and "ch' = ch\<lparr>receiveSequence := receiveSequence ch + 1\<rparr>"
proof -
  obtain wire where w: "receiveFrame t s = Some (Some wire, s')"
    and fresh: "receiveSequence ch \<noteq> - 1" and long: "ENCRYPTED_OVERHEAD \<le> length (payload wire)"
    and s8: "take 8 (payload wire) = sequenceBytes (receiveSequence ch)"
    and dec: "openGcm (fst G) (receiveKey ch)
           (makeGcmNonce (receive_prefix ch) (sequenceBytes (receiveSequence ch)))
           (makeHeader (ftype wire) (length (payload wire))) (drop 8 (payload wire))
         = Some (payload m)"
    and ty: "ftype m = ftype wire" and ch': "ch' = ch\<lparr>receiveSequence := receiveSequence ch + 1\<rparr>"
    using channel_receive_success[OF assms(2)] .
  have "GCM_TAG_SIZE \<le> length (drop 8 (payload wire))"
    using long by (simp add: ENCRYPTED_OVERHEAD_def)
  from gcm.unseal_sealed[OF assms(1) this dec]
  have d8: "drop 8 (payload wire) = gcm_sealed G (receiveKey ch)
      (makeGcmNonce (receive_prefix ch) (sequenceBytes (receiveSequence ch)))
      (makeHeader (ftype wire) (length (payload wire))) (payload m)" .
  have "length (drop 8 (payload wire)) = length (payload m) + GCM_TAG_SIZE"
    unfolding d8 by (rule gcm.length_sealed[OF assms(1)])
  then have "length (payload wire) = length (payload m) + ENCRYPTED_OVERHEAD"
    using long by (simp add: ENCRYPTED_OVERHEAD_def)
  with s8 d8 have "payload wire = payload (sealed_frame G (receive_position ch) m)"
    using append_take_drop_id[of 8 "payload wire"] by (simp add: receive_position_def ty)
  with ty have wire: "wire = sealed_frame G (receive_position ch) m" by simp
  obtain got where "rx s = got @ rx s'" "tx s' = tx s" "frame_ok wire" "got = frame_wire wire"
    using receiveFrame_consumes[OF w] by auto
  then show "rx s = channel_wire G (receive_position ch) m @ rx s'" "message_ok m" "tx s' = tx s"
    using assms(1) by (simp_all add: channel_wire_def wire sealed_frame_ok)
  show "receiveSequence ch \<noteq> - 1" "ch' = ch\<lparr>receiveSequence := receiveSequence ch + 1\<rparr>"
    by (rule fresh, rule ch')
qed

lemma position_steps [simp]:
  "send_position (ch\<lparr>sendSequence := sendSequence ch + 1\<rparr>) = next_position (send_position ch)"
  "receive_position (ch\<lparr>receiveSequence := receiveSequence ch + 1\<rparr>)
     = next_position (receive_position ch)"
  "receive_position (ch\<lparr>sendSequence := v\<rparr>) = receive_position ch"
  "send_position (ch\<lparr>receiveSequence := v\<rparr>) = send_position ch"
  by (simp_all add: send_position_def receive_position_def send_prefix_def receive_prefix_def)

section \<open>The receiver as a message stream\<close>

type_synonym ('c, 'p) endpoint = "('c, 'p) gcm \<times> channel \<times> sock"

definition channel_step :: "('c, 'p) endpoint \<Rightarrow> frame \<Rightarrow> ('c, 'p) endpoint \<Rightarrow> bool" where
  "channel_step e m e' \<longleftrightarrow>
     (case (e, e') of ((G, ch, s), (G', ch', s')) \<Rightarrow>
        G' = G \<and> (\<exists>t. channel_receive (fst G) ch t s = Some (Some m, ch', s')))"

lemma channel_stepD:
  assumes "gcm_ok G" "channel_step (G, ch, s) m (G', ch', s')"
  shows "G' = G" and "rx s = channel_wire G (receive_position ch) m @ rx s'"
    and "message_ok m" and "receive_position ch' = next_position (receive_position ch)"
proof -
  obtain t where G: "G' = G" and r: "channel_receive (fst G) ch t s = Some (Some m, ch', s')"
    using assms(2) by (auto simp: channel_step_def)
  note c = channel_receive_consumes[OF assms(1) r]
  show "G' = G" by (rule G)
  show "rx s = channel_wire G (receive_position ch) m @ rx s'" by (rule c(1))
  show "message_ok m" by (rule c(2))
  show "receive_position ch' = next_position (receive_position ch)" using c(5) by simp
qed

text \<open>Outside a lawful cipher the plain encoding stands in, so that the code is total.\<close>

fun endpoint_code :: "('c, 'p) gcm \<times> position \<Rightarrow> frame \<Rightarrow> bytes" where
  "endpoint_code (G, p) m = (if gcm_ok G then channel_wire G p m else frame_wire m)"

fun endpoint_ok :: "('c, 'p) endpoint \<Rightarrow> bool" where
  "endpoint_ok (G, ch, s) \<longleftrightarrow> gcm_ok G"

fun endpoint_unread :: "('c, 'p) endpoint \<Rightarrow> bytes" where
  "endpoint_unread (G, ch, s) = rx s"

fun endpoint_position :: "('c, 'p) endpoint \<Rightarrow> ('c, 'p) gcm \<times> position" where
  "endpoint_position (G, ch, s) = (G, receive_position ch)"

fun endpoint_next :: "('c, 'p) gcm \<times> position \<Rightarrow> ('c, 'p) gcm \<times> position" where
  "endpoint_next (G, p) = (G, next_position p)"

lemma endpoint_code_prefix_free:
  assumes "message_ok m" "message_ok m'" "endpoint_code x m @ r = endpoint_code x m' @ r'"
  shows "m = m' \<and> r = r'"
proof -
  obtain G p where x: "x = (G, p)" by (cases x)
  have "frame_ok m" "frame_ok m'" using assms(1,2) by (simp_all add: frame_ok_def message_ok_def)
  then show ?thesis
    using assms x channel_wire_prefix_free[of G m m' p r r'] frame_wire_prefix_free[of m m' r r']
    by (cases "gcm_ok G") simp_all
qed

interpretation secure: message_stream endpoint_ok channel_step endpoint_unread endpoint_position
  endpoint_next endpoint_code message_ok
proof unfold_locales
  fix e e' :: "('c, 'p) endpoint" and m
  assume ok: "endpoint_ok e" and st: "channel_step e m e'"
  obtain G ch s where e: "e = (G, ch, s)" by (cases e)
  obtain G' ch' s' where e': "e' = (G', ch', s')" by (cases e')
  have G: "gcm_ok G" using ok e by simp
  note d = channel_stepD[OF G st[unfolded e e']]
  show "endpoint_unread e = endpoint_code (endpoint_position e) m @ endpoint_unread e'"
    using d(2) G by (simp add: e e')
  show "message_ok m" by (rule d(3))
  show "endpoint_position e' = endpoint_next (endpoint_position e)"
    using d(1,4) by (simp add: e e')
  show "endpoint_ok e'" using d(1) G by (simp add: e')
qed (rule endpoint_code_prefix_free)

end
