(* ===== verification/Sample_Library.thy ===== *)
theory Sample_Library
  imports Openssl_Crypto
begin

text \<open>
  One concrete library behind the interface of \<open>Openssl_Crypto\<close>: every call succeeds, the
  cipher is a keyed mask, digests and tags are polynomial checksums over everything they
  are given. It satisfies the laws assumed of the real library, so the theorems that
  assume them are not vacuous, and it computes, so they can be applied to concrete bytes.
\<close>

definition checksum :: "bytes \<Rightarrow> nat" where
  "checksum bs = foldl (\<lambda>acc b. (acc * 257 + unat b + 1) mod 65521) 7 bs"

definition sample_mask :: "bytes \<Rightarrow> bytes \<Rightarrow> byte" where
  "sample_mask k n = word_of_nat (checksum (k @ n))"

definition sample_ctr :: "bytes \<Rightarrow> bytes \<Rightarrow> bytes \<Rightarrow> bytes" where
  "sample_ctr k n x = map (\<lambda>b. b XOR sample_mask k n) x"

definition sample_tag :: "bytes \<Rightarrow> bytes \<Rightarrow> bytes \<Rightarrow> bytes \<Rightarrow> bytes" where
  "sample_tag k n a x =
     (let c = checksum (k @ n @ [0] @ a @ [1] @ x)
      in replicate 14 0 @ [word_of_nat (c div 256), word_of_nat c])"

definition sample_digest :: "bytes \<Rightarrow> bytes \<Rightarrow> bytes" where
  "sample_digest k x =
     (let c = checksum (k @ [2] @ x)
      in replicate 30 0 @ [word_of_nat (c div 256), word_of_nat c])"

record sample_cipher =
  ckey :: bytes
  cnonce :: bytes
  caad :: bytes
  cdata :: bytes
  ctag :: bytes

definition new_cipher :: sample_cipher where
  "new_cipher = \<lparr>ckey = [], cnonce = [], caad = [], cdata = [], ctag = []\<rparr>"

record sample_pkey =
  psalt :: bytes
  pkey :: bytes
  pinfo :: bytes

definition sample :: "(sample_cipher, sample_pkey) openssl" where
  "sample = \<lparr>
     hmac_sha256 = (\<lambda>k x. Some (sample_digest k x)),
     crypto_memcmp = (\<lambda>l r n. if take n l = take n r then 0 else 1),
     pkey_ctx_new_hkdf = Some \<lparr>psalt = [], pkey = [], pinfo = []\<rparr>,
     derive_init = Some,
     set_hkdf_mode = (\<lambda>m. Some),
     set_hkdf_md_sha256 = Some,
     set1_hkdf_salt = (\<lambda>x p. Some (p\<lparr>psalt := x\<rparr>)),
     set1_hkdf_key = (\<lambda>k p. Some (p\<lparr>pkey := k\<rparr>)),
     add1_hkdf_info = (\<lambda>i p. Some (p\<lparr>pinfo := i\<rparr>)),
     derive = (\<lambda>n p. Some (take n (sample_digest (pkey p) (psalt p @ [3] @ pinfo p)))),
     cipher_ctx_new = Some new_cipher,
     encrypt_init_aes256gcm = Some,
     encrypt_init_key = (\<lambda>k n c. Some (c\<lparr>ckey := k, cnonce := n\<rparr>)),
     encrypt_aad = (\<lambda>a c. Some (c\<lparr>caad := a\<rparr>)),
     encrypt_update = (\<lambda>x c. let y = sample_ctr (ckey c) (cnonce c) x in Some (y, c\<lparr>cdata := y\<rparr>)),
     encrypt_final = (\<lambda>c. Some ([], c)),
     decrypt_init_aes256gcm = Some,
     decrypt_init_key = (\<lambda>k n c. Some (c\<lparr>ckey := k, cnonce := n\<rparr>)),
     decrypt_aad = (\<lambda>a c. Some (c\<lparr>caad := a\<rparr>)),
     decrypt_update = (\<lambda>x c. Some (sample_ctr (ckey c) (cnonce c) x, c\<lparr>cdata := x\<rparr>)),
     decrypt_final = (\<lambda>c. if ctag c = sample_tag (ckey c) (cnonce c) (caad c) (cdata c)
                         then Some ([], c) else None),
     set_ivlen = (\<lambda>n. Some),
     get_tag = (\<lambda>n c. Some (take n (sample_tag (ckey c) (cnonce c) (caad c) (cdata c)))),
     set_tag = (\<lambda>t c. Some (c\<lparr>ctag := t\<rparr>))\<rparr>"

definition sample_gcm :: "(sample_cipher, sample_pkey) gcm" where
  "sample_gcm = (sample, sample_ctr, sample_tag)"

lemma length_sample [simp]:
  "length (sample_ctr k n x) = length x" "length (sample_tag k n a x) = 16"
  "length (sample_digest k x) = 32"
  by (simp_all add: sample_ctr_def sample_tag_def sample_digest_def Let_def)

lemma sample_ctr_involutive: "sample_ctr k n (sample_ctr k n x) = x"
  by (simp add: sample_ctr_def comp_def xor.assoc)

lemma sample_ctr_Nil [simp]: "sample_ctr k n [] = []"
  by (simp add: sample_ctr_def)

lemmas sample_calls = sample_def encrypt_setup_def decrypt_setup_def encrypt_data_def
  decrypt_data_def new_cipher_def GCM_TAG_SIZE_def Let_def

lemma sample_lawful: "gcm_lawful sample sample_ctr sample_tag"
  unfolding gcm_lawful_def
proof (intro conjI allI impI; (elim conjE)?)
  fix k n x a c y c1 z c2 t
  show "length (sample_ctr k n x) = length x" "sample_ctr k n (sample_ctr k n x) = x"
    "length (sample_tag k n a x) = GCM_TAG_SIZE"
    by (simp_all add: sample_ctr_involutive GCM_TAG_SIZE_def)
  assume "encrypt_setup sample k n a = Some c" "encrypt_data sample x c = Some (y, c1)"
    "encrypt_final sample c1 = Some (z, c2)" "get_tag sample GCM_TAG_SIZE c2 = Some t"
  then show "y = sample_ctr k n x" "z = []" "t = sample_tag k n a y"
    by (auto simp: sample_calls split: if_splits)
next
  fix k n x a c y c1 z c2 c3 t
  assume "decrypt_setup sample k n a = Some c" "decrypt_data sample x c = Some (y, c1)"
    "set_tag sample t c1 = Some c2" "decrypt_final sample c2 = Some (z, c3)"
  then show "y = sample_ctr k n x" "z = []" "t = sample_tag k n a x"
    by (auto simp: sample_calls split: if_splits)
qed

lemma sample_available: "gcm_available sample sample_tag"
  by (simp add: gcm_available_def sample_calls)

lemma sample_memcmp: "memcmp_lawful sample"
  by (simp add: memcmp_lawful_def sample_def)

lemma sample_gcm_ok [simp]: "gcm_ok sample_gcm"
  by (simp add: gcm_ok_def sample_gcm_def sample_lawful)

lemma fst_sample_gcm [simp]: "fst sample_gcm = sample"
  by (simp add: sample_gcm_def)

lemma snd_sample_gcm [simp]: "snd (snd sample_gcm) = sample_tag"
  by (simp add: sample_gcm_def)

end
