(* ===== verification/Channel_Session.thy ===== *)
theory Channel_Session
  imports Secure_Channel Sample_Library
begin

text \<open>
  A whole session of one \<open>AuthenticatedChannel\<close>: any sequence of \<open>send\<close> and \<open>receive\<close>
  calls, failed ones included, with any scheduling of the socket. The lemmas follow the
  two sequence counters through a session: a position (key, nonce prefix, number) is never
  used for two sent messages, what was accepted once is never accepted again, and what
  one end sends the other end accepts in that order.
\<close>

section \<open>Sessions\<close>

datatype channel_event = Sent position frame | Send_failed | Received frame | Receive_failed

inductive session_step ::
  "('c, 'p) openssl \<Rightarrow> channel \<times> sock \<Rightarrow> channel_event \<Rightarrow> channel \<times> sock \<Rightarrow> bool"
  for E :: "('c, 'p) openssl" where
  send_ok: "channel_send E ch ty pl t s = Some (True, ch', s') \<Longrightarrow>
    session_step E (ch, s) (Sent (send_position ch) \<lparr>ftype = ty, payload = pl\<rparr>) (ch', s')"
| send_failed: "channel_send E ch ty pl t s = Some (False, ch', s') \<Longrightarrow>
    session_step E (ch, s) Send_failed (ch', s')"
| receive_ok: "channel_receive E ch t s = Some (Some m, ch', s') \<Longrightarrow>
    session_step E (ch, s) (Received m) (ch', s')"
| receive_failed: "channel_receive E ch t s = Some (None, ch', s') \<Longrightarrow>
    session_step E (ch, s) Receive_failed (ch', s')"

inductive_cases session_SentE: "session_step E (ch, s) (Sent p m) (ch', s')"
inductive_cases session_ReceivedE: "session_step E (ch, s) (Received m) (ch', s')"
inductive_cases session_stepE: "session_step E (ch, s) e (ch', s')"

abbreviation session where "session E \<equiv> accepts (session_step E)"

definition positions :: "channel_event list \<Rightarrow> position list" where
  "positions evs = concat (map (\<lambda>e. case e of Sent p m \<Rightarrow> [p] | _ \<Rightarrow> []) evs)"

definition sent :: "channel_event list \<Rightarrow> frame list" where
  "sent evs = concat (map (\<lambda>e. case e of Sent p m \<Rightarrow> [m] | _ \<Rightarrow> []) evs)"

definition received :: "channel_event list \<Rightarrow> frame list" where
  "received evs = concat (map (\<lambda>e. case e of Received m \<Rightarrow> [m] | _ \<Rightarrow> []) evs)"


lemma event_lists [simp]:
  "positions [] = []" "sent [] = []" "received [] = []"
  "positions (Sent p m # evs) = p # positions evs" "sent (Sent p m # evs) = m # sent evs"
  "received (Sent p m # evs) = received evs"
  "positions (Send_failed # evs) = positions evs" "sent (Send_failed # evs) = sent evs"
  "received (Send_failed # evs) = received evs"
  "positions (Received m # evs) = positions evs" "sent (Received m # evs) = sent evs"
  "received (Received m # evs) = m # received evs"
  "positions (Receive_failed # evs) = positions evs" "sent (Receive_failed # evs) = sent evs"
  "received (Receive_failed # evs) = received evs"
  by (simp_all add: positions_def sent_def received_def)


section \<open>The effect of one step\<close>

text \<open>What each call does to the channel, for any library.\<close>

lemma channel_send_channel:
  assumes "channel_send E ch ty pl t s = Some (b, ch', s')"
  shows "ch' = (if b then ch\<lparr>sendSequence := sendSequence ch + 1\<rparr> else ch)
    \<and> (b \<longrightarrow> sendSequence ch \<noteq> - 1)"
  using assms
  by (auto simp: channel_send_def Let_def split: if_splits option.splits Option.bind_splits)

lemma channel_receive_channel:
  assumes "channel_receive E ch t s = Some (r, ch', s')"
  shows "ch' = (if r = None then ch else ch\<lparr>receiveSequence := receiveSequence ch + 1\<rparr>)
    \<and> (r \<noteq> None \<longrightarrow> receiveSequence ch \<noteq> - 1)"
  using assms
  by (auto simp: channel_receive_def Let_def split: if_splits option.splits Option.bind_splits)

lemma unat_next: "(n :: 64 word) \<noteq> - 1 \<Longrightarrow> unat (n + 1) = unat n + 1"
  by (metis Suc_eq_plus1 add.inverse_inverse add_eq_0_iff unatSuc add.commute)

lemma session_step_positions:
  assumes "session_step E (ch, s) e (ch', s')"
  shows "serverSide ch' = serverSide ch" "sendKey ch' = sendKey ch" "receiveKey ch' = receiveKey ch"
    and "unat (sendSequence ch') = unat (sendSequence ch) + length (sent [e])"
    and "unat (receiveSequence ch') = unat (receiveSequence ch) + length (received [e])"
    and "positions [e] = (if sent [e] = [] then [] else [send_position ch])"
  using assms
  by (auto elim!: session_stepE dest!: channel_send_channel channel_receive_channel simp: unat_next)

lemma session_step_lists:
  "sent (e # evs) = sent [e] @ sent evs" "received (e # evs) = received [e] @ received evs"
  "positions (e # evs) = positions [e] @ positions evs"
  by (simp_all add: sent_def received_def positions_def)

section \<open>Sequence numbers through a session\<close>

lemma session_counts:
  assumes "session E c evs c'"
  shows "serverSide (fst c') = serverSide (fst c)" "sendKey (fst c') = sendKey (fst c)"
    and "receiveKey (fst c') = receiveKey (fst c)"
    and "unat (sendSequence (fst c')) = unat (sendSequence (fst c)) + length (sent evs)"
    and "unat (receiveSequence (fst c')) = unat (receiveSequence (fst c)) + length (received evs)"
proof -
  have "serverSide (fst c') = serverSide (fst c) \<and> sendKey (fst c') = sendKey (fst c)
    \<and> receiveKey (fst c') = receiveKey (fst c)
    \<and> unat (sendSequence (fst c')) = unat (sendSequence (fst c)) + length (sent evs)
    \<and> unat (receiveSequence (fst c')) = unat (receiveSequence (fst c)) + length (received evs)"
    using assms
  proof (induction rule: accepts.induct)
    case (accepts_Nil c)
    show ?case by simp
  next
    case (accepts_Cons c e c1 evs c')
    then have st: "session_step E (fst c, snd c) e (fst c1, snd c1)" by simp
    show ?case
      using session_step_positions[OF st] accepts_Cons.IH session_step_lists[of e evs] by simp
  qed
  then show "serverSide (fst c') = serverSide (fst c)" "sendKey (fst c') = sendKey (fst c)"
    "receiveKey (fst c') = receiveKey (fst c)"
    "unat (sendSequence (fst c')) = unat (sendSequence (fst c)) + length (sent evs)"
    "unat (receiveSequence (fst c')) = unat (receiveSequence (fst c)) + length (received evs)"
    by simp_all
qed



section \<open>Replay\<close>

text \<open>A message sealed at one position is not accepted at another one of the same direction.\<close>

lemma sealed_frame_position:
  assumes "gcm_ok G" "message_ok m" "message_ok m'"
    and "channel_wire G (k, p, n) m @ r = channel_wire G (k', p', n') m' @ r'"
  shows "n = n'"
proof -
  have "sealed_frame G (k, p, n) m = sealed_frame G (k', p', n') m'"
    using assms frame_wire_prefix_free[of "sealed_frame G (k, p, n) m" "sealed_frame G (k', p', n') m'" r r']
    by (simp only: channel_wire_def sealed_frame_ok)
  then have "take 8 (payload (sealed_frame G (k, p, n) m)) = take 8 (payload (sealed_frame G (k', p', n') m'))"
    by simp
  then show ?thesis by simp
qed

lemma accepted_once:
  assumes G: "gcm_ok G" and first: "channel_receive (fst G) ch t s = Some (Some m, ch1, s1)"
    and between: "session (fst G) (ch1, s1) evs (ch2, s2)"
    and again: "rx s3 = channel_wire G (receive_position ch) m @ rest"
    and res: "channel_receive (fst G) ch2 t' s3 = Some (r, ch3, s4)"
  shows "r = None"
proof (rule ccontr)
  assume "r \<noteq> None"
  then obtain m' where r: "r = Some m'" by auto
  note one = channel_receive_consumes[OF G first]
    and two = channel_receive_consumes[OF G res[unfolded r]]
  have "receiveSequence ch = receiveSequence ch2"
    using sealed_frame_position[OF G one(2) two(2)] again two(1) by (metis receive_position_def)
  moreover have "unat (receiveSequence ch2) = unat (receiveSequence ch1) + length (received evs)"
    using session_counts(5)[OF between] by simp
  moreover have "unat (receiveSequence ch1) = unat (receiveSequence ch) + 1"
    using one(4,5) by (simp add: unat_next)
  ultimately show False by simp
qed

section \<open>Delivery\<close>

text \<open>A session whose sends all succeed puts exactly the encoding of its messages on the wire.\<close>

lemma session_wire:
  assumes "gcm_ok G" "session (fst G) c evs c'" "Send_failed \<notin> set evs"
  shows "tx (snd c') = tx (snd c)
    @ encode_from (channel_wire G) next_position (send_position (fst c)) (sent evs)
    \<and> list_all message_ok (sent evs)"
  using assms(2,3)
proof (induction rule: accepts.induct)
  case (accepts_Nil c)
  show ?case by simp
next
  case (accepts_Cons c e c1 evs c')
  obtain ch s ch1 s1 where c: "c = (ch, s)" "c1 = (ch1, s1)" by (metis surj_pair)
  have rest: "tx (snd c') = tx (snd c1)
      @ encode_from (channel_wire G) next_position (send_position (fst c1)) (sent evs)"
    "list_all message_ok (sent evs)"
    using accepts_Cons by auto
  from accepts_Cons.hyps(1)[unfolded c] show ?case
  proof cases
    case (send_ok ty pl t)
    note snd = channel_send_success[OF assms(1) send_ok(2)]
    show ?thesis using rest snd(1,3) by (simp add: c send_ok(1) snd(5))
  next
    case send_failed
    with accepts_Cons.prems show ?thesis by simp
  next
    case (receive_ok t m)
    note rcv = channel_receive_consumes[OF assms(1) receive_ok(2)]
    show ?thesis using rest rcv(3) by (simp add: c receive_ok(1) rcv(5))
  next
    case (receive_failed t)
    then have "tx s1 = tx s" "ch1 = ch"
      using channel_receive_failure[OF receive_failed(2)] receiveFrame_consumes
      by (fastforce simp: channel_receive_def Let_def split: if_splits option.splits Option.bind_splits)+
    then show ?thesis using rest by (simp add: c receive_failed(1))
  qed
qed

text \<open>What a session receives is what was encoded on the stream it read, in order.\<close>

lemma session_received:
  assumes "gcm_ok G" "session (fst G) c evs c'" "Receive_failed \<notin> set evs"
  shows "rx (snd c) = encode_from (channel_wire G) next_position (receive_position (fst c))
      (received evs) @ rx (snd c')
    \<and> list_all message_ok (received evs)"
  using assms(2,3)
proof (induction rule: accepts.induct)
  case (accepts_Nil c)
  show ?case by simp
next
  case (accepts_Cons c e c1 evs c')
  obtain ch s ch1 s1 where c: "c = (ch, s)" "c1 = (ch1, s1)" by (metis surj_pair)
  have rest: "rx (snd c1) = encode_from (channel_wire G) next_position (receive_position (fst c1))
      (received evs) @ rx (snd c')" "list_all message_ok (received evs)"
    using accepts_Cons by auto
  from accepts_Cons.hyps(1)[unfolded c] show ?case
  proof cases
    case (send_ok ty pl t)
    note snd = channel_send_success[OF assms(1) send_ok(2)]
    show ?thesis using rest snd(2) by (simp add: c send_ok(1) snd(5))
  next
    case (send_failed ty pl t)
    then have "rx s1 = rx s" "ch1 = ch"
      using channel_send_failure[OF send_failed(2)] sendFrame_cases(1)
      by (fastforce simp: channel_send_def Let_def split: if_splits option.splits Option.bind_splits)+
    then show ?thesis using rest by (simp add: c send_failed(1))
  next
    case (receive_ok t m)
    note rcv = channel_receive_consumes[OF assms(1) receive_ok(2)]
    show ?thesis using rest rcv(1,2) by (simp add: c receive_ok(1) rcv(5))
  next
    case (receive_failed t)
    with accepts_Cons.prems show ?thesis by simp
  qed
qed

lemma endpoint_encode:
  "gcm_ok G \<Longrightarrow> encode_from endpoint_code endpoint_next (G, p) ms
     = encode_from (channel_wire G) next_position p ms"
  by (induction ms arbitrary: p) simp_all

lemma channel_wire_nonempty [simp]: "channel_wire G p m \<noteq> []"
  by (simp add: channel_wire_def frame_wire_def makeHeader_alt MAGIC_def)

lemma encoded_prefix:
  assumes "gcm_ok G" "list_all message_ok ms" "list_all message_ok ns"
    and eq: "encode_from (channel_wire G) next_position p ns
      = encode_from (channel_wire G) next_position p ms @ rest"
  shows "ms = take (length ms) ns"
proof (cases "length ms \<le> length ns")
  case True
  then show ?thesis
    using secure.encode_from_prefix[of ms ns "(G, p)" rest "[]"] assms
    by (simp add: endpoint_encode)
next
  case False
  define x where "x = (endpoint_next ^^ length ns) (G, p)"
  have "encode_from endpoint_code endpoint_next x (drop (length ns) ms) = []"
    unfolding x_def using False secure.encode_from_prefix[of ns ms "(G, p)" "[]" rest] assms
    by (simp add: endpoint_encode)
  moreover obtain m ms' where "drop (length ns) ms = m # ms'"
    using False by (cases "drop (length ns) ms") auto
  ultimately have "endpoint_code x m = []" by simp
  then show ?thesis
    by (cases x) (simp add: frame_wire_def makeHeader_alt MAGIC_def split: if_splits)
qed

lemma sent_is_received:
  assumes G: "gcm_ok G"
    and ends: "makeChannel (fst G) K b = Some ch" "makeChannel (fst G) K (\<not> b) = Some peer"
    and sender: "session (fst G) (ch, s) evs (ch', s')" "Send_failed \<notin> set evs" "tx s = []"
    and receiver: "session (fst G) (peer, q) evs' (peer', q')" "Receive_failed \<notin> set evs'"
    and stream: "tx s' = rx q @ in_flight"
  shows "received evs' = take (length (received evs')) (sent evs)"
proof -
  note p = makeChannel_peers[OF ends] and f = makeChannel_fields[OF ends(1)]
    and f' = makeChannel_fields[OF ends(2)]
  have pos: "receive_position peer = send_position ch"
    using p f f' by (simp add: receive_position_def send_position_def)
  note w = session_wire[OF G sender(1,2)] and r = session_received[OF G receiver]
  show ?thesis
    by (rule encoded_prefix[OF G, of _ _ "send_position ch" "rx q' @ in_flight"])
      (use w r stream pos sender(3) in simp_all)
qed

section \<open>Liveness on an undisturbed connection\<close>

lemma channel_send_delivers:
  assumes "gcm_ok G" "gcm_available (fst G) (snd (snd G))"
    and "message_ok \<lparr>ftype = ty, payload = pl\<rparr>" "sendSequence ch \<noteq> - 1"
    and "0 < t" "smooth n s" "HEADER_SIZE + length pl + ENCRYPTED_OVERHEAD \<le> n"
  shows "\<exists>s'. channel_send (fst G) ch ty pl t s
           = Some (True, ch\<lparr>sendSequence := sendSequence ch + 1\<rparr>, s')
         \<and> smooth (n - (HEADER_SIZE + length pl + ENCRYPTED_OVERHEAD)) s'"
proof -
  let ?seq = "sequenceBytes (sendSequence ch)"
  obtain c where c: "encryptGcm (fst G) (sendKey ch) (makeGcmNonce (send_prefix ch) ?seq)
      (makeHeader ty (8 + (length pl + GCM_TAG_SIZE))) pl = Some c"
    using encryptGcm_available[OF assms(2)] by metis
  have "length c = length pl + GCM_TAG_SIZE"
    using gcm.length_seal[OF assms(1) c] .
  then have len: "length (?seq @ c) = length pl + ENCRYPTED_OVERHEAD"
    by (simp add: ENCRYPTED_OVERHEAD_def)
  obtain s' where "sendFrame ty (?seq @ c) t s = Some (True, s')"
    "smooth (n - (HEADER_SIZE + length pl + ENCRYPTED_OVERHEAD)) s'"
    using sendFrame_smooth[OF assms(5,6), of "?seq @ c" ty] assms(3,7) len
    by (auto simp: message_ok_def add.assoc)
  with c assms(3,4) show ?thesis
    by (auto simp: channel_send_def Let_def message_ok_def)
qed

lemma channel_receive_opened:
  assumes "receiveFrame t s = Some (Some f, s')" "receiveSequence ch \<noteq> - 1"
    and pl: "payload f = sequenceBytes (receiveSequence ch) @ x @ tg" and tg: "length tg = GCM_TAG_SIZE"
    and dec: "decryptGcm E (receiveKey ch)
           (makeGcmNonce (receive_prefix ch) (sequenceBytes (receiveSequence ch)))
           (makeHeader (ftype f) (length x + ENCRYPTED_OVERHEAD)) x tg = Some y"
  shows "channel_receive E ch t s = Some (Some \<lparr>ftype = ftype f, payload = y\<rparr>,
    ch\<lparr>receiveSequence := receiveSequence ch + 1\<rparr>, s')"
proof -
  have len: "length (payload f) = length x + ENCRYPTED_OVERHEAD"
    using tg by (simp add: pl ENCRYPTED_OVERHEAD_def)
  have seq: "take 8 (payload f) = sequenceBytes (receiveSequence ch)"
    and body: "drop 8 (payload f) = x @ tg" by (simp_all add: pl)
  have "length (payload f) - 8 - GCM_TAG_SIZE = length x"
    by (simp add: len ENCRYPTED_OVERHEAD_def)
  moreover have "take GCM_TAG_SIZE (drop (8 + length x) (payload f)) = tg"
    using tg by (simp add: pl)
  ultimately show ?thesis
    using assms(1,2) dec len seq body tg
    by (simp add: channel_receive_def Let_def sequence_round_trip(1) del: take_drop)
qed

lemma channel_receive_delivers:
  assumes "gcm_ok G" "gcm_available (fst G) (snd (snd G))"
    and "message_ok m" "receiveSequence ch \<noteq> - 1"
    and "rx s = channel_wire G (receive_position ch) m @ rest"
    and "0 < t" "smooth n s" "HEADER_SIZE + length (payload m) + ENCRYPTED_OVERHEAD \<le> n"
  shows "\<exists>s'. channel_receive (fst G) ch t s
           = Some (Some m, ch\<lparr>receiveSequence := receiveSequence ch + 1\<rparr>, s') \<and> rx s' = rest
         \<and> smooth (n - (HEADER_SIZE + length (payload m) + ENCRYPTED_OVERHEAD)) s'"
proof -
  let ?f = "sealed_frame G (receive_position ch) m" and ?seq = "sequenceBytes (receiveSequence ch)"
  let ?n = "makeGcmNonce (receive_prefix ch) ?seq"
    and ?h = "makeHeader (ftype m) (length (payload m) + ENCRYPTED_OVERHEAD)"
  obtain E gctr gtag where G: "G = (E, gctr, gtag)" by (cases G)
  then have law: "gcm_lawful E gctr gtag" using assms(1) by (simp add: gcm_ok_def)
  have len: "length (payload ?f) = length (payload m) + ENCRYPTED_OVERHEAD"
    by (rule length_sealed_frame[OF assms(1)])
  obtain s' where s': "receiveFrame t s = Some (Some ?f, s')" "rx s' = rest"
    "smooth (n - (HEADER_SIZE + length (payload m) + ENCRYPTED_OVERHEAD)) s'"
    using receiveFrame_smooth[OF assms(6,7), of ?f rest] assms(1,3,5,8) len
    by (auto simp: channel_wire_def sealed_frame_ok add.assoc)
  let ?x = "gctr (receiveKey ch) ?n (payload m)"
  have pl: "payload ?f = ?seq @ ?x @ gtag (receiveKey ch) ?n ?h ?x"
    by (simp add: receive_position_def gcm_sealed_def G)
  have tag: "length (gtag (receiveKey ch) ?n ?h ?x) = GCM_TAG_SIZE"
    and x: "length ?x = length (payload m)"
    using gcm_lawfulD(1,3)[OF law] by simp_all
  obtain y where y: "decryptGcm E (receiveKey ch) ?n ?h ?x (gtag (receiveKey ch) ?n ?h ?x) = Some y"
    using decryptGcm_available[of E gtag] assms(2) unfolding G fst_conv snd_conv by blast
  have "y = payload m" using decryptGcm_lawful(1)[OF law y] gcm_lawfulD(2)[OF law] by simp
  with channel_receive_opened[OF s'(1) assms(4) pl tag, of E y] y x s'(2,3) show ?thesis
    by (simp add: G)
qed

text \<open>Any list of admissible messages goes through, in one direction, over such a connection.\<close>

definition wire_size :: "frame list \<Rightarrow> nat" where
  "wire_size ms = sum_list (map (\<lambda>m. HEADER_SIZE + length (payload m) + ENCRYPTED_OVERHEAD) ms)"

lemma wire_size_simps [simp]:
  "wire_size [] = 0"
  "wire_size (m # ms) = HEADER_SIZE + length (payload m) + ENCRYPTED_OVERHEAD + wire_size ms"
  by (simp_all add: wire_size_def)

lemma not_last_number: "unat (n :: 64 word) + Suc k < 2 ^ 64 \<Longrightarrow> n \<noteq> - 1"
proof
  assume "unat n + Suc k < 2 ^ 64" "n = - 1"
  then show False by (simp add: unsigned_minus_1_eq_mask mask_eq_exp_minus_1)
qed

lemma send_all:
  fixes t :: int
  assumes "gcm_ok G" "gcm_available (fst G) (snd (snd G))" "0 < t"
  shows "list_all message_ok ms \<Longrightarrow> unat (sendSequence ch) + length ms < 2 ^ 64 \<Longrightarrow>
    smooth n s \<Longrightarrow> wire_size ms \<le> n \<Longrightarrow>
    \<exists>evs ch' s'. session (fst G) (ch, s) evs (ch', s') \<and> sent evs = ms \<and> received evs = []
      \<and> Send_failed \<notin> set evs \<and> Receive_failed \<notin> set evs"
proof (induction ms arbitrary: ch n s)
  case Nil
  show ?case
    by (intro exI[of _ "[]"]) simp
next
  case (Cons m ms)
  obtain ty pl where m: "m = \<lparr>ftype = ty, payload = pl\<rparr>" by (cases m)
  have last: "sendSequence ch \<noteq> - 1" using Cons.prems(2) not_last_number by simp
  let ?ch = "ch\<lparr>sendSequence := sendSequence ch + 1\<rparr>"
  obtain s1 where s1: "channel_send (fst G) ch ty pl t s = Some (True, ?ch, s1)"
    "smooth (n - (HEADER_SIZE + length pl + ENCRYPTED_OVERHEAD)) s1"
    using channel_send_delivers[OF assms(1,2) _ last assms(3) Cons.prems(3), of ty pl] Cons.prems m
    by auto
  have room: "wire_size ms \<le> n - (HEADER_SIZE + length pl + ENCRYPTED_OVERHEAD)"
    using Cons.prems(4) m by simp
  obtain evs ch' s' where rest: "session (fst G) (?ch, s1) evs (ch', s')" "sent evs = ms"
    "received evs = []" "Send_failed \<notin> set evs" "Receive_failed \<notin> set evs"
    using Cons.IH[OF _ _ s1(2) room, of ?ch] Cons.prems last m by (auto simp: unat_next)
  show ?case
    using accepts_Cons[OF session_step.send_ok[OF s1(1)] rest(1)] rest(2-) m
    by (intro exI[of _ "Sent (send_position ch) m # evs"]) auto
qed

lemma receive_all:
  fixes t :: int
  assumes "gcm_ok G" "gcm_available (fst G) (snd (snd G))" "0 < t"
  shows "list_all message_ok ms \<Longrightarrow> unat (receiveSequence ch) + length ms < 2 ^ 64 \<Longrightarrow>
    smooth n s \<Longrightarrow> wire_size ms \<le> n \<Longrightarrow>
    rx s = encode_from (channel_wire G) next_position (receive_position ch) ms @ rest \<Longrightarrow>
    \<exists>evs ch' s'. session (fst G) (ch, s) evs (ch', s') \<and> received evs = ms \<and> sent evs = []
      \<and> Send_failed \<notin> set evs \<and> Receive_failed \<notin> set evs \<and> rx s' = rest"
proof (induction ms arbitrary: ch n s)
  case Nil
  then show ?case
    by (intro exI[of _ "[]"]) simp
next
  case (Cons m ms)
  have last: "receiveSequence ch \<noteq> - 1" using Cons.prems(2) not_last_number by simp
  let ?ch = "ch\<lparr>receiveSequence := receiveSequence ch + 1\<rparr>"
  obtain s1 where s1: "channel_receive (fst G) ch t s = Some (Some m, ?ch, s1)"
    "rx s1 = encode_from (channel_wire G) next_position (receive_position ?ch) ms @ rest"
    "smooth (n - (HEADER_SIZE + length (payload m) + ENCRYPTED_OVERHEAD)) s1"
    using channel_receive_delivers[OF assms(1,2) _ last _ assms(3) Cons.prems(3), of m] Cons.prems
    by auto
  have room: "wire_size ms \<le> n - (HEADER_SIZE + length (payload m) + ENCRYPTED_OVERHEAD)"
    using Cons.prems(4) by simp
  obtain evs ch' s' where rest: "session (fst G) (?ch, s1) evs (ch', s')" "received evs = ms"
    "sent evs = []" "Send_failed \<notin> set evs" "Receive_failed \<notin> set evs" "rx s' = rest"
    using Cons.IH[OF _ _ s1(3) room s1(2)] Cons.prems last by (auto simp: unat_next)
  show ?case
    using accepts_Cons[OF session_step.receive_ok[OF s1(1)] rest(1)] rest(2-)
    by (intro exI[of _ "Received m # evs"]) auto
qed

text \<open>With a timeout, both operations always come back.\<close>

lemma channel_send_returns:
  assumes "0 \<le> t"
  shows "\<exists>b ch' s'. channel_send E ch ty pl t s = Some (b, ch', s')"
proof (cases "encryptGcm E (sendKey ch) (makeGcmNonce (send_prefix ch) (sequenceBytes (sendSequence ch)))
    (makeHeader ty (8 + (length pl + GCM_TAG_SIZE))) pl")
  case None
  then show ?thesis by (auto simp: channel_send_def)
next
  case (Some c)
  obtain b s' where "sendFrame ty (sequenceBytes (sendSequence ch) @ c) t s = Some (b, s')"
    using sendFrame_returns[OF assms] by blast
  with Some show ?thesis by (auto simp: channel_send_def)
qed

lemma channel_receive_returns:
  assumes "0 \<le> t"
  shows "\<exists>r ch' s'. channel_receive E ch t s = Some (r, ch', s')"
proof -
  obtain r s' where "receiveFrame t s = Some (r, s')" using receiveFrame_returns[OF assms] by blast
  then show ?thesis
    by (cases r) (auto simp: channel_receive_def Let_def split: option.splits)
qed

section \<open>Nonces\<close>


lemma length_send_prefix [simp]: "length (send_prefix ch) = 4"
  by (simp add: send_prefix_def)


section \<open>A concrete exchange\<close>

definition demo_secret :: bytes where "demo_secret = [1, 2, 3, 4]"

definition demo_end :: "bool \<Rightarrow> channel" where
  "demo_end b = the (makeChannel sample demo_secret b)"

definition demo_messages :: "frame list" where
  "demo_messages = [\<lparr>ftype = ACTIVATION, payload = [7, 8]\<rparr>, \<lparr>ftype = ERROR_REPORT, payload = []\<rparr>]"

lemma demo_end [simp]: "makeChannel sample demo_secret b = Some (demo_end b)"
  by (simp add: demo_end_def makeChannel_def hkdfExpand_def sample_def KEY_SIZE_def)

lemma demo_fields [simp]:
  "sendSequence (demo_end b) = 0" "receiveSequence (demo_end b) = 0" "serverSide (demo_end b) = b"
  using makeChannel_fields[OF demo_end] by simp_all

lemma length_demo_messages [simp]: "length demo_messages = 2"
  by (simp add: demo_messages_def)

lemma demo_messages_ok: "list_all message_ok demo_messages" "wire_size demo_messages \<le> 100"
  by (simp_all add: demo_messages_def message_ok_def MAX_PAYLOAD_def ENCRYPTED_OVERHEAD_def
      GCM_TAG_SIZE_def HEADER_SIZE_def)

lemma demo_exchange:
  obtains evs ch s evs' ch' s' where
    "session sample (demo_end True, quiet 100 []) evs (ch, s)" "Send_failed \<notin> set evs"
    "sent evs = demo_messages" "received evs = []"
    "session sample (demo_end False, quiet 100 (tx s)) evs' (ch', s')" "Receive_failed \<notin> set evs'"
    "received evs' = demo_messages" "sent evs' = []"
proof -
  obtain evs ch s where snd: "session sample (demo_end True, quiet 100 []) evs (ch, s)"
    "sent evs = demo_messages" "received evs = []" "Send_failed \<notin> set evs"
    using send_all[OF sample_gcm_ok, of 100 demo_messages "demo_end True" 100 "quiet 100 []"]
      sample_available demo_messages_ok by auto
  have "tx s = encode_from (channel_wire sample_gcm) next_position (receive_position (demo_end False))
      demo_messages"
    using session_wire[of sample_gcm "(demo_end True, quiet 100 [])" evs "(ch, s)"] snd
      makeChannel_peers[OF demo_end, of True "demo_end False"]
    by (simp add: send_position_def receive_position_def)
  then obtain evs' ch' s' where "session sample (demo_end False, quiet 100 (tx s)) evs' (ch', s')"
    "received evs' = demo_messages" "sent evs' = []" "Receive_failed \<notin> set evs'"
    using receive_all[OF sample_gcm_ok, of 100 demo_messages "demo_end False" 100
        "quiet 100 (tx s)" "[]"] sample_available demo_messages_ok by auto
  with snd that show thesis by blast
qed

text \<open>One message received twice in a row on the wire: the stream of a replay.\<close>

definition demo_message :: frame where
  "demo_message = \<lparr>ftype = ACTIVATION, payload = [7, 8]\<rparr>"

definition demo_wire :: bytes where
  "demo_wire = channel_wire sample_gcm (receive_position (demo_end False)) demo_message"

lemma demo_receive:
  obtains s where "channel_receive sample (demo_end False) 100 (quiet 100 (demo_wire @ demo_wire))
      = Some (Some demo_message, (demo_end False)\<lparr>receiveSequence := 1\<rparr>, s)"
    "rx s = demo_wire"
  using channel_receive_delivers[of sample_gcm demo_message "demo_end False"
      "quiet 100 (demo_wire @ demo_wire)" demo_wire 100 100] sample_available demo_messages_ok
  by (auto simp: demo_wire_def demo_message_def demo_messages_def)

section \<open>Properties\<close>

text \<open>
  C1: What the secure channel accepts is authentic. For any bytes on the stream, any
  scheduling and any library obeying the laws of AES-GCM, a message that \<open>receive\<close> returns is
  the one whose sealed encoding, under this direction's key, its nonce prefix and exactly the
  next sequence number, the stream starts with; the sequence number then goes up by one.
\<close>

theorem receive_authentic:
  assumes "gcm_ok G" "channel_receive (fst G) ch t s = Some (Some m, ch', s')"
  shows "rx s = channel_wire G (receiveKey ch, receive_prefix ch, receiveSequence ch) m @ rx s'
    \<and> tx s' = tx s \<and> length (payload m) + ENCRYPTED_OVERHEAD \<le> MAX_PAYLOAD
    \<and> ch' = ch\<lparr>receiveSequence := receiveSequence ch + 1\<rparr>
    \<and> unat (receiveSequence ch') = unat (receiveSequence ch) + 1"
  using channel_receive_consumes[OF assms]
  by (simp add: receive_position_def message_ok_def unat_next)

lemma receive_authentic_witness:
  "\<exists>s. channel_receive sample (demo_end False) 100 (quiet 100 (demo_wire @ demo_wire))
      = Some (Some demo_message, (demo_end False)\<lparr>receiveSequence := 1\<rparr>, s) \<and> tx s = []"
proof -
  obtain s where s: "channel_receive sample (demo_end False) 100 (quiet 100 (demo_wire @ demo_wire))
      = Some (Some demo_message, (demo_end False)\<lparr>receiveSequence := 1\<rparr>, s)"
    by (rule demo_receive)
  then have "tx s = []"
    using receive_authentic[of sample_gcm "demo_end False" 100 "quiet 100 (demo_wire @ demo_wire)"
        demo_message "(demo_end False)\<lparr>receiveSequence := 1\<rparr>" s] by simp
  with s show ?thesis by blast
qed



text \<open>
  C3: No replay. Once the channel has accepted a message, no stream that begins with that
  message's encoding yields any message again, whatever was sent and received in between.
\<close>

theorem replay_rejected:
  assumes "gcm_ok G" "channel_receive (fst G) ch t s = Some (Some m, ch1, s1)"
    and "session (fst G) (ch1, s1) evs (ch2, s2)"
    and "rx s3 = channel_wire G (receive_position ch) m @ rest"
    and "channel_receive (fst G) ch2 t' s3 = Some (r, ch3, s4)"
  shows "r = None \<and> ch3 = ch2"
  using accepted_once[OF assms] assms(5) channel_receive_failure by blast

lemma replay_rejected_witness:
  "\<exists>s s' ch' r. channel_receive sample (demo_end False) 100 (quiet 100 (demo_wire @ demo_wire))
        = Some (Some demo_message, (demo_end False)\<lparr>receiveSequence := 1\<rparr>, s)
     \<and> channel_receive sample ((demo_end False)\<lparr>receiveSequence := 1\<rparr>) 100 s = Some (r, ch', s')
     \<and> r = None"
proof -
  let ?ch = "(demo_end False)\<lparr>receiveSequence := 1\<rparr>"
  obtain s where s: "channel_receive sample (demo_end False) 100 (quiet 100 (demo_wire @ demo_wire))
      = Some (Some demo_message, ?ch, s)" "rx s = demo_wire"
    by (rule demo_receive)
  moreover obtain r ch' s' where r: "channel_receive sample ?ch 100 s = Some (r, ch', s')"
    using channel_receive_returns[of 100 sample ?ch s] by auto
  moreover have "r = None \<and> ch' = ?ch"
    by (rule replay_rejected[of sample_gcm "demo_end False" 100 "quiet 100 (demo_wire @ demo_wire)"
          demo_message ?ch s "[]" ?ch s s "[]" 100])
      (use s r in \<open>simp_all add: demo_wire_def\<close>)
  ultimately show ?thesis by blast
qed

text \<open>
  C4: In-order delivery. One end sends, in any session without a failed send; the other end
  receives, in any session without a failed receive, from the bytes the first one put on the
  connection (all or only the first part of them). The messages received are the first ones
  sent, in order, none lost, none repeated, none invented.
\<close>

theorem delivery_in_order:
  assumes "gcm_ok G" "makeChannel (fst G) K b = Some ch" "makeChannel (fst G) K (\<not> b) = Some peer"
    and "session (fst G) (ch, s) evs (ch', s')" "Send_failed \<notin> set evs" "tx s = []"
    and "session (fst G) (peer, q) evs' (peer', q')" "Receive_failed \<notin> set evs'"
    and "tx s' = rx q @ in_flight"
  shows "received evs' = take (length (received evs')) (sent evs)"
  by (rule sent_is_received[OF assms])

lemma delivery_in_order_witness:
  "\<exists>evs s evs' s'. session sample (demo_end True, quiet 100 []) evs s
     \<and> session sample (demo_end False, quiet 100 (tx (snd s))) evs' s'
     \<and> length (received evs') = 2 \<and> received evs' = take 2 (sent evs)"
proof -
  obtain evs ch s evs' ch' s' where
    evs: "session sample (demo_end True, quiet 100 []) evs (ch, s)" "Send_failed \<notin> set evs"
      "sent evs = demo_messages"
    and evs': "session sample (demo_end False, quiet 100 (tx s)) evs' (ch', s')"
      "Receive_failed \<notin> set evs'" "received evs' = demo_messages"
    by (rule demo_exchange)
  have "received evs' = take (length (received evs')) (sent evs)"
    by (rule delivery_in_order[of sample_gcm demo_secret True "demo_end True" "demo_end False"
          "quiet 100 []" evs ch s "quiet 100 (tx s)" evs' ch' s' "[]"])
      (use evs evs' in simp_all)
  with evs evs' show ?thesis
    by (intro exI[of _ evs] exI[of _ "(ch, s)"] exI[of _ evs'] exI[of _ "(ch', s')"])
      (simp add: demo_messages_def)
qed

text \<open>
  C5: Everything gets through. Over an undisturbed connection and with the library available,
  any list of messages of admissible size, empty ones included, is sent without a failure, and
  the peer then receives exactly that list, however the kernel splits the bytes.
\<close>

theorem exchange_complete:
  fixes t :: int
  assumes "gcm_ok G" "gcm_available (fst G) (snd (snd G))"
    and "makeChannel (fst G) K b = Some ch" "makeChannel (fst G) K (\<not> b) = Some peer"
    and "list_all message_ok ms" "length ms < 2 ^ 64" "0 < t"
    and "smooth n s" "tx s = []" "wire_size ms \<le> n"
  shows "\<exists>evs ch' s'. session (fst G) (ch, s) evs (ch', s') \<and> sent evs = ms
    \<and> (\<forall>q. smooth n q \<and> rx q = tx s' \<longrightarrow>
         (\<exists>evs' peer' q'. session (fst G) (peer, q) evs' (peer', q')
            \<and> received evs' = ms \<and> Receive_failed \<notin> set evs' \<and> rx q' = []))"
proof -
  note f = makeChannel_fields[OF assms(3)] and f' = makeChannel_fields[OF assms(4)]
    and p = makeChannel_peers[OF assms(3,4)]
  have pos: "send_position ch = receive_position peer"
    using f f' p by (simp add: send_position_def receive_position_def)
  have start: "unat (sendSequence ch) + length ms < 2 ^ 64"
    "unat (receiveSequence peer) + length ms < 2 ^ 64" using f f' assms(6) by simp_all
  obtain evs ch' s' where snd: "session (fst G) (ch, s) evs (ch', s')" "sent evs = ms"
    "Send_failed \<notin> set evs"
    using send_all[OF assms(1,2,7,5) start(1) assms(8,10)] by auto
  have tx: "tx s' = encode_from (channel_wire G) next_position (receive_position peer) ms"
    using session_wire[OF assms(1) snd(1,3)] snd(2) assms(9) pos by simp
  have "\<exists>evs' peer' q'. session (fst G) (peer, q) evs' (peer', q')
      \<and> received evs' = ms \<and> Receive_failed \<notin> set evs' \<and> rx q' = []"
    if q: "smooth n q" "rx q = tx s'" for q
  proof -
    have "rx q = encode_from (channel_wire G) next_position (receive_position peer) ms @ []"
      using q tx by simp
    from receive_all[OF assms(1,2,7,5) start(2) q(1) assms(10) this] show ?thesis by auto
  qed
  with snd show ?thesis by blast
qed

lemma exchange_complete_witness:
  "\<exists>evs ch' s' evs' peer' q'.
     session sample (demo_end True, quiet 100 []) evs (ch', s') \<and> sent evs = demo_messages
     \<and> session sample (demo_end False, quiet 100 (tx s')) evs' (peer', q')
     \<and> received evs' = demo_messages"
proof -
  obtain evs ch' s' where evs: "session sample (demo_end True, quiet 100 []) evs (ch', s')"
    "sent evs = demo_messages" and rcv: "\<forall>q. smooth 100 q \<and> rx q = tx s' \<longrightarrow>
         (\<exists>evs' peer' q'. session sample (demo_end False, q) evs' (peer', q')
            \<and> received evs' = demo_messages \<and> Receive_failed \<notin> set evs' \<and> rx q' = [])"
    using exchange_complete[of sample_gcm demo_secret True "demo_end True" "demo_end False"
        demo_messages 100 100 "quiet 100 []"] demo_messages_ok sample_available
    by auto
  obtain evs' peer' q' where
    "session sample (demo_end False, quiet 100 (tx s')) evs' (peer', q')"
    "received evs' = demo_messages"
    using rcv[rule_format, of "quiet 100 (tx s')"] by auto
  with evs show ?thesis by blast
qed

text \<open>
  The protocol operations always return. With a timeout that is not negative, \<open>sendFrame\<close>,
  \<open>receiveFrame\<close>, and the channel's \<open>send\<close> and \<open>receive\<close> come back, on every socket.
\<close>

theorem operations_return:
  assumes "0 \<le> t"
  shows "(\<exists>b s'. sendFrame ty pl t s = Some (b, s')) \<and> (\<exists>r s'. receiveFrame t s = Some (r, s'))
    \<and> (\<exists>b ch' s'. channel_send E ch ty pl t s = Some (b, ch', s'))
    \<and> (\<exists>r ch' s'. channel_receive E ch t s = Some (r, ch', s'))"
proof (intro conjI)
  show "\<exists>b s'. sendFrame ty pl t s = Some (b, s')" by (rule sendFrame_returns[OF assms])
  show "\<exists>r s'. receiveFrame t s = Some (r, s')" by (rule receiveFrame_returns[OF assms])
  show "\<exists>b ch' s'. channel_send E ch ty pl t s = Some (b, ch', s')"
    by (rule channel_send_returns[OF assms])
  show "\<exists>r ch' s'. channel_receive E ch t s = Some (r, ch', s')"
    by (rule channel_receive_returns[OF assms])
qed

lemma operations_return_witness:
  "\<exists>b s'. sendFrame ERROR_REPORT [7] 5 (quiet 0 []) = Some (b, s')"
  using operations_return[of 5 ERROR_REPORT "[7]" "quiet 0 []" sample "demo_end True"] by simp

end
