(* ===== verification/Utf8.thy ===== *)
theory Utf8
  imports OC_Prelude
begin

text \<open>
  \<open>isValidUtf8\<close> of \<open>linux/src/device_descriptor.cpp\<close>, and the definition of UTF-8 it is
  meant to decide: a string is valid when it is the concatenation of the encodings of a
  list of Unicode scalar values (RFC 3629: at most \<open>0x10ffff\<close>, no surrogates, each in its
  shortest form).
\<close>

section \<open>The check\<close>

text \<open>The three tests on the first byte: how many bytes follow, and the bits it carries.\<close>

definition utf8_lead :: "byte \<Rightarrow> (nat \<times> 32 word) option" where
  "utf8_lead first =
     (if first AND 0xE0 = 0xC0 then Some (1, ucast (first AND 0x1F))
      else if first AND 0xF0 = 0xE0 then Some (2, ucast (first AND 0x0F))
      else if first AND 0xF8 = 0xF0 then Some (3, ucast (first AND 0x07))
      else None)"

text \<open>The inner loop over the continuation bytes.\<close>

fun utf8_tail :: "32 word \<Rightarrow> bytes \<Rightarrow> 32 word option" where
  "utf8_tail codepoint [] = Some codepoint"
| "utf8_tail codepoint (b # bs) =
     (if b AND 0xC0 \<noteq> 0x80 then None
      else utf8_tail (push_bit 6 codepoint OR ucast (b AND 0x3F)) bs)"

definition utf8_rejects :: "nat \<Rightarrow> 32 word \<Rightarrow> bool" where
  "utf8_rejects continuation codepoint \<longleftrightarrow>
     continuation = 1 \<and> codepoint < 0x80 \<or> continuation = 2 \<and> codepoint < 0x800 \<or>
     continuation = 3 \<and> codepoint < 0x10000 \<or> codepoint > 0x10FFFF \<or>
     (0xD800 \<le> codepoint \<and> codepoint \<le> 0xDFFF)"

function utf8_from :: "bytes \<Rightarrow> bool" where
  "utf8_from [] = True"
| "utf8_from (first # bs) =
     (if first \<le> 0x7F then utf8_from bs
      else case utf8_lead first of
        None \<Rightarrow> False
      | Some (continuation, codepoint) \<Rightarrow>
          if length bs < continuation then False
          else case utf8_tail codepoint (take continuation bs) of
            None \<Rightarrow> False
          | Some codepoint' \<Rightarrow>
              if utf8_rejects continuation codepoint' then False
              else utf8_from (drop continuation bs))"
  by pat_completeness auto
termination by (relation "measure length") (auto simp: less_Suc_eq_le)

definition isValidUtf8 :: "string \<Rightarrow> bool" where
  "isValidUtf8 value = utf8_from (string_bytes value)"

section \<open>UTF-8\<close>

definition scalar_value :: "nat \<Rightarrow> bool" where
  "scalar_value c \<longleftrightarrow> c < 0xD800 \<or> 0xE000 \<le> c \<and> c \<le> 0x10FFFF"

text \<open>A tag in the high bits and payload bits below it.\<close>

definition utf8_byte :: "nat \<Rightarrow> nat \<Rightarrow> byte" where
  "utf8_byte tag x = word_of_nat (tag + x)"

definition utf8_encode :: "nat \<Rightarrow> bytes" where
  "utf8_encode c =
     (if c < 0x80 then [utf8_byte 0 c]
      else if c < 0x800 then [utf8_byte 0xC0 (c div 64), utf8_byte 0x80 (c mod 64)]
      else if c < 0x10000 then
        [utf8_byte 0xE0 (c div 4096), utf8_byte 0x80 (c div 64 mod 64), utf8_byte 0x80 (c mod 64)]
      else
        [utf8_byte 0xF0 (c div 262144), utf8_byte 0x80 (c div 4096 mod 64),
         utf8_byte 0x80 (c div 64 mod 64), utf8_byte 0x80 (c mod 64)])"

section \<open>The bit tests as arithmetic\<close>

lemma unat_and_high:
  assumes "k \<le> 8"
  shows "unat ((b :: byte) AND NOT (mask k)) = unat b div 2 ^ k * 2 ^ k"
proof -
  have eq: "b AND NOT (mask k) = push_bit k (drop_bit k b)"
    by (rule bit_word_eqI) (auto simp: bit_simps)
  have "unat b div 2 ^ k * 2 ^ k \<le> unat b" by simp
  then have small: "unat b div 2 ^ k * 2 ^ k < 256" using unat_byte_less by (rule le_less_trans)
  have d: "unat (drop_bit k b) = unat b div 2 ^ k"
    by (simp only: unat_drop_bit_eq) (simp only: drop_bit_eq_div)
  have "unat (push_bit k (drop_bit k b)) = take_bit 8 (push_bit k (unat (drop_bit k b)))"
    by (simp only: unsigned_push_bit_eq) simp
  also have "\<dots> = take_bit 8 (unat b div 2 ^ k * 2 ^ k)"
    by (simp only: d push_bit_eq_mult)
  also have "\<dots> = unat b div 2 ^ k * 2 ^ k" using small by (simp add: take_bit_nat_eq_self)
  finally show ?thesis unfolding eq .
qed

lemma unat_and_low: "unat ((b :: byte) AND mask k) = unat b mod 2 ^ k"
  unfolding take_bit_eq_mask [symmetric] unsigned_take_bit_eq by (rule take_bit_eq_mod)

lemma block_iff: "0 < d \<Longrightarrow> x div d * d = q * d \<longleftrightarrow> q * d \<le> x \<and> x < q * d + (d :: nat)"
  by (metis div_mult_mod_eq add.commute add_less_cancel_left div_nat_eqI le_add1
      mod_less_divisor mult.commute mult_Suc_right mult_is_0 mult_right_cancel not_gr_zero)

lemma lead_masks:
  "(0xE0 :: byte) = NOT (mask 5)" "(0xF0 :: byte) = NOT (mask 4)" "(0xF8 :: byte) = NOT (mask 3)"
  "(0xC0 :: byte) = NOT (mask 6)" "(0x1F :: byte) = mask 5" "(0x0F :: byte) = mask 4"
  "(0x07 :: byte) = mask 3" "(0x3F :: byte) = mask 6"
  by (simp_all add: mask_eq_exp_minus_1)

lemma lead_tests:
  fixes first :: byte
  shows "first AND 0xE0 = 0xC0 \<longleftrightarrow> 192 \<le> unat first \<and> unat first < 224"
    and "first AND 0xF0 = 0xE0 \<longleftrightarrow> 224 \<le> unat first \<and> unat first < 240"
    and "first AND 0xF8 = 0xF0 \<longleftrightarrow> 240 \<le> unat first \<and> unat first < 248"
    and "first AND 0xC0 = 0x80 \<longleftrightarrow> 128 \<le> unat first \<and> unat first < 192"
    and "first \<le> 0x7F \<longleftrightarrow> unat first < 128"
proof -
  have "unat (first AND 0xE0) = unat first div 32 * 32" "unat (first AND 0xF0) = unat first div 16 * 16"
    "unat (first AND 0xF8) = unat first div 8 * 8" "unat (first AND 0xC0) = unat first div 64 * 64"
    using unat_and_high[of 5 first] unat_and_high[of 4 first] unat_and_high[of 3 first]
      unat_and_high[of 6 first] by (simp_all only: lead_masks) simp_all
  then show "first AND 0xE0 = 0xC0 \<longleftrightarrow> 192 \<le> unat first \<and> unat first < 224"
    and "first AND 0xF0 = 0xE0 \<longleftrightarrow> 224 \<le> unat first \<and> unat first < 240"
    and "first AND 0xF8 = 0xF0 \<longleftrightarrow> 240 \<le> unat first \<and> unat first < 248"
    and "first AND 0xC0 = 0x80 \<longleftrightarrow> 128 \<le> unat first \<and> unat first < 192"
    using block_iff[of 32 "unat first" 6] block_iff[of 16 "unat first" 14]
      block_iff[of 8 "unat first" 30] block_iff[of 64 "unat first" 2]
    by (simp_all add: word_unat_eq_iff)
  show "first \<le> 0x7F \<longleftrightarrow> unat first < 128" by (simp add: word_le_nat_alt) linarith
qed

lemma lead_bits:
  fixes first :: byte
  shows "unat (first AND 0x1F) = unat first mod 32" "unat (first AND 0x0F) = unat first mod 16"
    "unat (first AND 0x07) = unat first mod 8" "unat (first AND 0x3F) = unat first mod 64"
  unfolding lead_masks by (simp_all only: unat_and_low) simp_all

lemma unat_ucast_byte: "unat (ucast (b :: byte) :: 32 word) = unat b"
proof -
  have "unat b < 2 ^ 32" using unat_byte_less[of b] by (rule less_trans) simp
  then show ?thesis by (simp add: unsigned_ucast_eq take_bit_nat_eq_self)
qed

lemma unat_shift_in:
  assumes "unat (c :: 32 word) < 2 ^ 20"
  shows "unat (push_bit 6 c OR ucast (b AND 0x3F :: byte)) = unat c * 64 + unat b mod 64"
proof -
  have low: "unat (ucast (b AND 0x3F :: byte) :: 32 word) = unat b mod 64"
    by (simp add: unat_ucast_byte lead_bits)
  have "unat (push_bit 6 c) = take_bit 32 (push_bit 6 (unat c))"
    using unsigned_push_bit_eq[of 6 c] by simp
  then have high: "unat (push_bit 6 c) = unat c * 64"
    using assms by (simp add: push_bit_eq_mult take_bit_nat_eq_self)
  have "push_bit 6 c AND (ucast (b AND 0x3F :: byte) :: 32 word) = 0"
  proof (rule bit_word_eqI)
    fix n
    have "\<not> bit (0x3F :: byte) n" if "6 \<le> n" for n
    proof -
      have eq: "(0x3F :: byte) = mask 6" by (simp add: mask_eq_exp_minus_1)
      show ?thesis unfolding eq using that by (simp add: bit_simps)
    qed
    then show "bit (push_bit 6 c AND (ucast (b AND 0x3F :: byte) :: 32 word)) n = bit 0 n"
      by (auto simp: bit_simps)
  qed
  then have "push_bit 6 c OR ucast (b AND 0x3F :: byte) = push_bit 6 c + (ucast (b AND 0x3F :: byte) :: 32 word)"
    by (simp add: disjunctive_add_eq_or)
  moreover have "unat c * 64 + unat b mod 64 < 2 ^ 32" using assms by simp
  ultimately show ?thesis using low high by (simp add: unat_word_ariths)
qed

text \<open>The value of a byte written as arithmetic on a small number.\<close>

lemma unat_utf8_byte [simp]: "tag + x < 256 \<Longrightarrow> unat (utf8_byte tag x) = tag + x"
  by (simp add: utf8_byte_def unat_of_nat del: of_nat_add)

lemma utf8_byte_eqI: "tag + x = unat b \<Longrightarrow> b = utf8_byte tag x"
  by (simp add: word_unat_eq_iff)

section \<open>The check decides UTF-8\<close>

lemma utf8_lead_cases:
  "192 \<le> unat first \<Longrightarrow> unat first < 224 \<Longrightarrow> utf8_lead first = Some (1, ucast (first AND 0x1F))"
  "224 \<le> unat first \<Longrightarrow> unat first < 240 \<Longrightarrow> utf8_lead first = Some (2, ucast (first AND 0x0F))"
  "240 \<le> unat first \<Longrightarrow> unat first < 248 \<Longrightarrow> utf8_lead first = Some (3, ucast (first AND 0x07))"
  "unat first < 192 \<or> 248 \<le> unat first \<Longrightarrow> utf8_lead first = None"
  by (auto simp: utf8_lead_def lead_tests)

lemma utf8_rejects_unat:
  "utf8_rejects n cp \<longleftrightarrow> n = 1 \<and> unat cp < 0x80 \<or> n = 2 \<and> unat cp < 0x800 \<or>
     n = 3 \<and> unat cp < 0x10000 \<or> \<not> scalar_value (unat cp)"
  by (auto simp: utf8_rejects_def scalar_value_def word_less_nat_alt word_le_nat_alt)

text \<open>The continuation loop on numbers; the accumulator never gets near its 32 bits.\<close>

fun tail_value :: "nat \<Rightarrow> bytes \<Rightarrow> nat option" where
  "tail_value c [] = Some c"
| "tail_value c (b # bs) =
     (if 128 \<le> unat b \<and> unat b < 192 then tail_value (c * 64 + unat b mod 64) bs else None)"

lemma utf8_tail_value:
  "(unat c + 1) * 64 ^ length bs \<le> 2 ^ 24 \<Longrightarrow>
     map_option unat (utf8_tail c bs) = tail_value (unat c) bs"
proof (induction bs arbitrary: c)
  case Nil
  then show ?case by simp
next
  case (Cons b bs)
  have "(unat c + 1) * 64 * 1 \<le> (unat c + 1) * 64 * 64 ^ length bs"
    by (intro mult_left_mono) auto
  also have "\<dots> \<le> 2 ^ 24" using Cons.prems by (simp only: length_Cons power_Suc mult.assoc)
  finally have "unat c < 2 ^ 20" by simp
  note shift = unat_shift_in[OF this, of b]
  have "(unat c * 64 + unat b mod 64 + 1) * 64 ^ length bs \<le> (unat c + 1) * 64 * 64 ^ length bs"
    by (intro mult_right_mono) auto
  also have "\<dots> \<le> 2 ^ 24" using Cons.prems by (simp only: length_Cons power_Suc mult.assoc)
  finally have "(unat (push_bit 6 c OR ucast (b AND 0x3F)) + 1) * 64 ^ length bs \<le> 2 ^ 24"
    unfolding shift .
  from Cons.IH[OF this] show ?case by (simp add: lead_tests shift)
qed

lemma utf8_from_value:
  "utf8_from (f # bs) \<longleftrightarrow>
     (if unat f < 128 then utf8_from bs
      else \<exists>n c c'. (n = 1 \<and> 192 \<le> unat f \<and> unat f < 224 \<and> c = unat f mod 32 \<and> 0x80 \<le> c'
             \<or> n = 2 \<and> 224 \<le> unat f \<and> unat f < 240 \<and> c = unat f mod 16 \<and> 0x800 \<le> c'
             \<or> n = 3 \<and> 240 \<le> unat f \<and> unat f < 248 \<and> c = unat f mod 8 \<and> 0x10000 \<le> c')
           \<and> n \<le> length bs \<and> tail_value c (take n bs) = Some c' \<and> scalar_value c'
           \<and> utf8_from (drop n bs))"
proof -
  have tail: "map_option unat (utf8_tail (ucast m) (take n bs)) = tail_value (unat m) (take n bs)"
    if "unat (m :: byte) < 32" "n \<le> 3" "n \<le> length bs" for m n
  proof -
    have "(64::nat) ^ n \<le> 64 ^ 3" using that(2) by (intro power_increasing) auto
    then have "(unat m + 1) * 64 ^ n \<le> 32 * 64 ^ 3" using that(1) by (intro mult_mono) auto
    then show ?thesis
      using utf8_tail_value[of "ucast m" "take n bs"] that by (simp add: unat_ucast_byte min_def)
  qed
  have one: "utf8_from (f # bs) \<longleftrightarrow> n \<le> length bs \<and> (\<exists>c'. tail_value c (take n bs) = Some c'
        \<and> b \<le> c' \<and> scalar_value c' \<and> utf8_from (drop n bs))"
    if "\<not> unat f < 128" "utf8_lead f = Some (n, ucast m)" "unat (m :: byte) < 32" "n \<le> 3" "c = unat m"
      and b: "n = 1 \<and> b = 0x80 \<or> n = 2 \<and> b = 0x800 \<or> n = 3 \<and> b = 0x10000" for n m b c
  proof (cases "n \<le> length bs")
    case False
    with that show ?thesis by (simp add: lead_tests)
  next
    case True
    from tail[OF that(3,4) True, symmetric] that True show ?thesis
      by (cases "utf8_tail (ucast m) (take n bs)")
        (auto simp: lead_tests utf8_rejects_unat not_less)
  qed
  have "unat f mod 32 < 32" "unat f mod 16 < 32" "unat f mod 8 < 32" by simp_all
  then have bits: "unat (f AND 0x1F) < 32" "unat (f AND 0x0F) < 32" "unat (f AND 0x07) < 32"
    by (simp_all only: lead_bits)
  consider "unat f < 128" | "128 \<le> unat f \<and> unat f < 192 \<or> 248 \<le> unat f"
    | "192 \<le> unat f" "unat f < 224" | "224 \<le> unat f" "unat f < 240" | "240 \<le> unat f" "unat f < 248"
    by linarith
  then show ?thesis
  proof cases
    case 1
    then show ?thesis by (simp add: lead_tests)
  next
    case 2
    then show ?thesis by (auto simp: lead_tests utf8_lead_cases)
  next
    case 3
    with one[OF _ utf8_lead_cases(1)[OF 3] bits(1), of _ "0x80"] show ?thesis by (auto simp: lead_bits)
  next
    case 4
    with one[OF _ utf8_lead_cases(2)[OF 4] bits(2), of _ "0x800"] show ?thesis by (auto simp: lead_bits)
  next
    case 5
    with one[OF _ utf8_lead_cases(3)[OF 5] bits(3), of _ "0x10000"] show ?thesis by (auto simp: lead_bits)
  qed
qed

lemma block_mod: "0 < d \<Longrightarrow> q * d \<le> n \<Longrightarrow> n < q * d + d \<Longrightarrow> q * d + n mod d = (n :: nat)"
  using block_iff[of d n q] div_mult_mod_eq[of n d] by simp

lemma base64_digits:
  fixes c x y :: nat
  shows "y < 64 \<Longrightarrow> (x * 64 + y) div 64 = x" "y < 64 \<Longrightarrow> (x * 64 + y) mod 64 = y"
    and "c div 4096 = c div 64 div 64" "c div 262144 = c div 64 div 64 div 64"
  by (simp_all add: div_mult2_eq [symmetric])

lemma tag_128: "(128 + x mod 64) mod 64 = x mod (64 :: nat)"
  using base64_digits(2)[of "x mod 64" 2] by simp

lemma tail_value_encoded [simp]:
  "tail_value a (utf8_byte 128 (x mod 64) # bs) = tail_value (a * 64 + x mod 64) bs"
proof -
  have "128 + x mod 64 < 192" using mod_less_divisor[of 64 x] by linarith
  then show ?thesis by (simp add: tag_128)
qed

lemma utf8_accept:
  assumes "n = 1 \<and> 192 \<le> unat f \<and> unat f < 224 \<and> c = unat f mod 32 \<and> 0x80 \<le> c'
       \<or> n = 2 \<and> 224 \<le> unat f \<and> unat f < 240 \<and> c = unat f mod 16 \<and> 0x800 \<le> c'
       \<or> n = 3 \<and> 240 \<le> unat f \<and> unat f < 248 \<and> c = unat f mod 8 \<and> 0x10000 \<le> c'"
    and "length ts = n" "tail_value c ts = Some c'" "scalar_value c'"
  shows "utf8_from (f # ts @ r) \<longleftrightarrow> utf8_from r"
  unfolding utf8_from_value using assms by auto

lemma utf8_encode_accepted:
  assumes "scalar_value c"
  shows "utf8_from (utf8_encode c @ r) = utf8_from r"
proof -
  have max: "c \<le> 0x10FFFF" using assms by (auto simp: scalar_value_def)
  consider "c < 0x80" | "0x80 \<le> c" "c < 0x800" | "0x800 \<le> c" "c < 0x10000" | "0x10000 \<le> c"
    by linarith
  then show ?thesis
  proof cases
    case 1
    then show ?thesis by (simp add: utf8_encode_def lead_tests)
  next
    case 2
    then have q: "c div 64 < 32" by (auto simp: less_mult_imp_div_less)
    have v: "c div 64 * 64 + c mod 64 = c" by (simp only: div_mult_mod_eq)
    have t: "tail_value (c div 64) [utf8_byte 128 (c mod 64)] = Some c"
      by (simp only: tail_value_encoded tail_value.simps(1) v)
    have "utf8_from (utf8_byte 192 (c div 64) # [utf8_byte 128 (c mod 64)] @ r) = utf8_from r"
      by (rule utf8_accept[where c = "c div 64" and c' = c, OF _ refl t assms]) (use 2 q block_mod[of 32 6 "192 + c div 64"] in simp)
    with 2 show ?thesis by (simp add: utf8_encode_def)
  next
    case 3
    then have q: "c div 4096 < 16" by (auto simp: less_mult_imp_div_less)
    have v: "(c div 4096 * 64 + c div 64 mod 64) * 64 + c mod 64 = c"
      by (simp only: base64_digits(3) div_mult_mod_eq)
    have t: "tail_value (c div 4096) [utf8_byte 128 (c div 64 mod 64), utf8_byte 128 (c mod 64)] = Some c"
      by (simp only: tail_value_encoded tail_value.simps(1) v)
    have "utf8_from (utf8_byte 224 (c div 4096) # [utf8_byte 128 (c div 64 mod 64), utf8_byte 128 (c mod 64)] @ r)
        = utf8_from r"
      by (rule utf8_accept[where c = "c div 4096" and c' = c, OF _ refl t assms])
        (use 3 q block_mod[of 16 14 "224 + c div 4096"] in simp)
    with 3 show ?thesis by (simp add: utf8_encode_def)
  next
    case 4
    then have q: "c div 262144 < 8" using max by (auto simp: less_mult_imp_div_less)
    have v: "((c div 262144 * 64 + c div 4096 mod 64) * 64 + c div 64 mod 64) * 64 + c mod 64 = c"
      by (simp only: base64_digits(3,4) div_mult_mod_eq)
    have t: "tail_value (c div 262144) [utf8_byte 128 (c div 4096 mod 64),
        utf8_byte 128 (c div 64 mod 64), utf8_byte 128 (c mod 64)] = Some c"
      by (simp only: tail_value_encoded tail_value.simps(1) v)
    have "utf8_from (utf8_byte 240 (c div 262144) # [utf8_byte 128 (c div 4096 mod 64),
        utf8_byte 128 (c div 64 mod 64), utf8_byte 128 (c mod 64)] @ r) = utf8_from r"
      by (rule utf8_accept[where c = "c div 262144" and c' = c, OF _ refl t assms])
        (use 4 q block_mod[of 8 30 "240 + c div 262144"] in simp)
    with 4 show ?thesis by (simp add: utf8_encode_def)
  qed
qed

lemma continuation_byte:
  "128 \<le> unat (b :: byte) \<Longrightarrow> unat b < 192 \<Longrightarrow> utf8_byte 128 (unat b mod 64) = b"
  by (rule utf8_byte_eqI [symmetric]) (use block_mod[of 64 2 "unat b"] in simp)

lemma utf8_step_decoded:
  assumes "utf8_from (f # bs)"
  shows "\<exists>c r. scalar_value c \<and> f # bs = utf8_encode c @ r \<and> utf8_from r"
proof (cases "unat f < 128")
  case True
  then have "scalar_value (unat f)" "utf8_encode (unat f) = [f]"
    by (simp_all add: scalar_value_def utf8_encode_def utf8_byte_def)
  moreover have "utf8_from bs" using assms True by (simp add: lead_tests)
  ultimately show ?thesis by (intro exI[of _ "unat f"] exI[of _ bs]) simp
next
  case False
  then obtain n c c' where n:
    "n = 1 \<and> 192 \<le> unat f \<and> unat f < 224 \<and> c = unat f mod 32 \<and> 0x80 \<le> c'
       \<or> n = 2 \<and> 224 \<le> unat f \<and> unat f < 240 \<and> c = unat f mod 16 \<and> 0x800 \<le> c'
       \<or> n = 3 \<and> 240 \<le> unat f \<and> unat f < 248 \<and> c = unat f mod 8 \<and> 0x10000 \<le> c'"
    "n \<le> length bs" "tail_value c (take n bs) = Some c'" "scalar_value c'" "utf8_from (drop n bs)"
    using assms unfolding utf8_from_value by auto
  have "f # take n bs = utf8_encode c'"
    using n(1)
  proof (elim disjE conjE)
    assume h: "n = 1" "192 \<le> unat f" "unat f < 224" "c = unat f mod 32" "0x80 \<le> c'"
    obtain b1 where bs: "take n bs = [b1]" using n(2) h(1) by (cases bs) auto
    have b1: "128 \<le> unat b1" "unat b1 < 192" and c': "c' = unat f mod 32 * 64 + unat b1 mod 64"
      using n(3) bs h(4) by (auto split: if_splits)
    have "c' div 64 = unat f mod 32" "c' mod 64 = unat b1 mod 64"
      unfolding c' by (simp_all only: base64_digits(1,2) mod_less_divisor zero_less_numeral)
    moreover have "c' < 0x800" using calculation(1) by (simp add: div_less_iff_less_mult [symmetric])
    moreover have "f = utf8_byte 192 (unat f mod 32)"
      by (rule utf8_byte_eqI) (use h block_mod[of 32 6 "unat f"] in simp)
    ultimately show ?thesis
      unfolding bs utf8_encode_def using h(5) continuation_byte[OF b1] by simp
  next
    assume h: "n = 2" "224 \<le> unat f" "unat f < 240" "c = unat f mod 16" "0x800 \<le> c'"
    obtain b1 b2 where bs: "take n bs = [b1, b2]"
      using n(2) h(1) by (cases bs; cases "tl bs") (auto simp: numeral_2_eq_2)
    have b: "128 \<le> unat b1" "unat b1 < 192" "128 \<le> unat b2" "unat b2 < 192"
      and c': "c' = (unat f mod 16 * 64 + unat b1 mod 64) * 64 + unat b2 mod 64"
      using n(3) bs h(4) by (auto split: if_splits)
    have d: "c' div 4096 = unat f mod 16" "c' div 64 mod 64 = unat b1 mod 64"
      "c' mod 64 = unat b2 mod 64"
      unfolding c' base64_digits(3)
      by (simp_all only: base64_digits(1,2) mod_less_divisor zero_less_numeral)
    moreover have "c' < 0x10000" using d(1) by (simp add: div_less_iff_less_mult [symmetric])
    moreover have "f = utf8_byte 224 (unat f mod 16)"
      by (rule utf8_byte_eqI) (use h block_mod[of 16 14 "unat f"] in simp)
    ultimately show ?thesis
      unfolding bs utf8_encode_def
      using h(5) continuation_byte[OF b(1,2)] continuation_byte[OF b(3,4)] by simp
  next
    assume h: "n = 3" "240 \<le> unat f" "unat f < 248" "c = unat f mod 8" "0x10000 \<le> c'"
    obtain b1 b2 b3 where bs: "take n bs = [b1, b2, b3]"
      using n(2) h(1) by (cases bs; cases "tl bs"; cases "tl (tl bs)") (auto simp: numeral_3_eq_3)
    have b: "128 \<le> unat b1" "unat b1 < 192" "128 \<le> unat b2" "unat b2 < 192"
      "128 \<le> unat b3" "unat b3 < 192"
      and c': "c' = ((unat f mod 8 * 64 + unat b1 mod 64) * 64 + unat b2 mod 64) * 64 + unat b3 mod 64"
      using n(3) bs h(4) by (auto split: if_splits)
    have "c' div 262144 = unat f mod 8" "c' div 4096 mod 64 = unat b1 mod 64"
      "c' div 64 mod 64 = unat b2 mod 64" "c' mod 64 = unat b3 mod 64"
      unfolding c' base64_digits(3,4)
      by (simp_all only: base64_digits(1,2) mod_less_divisor zero_less_numeral)
    moreover have "f = utf8_byte 240 (unat f mod 8)"
      by (rule utf8_byte_eqI) (use h block_mod[of 8 30 "unat f"] in simp)
    ultimately show ?thesis
      unfolding bs utf8_encode_def
      using h(5) continuation_byte[OF b(1,2)] continuation_byte[OF b(3,4)] continuation_byte[OF b(5,6)]
      by simp
  qed
  then show ?thesis
    using n(4,5) append_take_drop_id[of n bs]
    by (intro exI[of _ c'] exI[of _ "drop n bs"]) (metis append_Cons)
qed

lemma utf8_encode_nonempty [simp]: "utf8_encode c \<noteq> []"
  by (simp add: utf8_encode_def)

lemma utf8_from_iff:
  "utf8_from bs \<longleftrightarrow> (\<exists>cs. list_all scalar_value cs \<and> bs = concat (map utf8_encode cs))"
proof
  show "utf8_from bs \<Longrightarrow> \<exists>cs. list_all scalar_value cs \<and> bs = concat (map utf8_encode cs)"
  proof (induction "length bs" arbitrary: bs rule: less_induct)
    case less
    show ?case
    proof (cases bs)
      case Nil
      then show ?thesis by (intro exI[of _ "[]"]) simp
    next
      case (Cons f bs')
      then obtain c r where c: "scalar_value c" "bs = utf8_encode c @ r" "utf8_from r"
        using utf8_step_decoded less.prems by blast
      then have "length r < length bs" by simp
      with less.hyps c(3) obtain cs where "list_all scalar_value cs" "r = concat (map utf8_encode cs)"
        by blast
      with c show ?thesis by (intro exI[of _ "c # cs"]) simp
    qed
  qed
  show "\<exists>cs. list_all scalar_value cs \<and> bs = concat (map utf8_encode cs) \<Longrightarrow> utf8_from bs"
  proof (elim exE conjE)
    fix cs assume "list_all scalar_value cs" "bs = concat (map utf8_encode cs)"
    then show "utf8_from bs"
      by (induction cs arbitrary: bs) (simp_all add: utf8_encode_accepted)
  qed
qed

section \<open>Properties\<close>

text \<open>
  C7: \<open>isValidUtf8\<close> decides UTF-8: it accepts a string exactly when its bytes are the
  shortest-form encodings of a sequence of Unicode scalar values. Overlong forms, surrogates,
  values beyond \<open>0x10ffff\<close>, stray continuation bytes and truncated sequences are rejected,
  and nothing valid is.
\<close>

theorem isValidUtf8_decides:
  "isValidUtf8 value \<longleftrightarrow>
     (\<exists>cs. list_all scalar_value cs \<and> string_bytes value = concat (map utf8_encode cs))"
  unfolding isValidUtf8_def by (rule utf8_from_iff)

end
