(* ===== verification/Byte_Readers.thy ===== *)
theory Byte_Readers
  imports OC_Prelude
begin

text \<open>
  Readers of binary data, as the descriptor parser of the Linux controller and the \<open>Reader\<close> class
  of the Windows client are written: a reader takes the data and the offset and returns the
  value and the new offset, or the exception thrown. The locales state a reader as a codec: it
  reads back what the encoding of an admissible value wrote, wherever in the data it stands,
  and whatever it returns is admissible and stands encoded at the place it was read from.
\<close>

section \<open>Readers\<close>

type_synonym ('e, 'a) reader = "bytes \<Rightarrow> nat \<Rightarrow> 'e + 'a \<times> nat"

text \<open>The next reader goes on at the offset the last one left; an exception ends it all.\<close>

definition followed_by :: "('e, 'a) reader \<Rightarrow> ('a \<Rightarrow> ('e, 'b) reader) \<Rightarrow> ('e, 'b) reader" where
  "followed_by get k data offset =
     (case get data offset of Inl e \<Rightarrow> Inl e | Inr (x, offset') \<Rightarrow> k x data offset')"

definition throw :: "'e \<Rightarrow> ('e, 'a) reader" where
  "throw e data offset = Inl e"

definition return :: "'a \<Rightarrow> ('e, 'a) reader" where
  "return x data offset = Inr (x, offset)"

text \<open>A \<open>for\<close> loop over an item reader, pushing each item on the vector.\<close>

fun read_items :: "('e, 'a) reader \<Rightarrow> nat \<Rightarrow> ('e, 'a list) reader" where
  "read_items get 0 = return []"
| "read_items get (Suc n) =
     followed_by get (\<lambda>x. followed_by (read_items get n) (\<lambda>xs. return (x # xs)))"

section \<open>Readers as codecs\<close>

locale codec =
  fixes get :: "('e, 'a) reader" and put :: "'a \<Rightarrow> bytes" and ok :: "'a \<Rightarrow> bool"
  assumes get_put: "ok x \<Longrightarrow> get (pre @ put x @ post) (length pre) = Inr (x, length pre + length (put x))"
    and get_sound: "off \<le> length data \<Longrightarrow> get data off = Inr (x, off') \<Longrightarrow>
      ok x \<and> off' \<le> length data \<and> take off' data = take off data @ put x"
begin

lemma items_put:
  "list_all ok xs \<Longrightarrow> read_items get (length xs) (pre @ concat (map put xs) @ post) (length pre)
     = Inr (xs, length pre + length (concat (map put xs)))"
proof (induction xs arbitrary: pre)
  case Nil
  then show ?case by (simp add: return_def)
next
  case (Cons x xs)
  have one: "get (pre @ put x @ concat (map put xs) @ post) (length pre)
      = Inr (x, length pre + length (put x))"
    using Cons.prems by (intro get_put) simp
  have rest: "read_items get (length xs) (pre @ put x @ concat (map put xs) @ post)
      (length pre + length (put x)) = Inr (xs, length pre + length (put x) + length (concat (map put xs)))"
    using Cons.IH[of "pre @ put x"] Cons.prems by simp
  show ?case using one rest by (simp add: followed_by_def return_def)
qed

lemma items_sound:
  "off \<le> length data \<Longrightarrow> read_items get n data off = Inr (xs, off') \<Longrightarrow>
     length xs = n \<and> list_all ok xs \<and> off' \<le> length data
     \<and> take off' data = take off data @ concat (map put xs)"
proof (induction n arbitrary: off xs)
  case 0
  then show ?case by (auto simp: return_def)
next
  case (Suc n)
  then obtain x off1 ys where one: "get data off = Inr (x, off1)"
    and rest: "read_items get n data off1 = Inr (ys, off')" and xs: "xs = x # ys"
    by (auto simp: followed_by_def return_def split: sum.splits prod.splits)
  note g = get_sound[OF Suc.prems(1) one]
  with Suc.IH[OF _ rest] xs show ?case by simp
qed

lemma prefix_free:
  assumes "ok x" "ok y" "put x @ r = put y @ r'"
  shows "x = y \<and> r = r'"
  using get_put[OF assms(1), of "[]" r] get_put[OF assms(2), of "[]" r'] assms(3) by simp

lemma followed_put:
  "ok x \<Longrightarrow> followed_by get k (pre @ put x @ post) (length pre)
     = k x (pre @ put x @ post) (length pre + length (put x))"
  by (simp add: followed_by_def get_put)

lemma followed_sound:
  assumes "followed_by get k data off = Inr (y, off')" "off \<le> length data"
  obtains x off1 where "ok x" "off1 \<le> length data" "take off1 data = take off data @ put x"
    "k x data off1 = Inr (y, off')"
proof -
  obtain x off1 where g: "get data off = Inr (x, off1)" and "k x data off1 = Inr (y, off')"
    using assms(1) by (auto simp: followed_by_def split: sum.splits)
  with get_sound[OF assms(2) g] that show thesis by blast
qed

end

text \<open>
  A codec of a stream that may still grow: unless it found the data incomplete, more data at the
  end changes nothing.
\<close>

locale stream_codec = codec get put ok for get :: "('e, 'a) reader" and put ok +
  fixes incomplete :: 'e
  assumes extend: "off \<le> length data \<Longrightarrow> get data off \<noteq> Inl incomplete \<Longrightarrow> get (data @ more) off = get data off"
begin

lemma followed_extend:
  assumes "off \<le> length data" "followed_by get k data off \<noteq> Inl incomplete"
    and k: "\<And>x off1. ok x \<Longrightarrow> off1 \<le> length data \<Longrightarrow> k x data off1 \<noteq> Inl incomplete \<Longrightarrow>
      k x (data @ more) off1 = k x data off1"
  shows "followed_by get k (data @ more) off = followed_by get k data off"
proof (cases "get data off")
  case (Inl e)
  with assms(1,2) extend[of off data] show ?thesis by (auto simp: followed_by_def)
next
  case (Inr p)
  obtain x off1 where p: "p = (x, off1)" by (cases p)
  note s = get_sound[OF assms(1) Inr[unfolded p]]
  have "k x data off1 \<noteq> Inl incomplete" using assms(2) Inr p by (simp add: followed_by_def)
  then have "k x (data @ more) off1 = k x data off1" using k s by blast
  moreover have "get (data @ more) off = get data off" using Inr by (intro extend[OF assms(1)]) simp
  ultimately show ?thesis using Inr p by (simp add: followed_by_def)
qed

lemma shorter_incomplete:
  assumes "ok x" "n < length (put x)"
  shows "get (take n (put x)) 0 = Inl incomplete"
proof (rule ccontr)
  assume c: "get (take n (put x)) 0 \<noteq> Inl incomplete"
  have "get (take n (put x) @ drop n (put x)) 0 = get (take n (put x)) 0" by (rule extend[OF _ c]) simp
  moreover have "get (put x) 0 = Inr (x, length (put x))" using get_put[OF assms(1), of "[]" "[]"] by simp
  ultimately have "get (take n (put x)) 0 = Inr (x, length (put x))" by simp
  from get_sound[OF _ this] assms(2) show False by simp
qed

end

section \<open>Two-byte numbers\<close>

lemma be_word_2: "(push_bit 8 (ucast (a :: byte)) OR ucast (b :: byte) :: 16 word) = be_word [a, b]"
  by (simp add: be_word_def)

lemma unat_u16: "n < 65536 \<Longrightarrow> unat (word_of_nat n :: 16 word) = n"
  by (simp add: unat_of_nat)

section \<open>Counted lists\<close>

text \<open>A count, checked against a limit, and that many items.\<close>

definition read_counted ::
  "('e, 16 word) reader \<Rightarrow> 16 word \<Rightarrow> 'e \<Rightarrow> ('e, 'a) reader \<Rightarrow> ('e, 'a list) reader" where
  "read_counted count_get limit e get =
     followed_by count_get (\<lambda>count. if count > limit then throw e else read_items get (unat count))"

definition putItems :: "('a \<Rightarrow> bytes) \<Rightarrow> 'a list \<Rightarrow> bytes" where
  "putItems put xs = be_bytes 2 (word_of_nat (length xs) :: 16 word) @ concat (map put xs)"

text \<open>A codec of the count and one of the items give a codec of counted lists of such items.\<close>

locale counted_codec = item: codec get put ok
  + count: codec count_get "be_bytes 2 :: 16 word \<Rightarrow> bytes" "\<lambda>_. True"
  for get :: "('e, 'a) reader" and put ok and count_get :: "('e, 16 word) reader" +
  fixes limit :: "16 word" and excess :: 'e

sublocale counted_codec \<subseteq> counted: codec "read_counted count_get limit excess get" "putItems put"
  "\<lambda>xs. list_all ok xs \<and> length xs \<le> unat limit"
proof unfold_locales
  fix xs pre post
  assume xs: "list_all ok xs \<and> length xs \<le> unat limit"
  moreover have "unat limit < 65536" using unsigned_less[of limit] by simp
  ultimately have n: "unat (word_of_nat (length xs) :: 16 word) = length xs"
    by (intro unat_u16) simp
  with xs have "\<not> (word_of_nat (length xs) :: 16 word) > limit" by (simp add: word_less_nat_alt)
  then show "read_counted count_get limit excess get (pre @ putItems put xs @ post) (length pre)
      = Inr (xs, length pre + length (putItems put xs))"
    using xs n item.items_put[of xs "pre @ be_bytes 2 (word_of_nat (length xs) :: 16 word)" post]
    by (simp add: read_counted_def putItems_def
        count.followed_put[where x = "word_of_nat (length xs)" and post = "concat (map put xs) @ post"])
next
  fix off data xs off'
  assume off: "off \<le> length data" and r: "read_counted count_get limit excess get data off = Inr (xs, off')"
  obtain n off1 where n: "off1 \<le> length data" "take off1 data = take off data @ be_bytes 2 n"
    and k: "n \<le> limit" "read_items get (unat n) data off1 = Inr (xs, off')"
    by (rule count.followed_sound[OF r[unfolded read_counted_def] off])
      (auto simp: throw_def split: if_splits)
  note it = item.items_sound[OF n(1) k(2)]
  then have "putItems put xs = be_bytes 2 n @ concat (map put xs)" by (auto simp: putItems_def)
  with it n k show "(list_all ok xs \<and> length xs \<le> unat limit) \<and> off' \<le> length data
      \<and> take off' data = take off data @ putItems put xs"
    by (simp add: word_le_nat_alt)
qed

end
