(* ===== verification/Device_Descriptor.thy ===== *)
theory Device_Descriptor
  imports Utf8 Byte_Readers
begin

text \<open>
  The device descriptor parser of \<open>linux/src/device_descriptor.cpp\<close>. The lemmas
  state each of its readers as a codec in the sense of \<open>Byte_Readers\<close>.
\<close>

section \<open>Limits, data and errors\<close>

definition MAX_DESCRIPTOR_SIZE :: nat where "MAX_DESCRIPTOR_SIZE = 64 * 1024"
definition MAX_STRING_SIZE :: "16 word" where "MAX_STRING_SIZE = 2048"
definition MAX_RESOLUTIONS :: "16 word" where "MAX_RESOLUTIONS = 128"
definition MAX_FILTERS :: "16 word" where "MAX_FILTERS = 128"
definition MAX_DIMENSION :: "16 word" where "MAX_DIMENSION = 8192"

record Resolution =
  width :: "16 word"
  height :: "16 word"

record Filter =
  filter_name :: string
  category :: byte

record DeviceDescriptor =
  name :: string
  rtspUrl :: string
  frontResolutions :: "Resolution list"
  backResolutions :: "Resolution list"
  filters :: "Filter list"

datatype descriptor_error =
  Descriptor_exceeds_limit
| End_of_data_uint16
| String_exceeds_limit
| End_of_data_string
| Invalid_UTF8
| Control_character
| Too_many_resolutions
| Resolution_out_of_range
| Too_many_filters
| End_of_data_category
| Unknown_category
| Required_field_empty
| Trailing_data

section \<open>The readers\<close>

definition readUint16 :: "(descriptor_error, 16 word) reader" where
  "readUint16 data offset =
     (if offset + 2 > length data then Inl End_of_data_uint16
      else Inr (push_bit 8 (ucast (data ! offset)) OR ucast (data ! (offset + 1)), offset + 2))"

definition has_control_character :: "string \<Rightarrow> bool" where
  "has_control_character value \<longleftrightarrow>
     list_ex (\<lambda>c. byte_of_char c < 0x20 \<or> byte_of_char c = 0x7F) value"

definition readString :: "(descriptor_error, string) reader" where
  "readString = followed_by readUint16 (\<lambda>n data offset.
     if n > MAX_STRING_SIZE then Inl String_exceeds_limit
     else if offset + unat n > length data then Inl End_of_data_string
     else
       let value = bytes_string (take (unat n) (drop offset data))
       in if \<not> isValidUtf8 value then Inl Invalid_UTF8
          else if has_control_character value then Inl Control_character
          else Inr (value, offset + unat n))"

definition readResolution :: "(descriptor_error, Resolution) reader" where
  "readResolution =
     followed_by readUint16 (\<lambda>w. followed_by readUint16 (\<lambda>h.
       if w = 0 \<or> h = 0 \<or> w > MAX_DIMENSION \<or> h > MAX_DIMENSION then throw Resolution_out_of_range
       else return \<lparr>width = w, height = h\<rparr>))"

definition readResolutions :: "(descriptor_error, Resolution list) reader" where
  "readResolutions =
     followed_by readUint16 (\<lambda>count.
       if count > MAX_RESOLUTIONS then throw Too_many_resolutions
       else read_items readResolution (unat count))"

definition readFilter :: "(descriptor_error, Filter) reader" where
  "readFilter =
     followed_by readString (\<lambda>nm data offset.
       if offset \<ge> length data then Inl End_of_data_category
       else
         let cat = data ! offset
         in if cat > 4 then Inl Unknown_category
            else Inr (\<lparr>filter_name = nm, category = cat\<rparr>, offset + 1))"

definition readFilters :: "(descriptor_error, Filter list) reader" where
  "readFilters =
     followed_by readUint16 (\<lambda>count.
       if count > MAX_FILTERS then throw Too_many_filters
       else read_items readFilter (unat count))"

definition readDescriptor :: "(descriptor_error, DeviceDescriptor) reader" where
  "readDescriptor =
     followed_by readString (\<lambda>nm. followed_by readString (\<lambda>url.
       if nm = [] \<or> url = [] then throw Required_field_empty
       else followed_by readResolutions (\<lambda>front. followed_by readResolutions (\<lambda>back.
         followed_by readFilters (\<lambda>fs.
           return \<lparr>name = nm, rtspUrl = url, frontResolutions = front, backResolutions = back,
             filters = fs\<rparr>)))))"

definition parseDeviceDescriptor :: "bytes \<Rightarrow> descriptor_error + DeviceDescriptor" where
  "parseDeviceDescriptor data =
     (if length data > MAX_DESCRIPTOR_SIZE then Inl Descriptor_exceeds_limit
      else case readDescriptor data 0 of
        Inl e \<Rightarrow> Inl e
      | Inr (descriptor, offset) \<Rightarrow>
          if offset \<noteq> length data then Inl Trailing_data else Inr descriptor)"

section \<open>The encoding\<close>

definition putString :: "string \<Rightarrow> bytes" where
  "putString s = be_bytes 2 (word_of_nat (length s) :: 16 word) @ string_bytes s"

definition putResolution :: "Resolution \<Rightarrow> bytes" where
  "putResolution r = be_bytes 2 (width r) @ be_bytes 2 (height r)"

definition putFilter :: "Filter \<Rightarrow> bytes" where
  "putFilter f = putString (filter_name f) @ [category f]"

definition putDescriptor :: "DeviceDescriptor \<Rightarrow> bytes" where
  "putDescriptor d = putString (name d) @ putString (rtspUrl d)
     @ putItems putResolution (frontResolutions d) @ putItems putResolution (backResolutions d)
     @ putItems putFilter (filters d)"

text \<open>The admissible values.\<close>

definition string_ok :: "string \<Rightarrow> bool" where
  "string_ok s \<longleftrightarrow> length s \<le> 2048 \<and> isValidUtf8 s \<and> \<not> has_control_character s"

definition resolution_ok :: "Resolution \<Rightarrow> bool" where
  "resolution_ok r \<longleftrightarrow> 0 < width r \<and> width r \<le> 8192 \<and> 0 < height r \<and> height r \<le> 8192"

definition filter_ok :: "Filter \<Rightarrow> bool" where
  "filter_ok f \<longleftrightarrow> string_ok (filter_name f) \<and> category f \<le> 4"

definition descriptor_ok :: "DeviceDescriptor \<Rightarrow> bool" where
  "descriptor_ok d \<longleftrightarrow> string_ok (name d) \<and> name d \<noteq> [] \<and> string_ok (rtspUrl d) \<and> rtspUrl d \<noteq> []
     \<and> list_all resolution_ok (frontResolutions d) \<and> length (frontResolutions d) \<le> 128
     \<and> list_all resolution_ok (backResolutions d) \<and> length (backResolutions d) \<le> 128
     \<and> list_all filter_ok (filters d) \<and> length (filters d) \<le> 128"

text \<open>The readers of the two-byte number and of a string.\<close>

lemma readUint16_alt:
  "readUint16 data off =
     (if off + 2 > length data then Inl End_of_data_uint16
      else Inr (be_word (take 2 (drop off data)), off + 2))"
proof (cases "off + 2 > length data")
  case False
  then have "take 2 (drop off data) = [data ! off, data ! (off + 1)]"
    by (simp add: numeral_2_eq_2 Cons_nth_drop_Suc [symmetric])
  with False show ?thesis by (simp add: readUint16_def be_word_2)
qed (simp add: readUint16_def)

interpretation u16: codec readUint16 "be_bytes 2" "\<lambda>_. True"
proof unfold_locales
  fix x :: "16 word" and pre post
  show "readUint16 (pre @ be_bytes 2 x @ post) (length pre) = Inr (x, length pre + length (be_bytes 2 x))"
    by (simp add: readUint16_alt be_word_be_bytes)
next
  fix off data x off'
  assume "off \<le> length data" "readUint16 data off = Inr (x, off')"
  then have off': "off' = off + 2" "off' \<le> length data" and x: "x = be_word (take 2 (drop off data))"
    by (auto simp: readUint16_alt split: if_splits)
  then have "be_bytes 2 x = take 2 (drop off data)" by (simp add: be_bytes_be_word)
  then show "True \<and> off' \<le> length data \<and> take off' data = take off data @ be_bytes 2 x"
    using off' take_add[of off 2 data] by simp
qed

interpretation str: codec readString putString string_ok
proof unfold_locales
  fix s pre post
  assume ok: "string_ok s"
  then have n: "unat (word_of_nat (length s) :: 16 word) = length s"
    by (intro unat_u16) (simp add: string_ok_def)
  have "\<not> (word_of_nat (length s) :: 16 word) > MAX_STRING_SIZE"
    using ok n by (simp add: word_less_nat_alt MAX_STRING_SIZE_def string_ok_def)
  then show "readString (pre @ putString s @ post) (length pre) = Inr (s, length pre + length (putString s))"
    using ok n
    by (simp add: readString_def putString_def string_ok_def
        u16.followed_put[where x = "word_of_nat (length s)" and post = "string_bytes s @ post"])
next
  fix off data s off'
  assume off: "off \<le> length data" and r: "readString data off = Inr (s, off')"
  obtain n off1 where n: "off1 \<le> length data" "take off1 data = take off data @ be_bytes 2 n"
    and k: "n \<le> MAX_STRING_SIZE" "off1 + unat n \<le> length data"
      "s = bytes_string (take (unat n) (drop off1 data))" "isValidUtf8 s" "\<not> has_control_character s"
      "off' = off1 + unat n"
    by (rule u16.followed_sound[OF r[unfolded readString_def] off])
      (auto simp: Let_def split: if_splits)
  have len: "length s = unat n" using k by simp
  have "string_ok s"
    using k len by (simp add: string_ok_def MAX_STRING_SIZE_def word_le_nat_alt)
  moreover have "putString s = be_bytes 2 n @ take (unat n) (drop off1 data)"
    using k len by (simp add: putString_def)
  ultimately show "string_ok s \<and> off' \<le> length data \<and> take off' data = take off data @ putString s"
    using k n by (simp add: take_add)
qed

interpretation res: counted_codec readResolution putResolution resolution_ok readUint16 MAX_RESOLUTIONS
  Too_many_resolutions
proof unfold_locales
  fix r pre post
  assume "resolution_ok r"
  then show "readResolution (pre @ putResolution r @ post) (length pre)
      = Inr (r, length pre + length (putResolution r))"
    by (simp add: u16.followed_put[where x = "height r" and pre = "pre @ be_bytes 2 (width r)"
          and post = post, simplified] u16.followed_put[where x = "width r" and post = "be_bytes 2 (height r) @ post"]
        readResolution_def putResolution_def return_def resolution_ok_def
        MAX_DIMENSION_def leD word_gt_0)
next
  fix off data r off'
  assume off: "off \<le> length data" and r: "readResolution data off = Inr (r, off')"
  obtain w off1 where w: "off1 \<le> length data" "take off1 data = take off data @ be_bytes 2 w"
    and r1: "followed_by readUint16 (\<lambda>h. if w = 0 \<or> h = 0 \<or> w > MAX_DIMENSION \<or> h > MAX_DIMENSION
       then throw Resolution_out_of_range else return \<lparr>width = w, height = h\<rparr>) data off1 = Inr (r, off')"
    by (rule u16.followed_sound[OF r[unfolded readResolution_def] off])
  obtain h off2 where h: "off2 \<le> length data" "take off2 data = take off1 data @ be_bytes 2 h"
    and "(if w = 0 \<or> h = 0 \<or> w > MAX_DIMENSION \<or> h > MAX_DIMENSION
       then throw Resolution_out_of_range else return \<lparr>width = w, height = h\<rparr>) data off2 = Inr (r, off')"
    by (rule u16.followed_sound[OF r1 w(1)])
  then have k: "w \<noteq> 0" "h \<noteq> 0" "w \<le> MAX_DIMENSION" "h \<le> MAX_DIMENSION"
    "r = \<lparr>width = w, height = h\<rparr>" "off' = off2"
    by (auto simp: throw_def return_def split: if_splits)
  with w h show "resolution_ok r \<and> off' \<le> length data \<and> take off' data = take off data @ putResolution r"
    by (simp add: putResolution_def resolution_ok_def MAX_DIMENSION_def word_gt_0)
qed

interpretation fil: counted_codec readFilter putFilter filter_ok readUint16 MAX_FILTERS Too_many_filters
proof unfold_locales
  fix f pre post
  assume "filter_ok f"
  then show "readFilter (pre @ putFilter f @ post) (length pre) = Inr (f, length pre + length (putFilter f))"
    by (simp add: readFilter_def putFilter_def filter_ok_def nth_append Let_def not_less
        str.followed_put[where x = "filter_name f" and post = "category f # post"])
next
  fix off data f off'
  assume off: "off \<le> length data" and r: "readFilter data off = Inr (f, off')"
  obtain nm off1 where nm: "string_ok nm" "off1 \<le> length data" "take off1 data = take off data @ putString nm"
    and k: "off1 < length data" "data ! off1 \<le> 4"
      "f = \<lparr>filter_name = nm, category = data ! off1\<rparr>" "off' = off1 + 1"
    by (rule str.followed_sound[OF r[unfolded readFilter_def] off])
      (auto simp: Let_def split: if_splits)
  then show "filter_ok f \<and> off' \<le> length data \<and> take off' data = take off data @ putFilter f"
    by (simp add: filter_ok_def putFilter_def take_Suc_conv_app_nth)
qed

lemma counted_readers:
  "readResolutions = read_counted readUint16 MAX_RESOLUTIONS Too_many_resolutions readResolution"
  "readFilters = read_counted readUint16 MAX_FILTERS Too_many_filters readFilter"
  by (simp_all add: readResolutions_def readFilters_def read_counted_def)

section \<open>The whole descriptor\<close>

lemma readDescriptor_put:
  assumes "descriptor_ok d"
  shows "readDescriptor (pre @ putDescriptor d @ post) (length pre)
    = Inr (d, length pre + length (putDescriptor d))"
proof -
  let ?nm = "putString (name d)" and ?url = "putString (rtspUrl d)"
    and ?fr = "putItems putResolution (frontResolutions d)"
    and ?bk = "putItems putResolution (backResolutions d)"
    and ?fl = "putItems putFilter (filters d)"
  have front: "list_all resolution_ok (frontResolutions d) \<and> length (frontResolutions d) \<le> unat MAX_RESOLUTIONS"
    and bk: "list_all resolution_ok (backResolutions d) \<and> length (backResolutions d) \<le> unat MAX_RESOLUTIONS"
    and fl: "list_all filter_ok (filters d) \<and> length (filters d) \<le> unat MAX_FILTERS"
    and nm: "string_ok (name d)" "name d \<noteq> []" and url: "string_ok (rtspUrl d)" "rtspUrl d \<noteq> []"
    using assms by (simp_all add: descriptor_ok_def MAX_RESOLUTIONS_def MAX_FILTERS_def)
  note steps = str.followed_put[OF nm(1), where pre = pre and post = "?url @ ?fr @ ?bk @ ?fl @ post", simplified]
    str.followed_put[OF url(1), where pre = "pre @ ?nm" and post = "?fr @ ?bk @ ?fl @ post", simplified]
    res.counted.followed_put[OF front, where pre = "pre @ ?nm @ ?url" and post = "?bk @ ?fl @ post", simplified]
    res.counted.followed_put[OF bk, where pre = "pre @ ?nm @ ?url @ ?fr" and post = "?fl @ post", simplified]
    fil.counted.followed_put[OF fl, where pre = "pre @ ?nm @ ?url @ ?fr @ ?bk" and post = post, simplified]
  show ?thesis
    using nm(2) url(2)
    by (simp add: readDescriptor_def counted_readers putDescriptor_def steps return_def add.assoc)
qed

lemma readDescriptor_sound:
  assumes "readDescriptor data start = Inr (d, off)" "start \<le> length data"
  shows "descriptor_ok d" "off \<le> length data" "take off data = take start data @ putDescriptor d"
proof -
  obtain nm o1 where nm: "string_ok nm" "o1 \<le> length data" "take o1 data = take start data @ putString nm"
    and r1: "followed_by readString (\<lambda>url. if nm = [] \<or> url = [] then throw Required_field_empty
       else followed_by readResolutions (\<lambda>front. followed_by readResolutions (\<lambda>bs.
         followed_by readFilters (\<lambda>fs. return \<lparr>name = nm, rtspUrl = url, frontResolutions = front,
           backResolutions = bs, filters = fs\<rparr>)))) data o1 = Inr (d, off)"
    by (rule str.followed_sound[OF assms(1)[unfolded readDescriptor_def] assms(2)])
  obtain url o2 where url: "string_ok url" "o2 \<le> length data" "take o2 data = take o1 data @ putString url"
    and ne: "nm \<noteq> []" "url \<noteq> []"
    and r2: "followed_by readResolutions (\<lambda>front. followed_by readResolutions (\<lambda>bs.
         followed_by readFilters (\<lambda>fs. return \<lparr>name = nm, rtspUrl = url, frontResolutions = front,
           backResolutions = bs, filters = fs\<rparr>))) data o2 = Inr (d, off)"
    by (rule str.followed_sound[OF r1 nm(2)]) (auto simp: throw_def split: if_splits)
  obtain front o3 where front: "list_all resolution_ok front \<and> length front \<le> unat MAX_RESOLUTIONS"
      "o3 \<le> length data" "take o3 data = take o2 data @ putItems putResolution front"
    and r3: "followed_by readResolutions (\<lambda>bs.
         followed_by readFilters (\<lambda>fs. return \<lparr>name = nm, rtspUrl = url, frontResolutions = front,
           backResolutions = bs, filters = fs\<rparr>)) data o3 = Inr (d, off)"
    by (rule res.counted.followed_sound[OF r2[unfolded counted_readers(1)] url(2), folded counted_readers(1)])
  obtain bs o4 where bk: "list_all resolution_ok bs \<and> length bs \<le> unat MAX_RESOLUTIONS"
      "o4 \<le> length data" "take o4 data = take o3 data @ putItems putResolution bs"
    and r4: "followed_by readFilters (\<lambda>fs. return \<lparr>name = nm, rtspUrl = url, frontResolutions = front,
           backResolutions = bs, filters = fs\<rparr>) data o4 = Inr (d, off)"
    by (rule res.counted.followed_sound[OF r3[unfolded counted_readers(1)] front(2)])
  obtain fs o5 where fs: "list_all filter_ok fs \<and> length fs \<le> unat MAX_FILTERS"
      "o5 \<le> length data" "take o5 data = take o4 data @ putItems putFilter fs"
    and d: "d = \<lparr>name = nm, rtspUrl = url, frontResolutions = front, backResolutions = bs, filters = fs\<rparr>"
      "off = o5"
    by (rule fil.counted.followed_sound[OF r4[unfolded counted_readers(2)] bk(2)])
      (auto simp: return_def)
  show "descriptor_ok d"
    using nm url ne front bk fs
    by (simp add: d descriptor_ok_def MAX_RESOLUTIONS_def MAX_FILTERS_def)
  show "off \<le> length data" using fs d by simp
  show "take off data = take start data @ putDescriptor d"
    using nm url front bk fs by (simp add: d putDescriptor_def)
qed

interpretation desc: codec readDescriptor putDescriptor descriptor_ok
proof unfold_locales
  fix off data d off'
  assume "off \<le> length data" "readDescriptor data off = Inr (d, off')"
  from readDescriptor_sound[OF this(2,1)]
  show "descriptor_ok d \<and> off' \<le> length data \<and> take off' data = take off data @ putDescriptor d"
    by blast
qed (rule readDescriptor_put)

lemma parseDeviceDescriptor_iff:
  "parseDeviceDescriptor data = Inr d \<longleftrightarrow>
     descriptor_ok d \<and> data = putDescriptor d \<and> length data \<le> 65536"
proof
  assume p: "parseDeviceDescriptor data = Inr d"
  then have r: "readDescriptor data 0 = Inr (d, length data)" and "length data \<le> 65536"
    by (auto simp: parseDeviceDescriptor_def MAX_DESCRIPTOR_SIZE_def split: if_splits sum.splits)
  then show "descriptor_ok d \<and> data = putDescriptor d \<and> length data \<le> 65536"
    using desc.get_sound[OF _ r] by simp
next
  assume "descriptor_ok d \<and> data = putDescriptor d \<and> length data \<le> 65536"
  then show "parseDeviceDescriptor data = Inr d"
    using desc.get_put[of d "[]" "[]"]
    by (auto simp: parseDeviceDescriptor_def MAX_DESCRIPTOR_SIZE_def)
qed

lemma parse_longer:
  assumes "descriptor_ok d" "extra \<noteq> []" "length (putDescriptor d @ extra) \<le> 65536"
  shows "parseDeviceDescriptor (putDescriptor d @ extra) = Inl Trailing_data"
  using assms desc.get_put[of d "[]" extra]
  by (simp add: parseDeviceDescriptor_def MAX_DESCRIPTOR_SIZE_def)

lemma parse_shorter:
  assumes "descriptor_ok d" "k < length (putDescriptor d)"
  shows "\<exists>e. parseDeviceDescriptor (take k (putDescriptor d)) = Inl e"
proof (cases "parseDeviceDescriptor (take k (putDescriptor d))")
  case (Inr d')
  then have d': "descriptor_ok d'" "putDescriptor d' = take k (putDescriptor d)"
    by (simp_all add: parseDeviceDescriptor_iff)
  then have "putDescriptor d' @ drop k (putDescriptor d) = putDescriptor d @ []" by simp
  from desc.prefix_free[OF d'(1) assms(1) this] assms(2) show ?thesis by simp
qed simp

section \<open>Properties\<close>

text \<open>
  C6: The descriptor parser accepts exactly the encodings of admissible descriptors, and
  returns the descriptor encoded: a name and an address that are not empty, strings of at most
  2048 bytes of valid UTF-8 without control characters, at most 128 resolutions a camera and
  128 filters, dimensions in 1..8192, categories in 0..4, at most 65536 bytes and not one left over.
  Everything else ends in one of the parser's exceptions.
\<close>

theorem parseDeviceDescriptor_exact:
  "parseDeviceDescriptor data = Inr d \<longleftrightarrow>
     descriptor_ok d \<and> data = putDescriptor d \<and> length data \<le> 65536"
  by (rule parseDeviceDescriptor_iff)

text \<open>
  A descriptor is accepted at its exact length only: followed by further bytes it is rejected
  as having trailing data (as long as the protocol limit is kept), and cut short anywhere it is
  rejected too.
\<close>

theorem parseDeviceDescriptor_exact_length:
  assumes "descriptor_ok d"
  shows "(extra \<noteq> [] \<and> length (putDescriptor d) + length extra \<le> 65536 \<longrightarrow>
            parseDeviceDescriptor (putDescriptor d @ extra) = Inl Trailing_data)
       \<and> (k < length (putDescriptor d) \<longrightarrow>
            (\<exists>e. parseDeviceDescriptor (take k (putDescriptor d)) = Inl e))"
  using parse_longer[OF assms] parse_shorter[OF assms] by simp

definition demo_descriptor :: DeviceDescriptor where
  "demo_descriptor = \<lparr>name = ''Phone'', rtspUrl = ''rtsp://10.0.0.2:8554/cam'',
     frontResolutions = [\<lparr>width = 1280, height = 720\<rparr>], backResolutions = [],
     filters = [\<lparr>filter_name = ''Sepia'', category = 2\<rparr>]\<rparr>"

lemma demo_descriptor_ok: "descriptor_ok demo_descriptor"
  by code_simp

lemma parseDeviceDescriptor_exact_length_witness:
  "parseDeviceDescriptor (putDescriptor demo_descriptor @ [0]) = Inl Trailing_data
   \<and> (\<exists>e. parseDeviceDescriptor (take 11 (putDescriptor demo_descriptor)) = Inl e)"
proof -
  have n: "length (putDescriptor demo_descriptor) = 51" by code_simp
  show ?thesis
    using parseDeviceDescriptor_exact_length[OF demo_descriptor_ok, of "[0]" 11] by (simp add: n)
qed

end
