(* ===== verification/Stream_Options.thy ===== *)
theory Stream_Options
  imports Utf8
begin

text \<open>
  The activation packet: \<open>buildActivationPacket\<close> of \<open>linux/src/stream_options.cpp\<close>, and the
  reader it is written for, \<open>StreamOptions.deserialize\<close> of the Android application. The
  filter table of the application is a parameter of the reader: \<open>table nm\<close> is the category
  of the filter called \<open>nm\<close>, or \<open>None\<close> when there is none; a filter of the table can be created.
\<close>

section \<open>The writer\<close>

record StreamOptions =
  fps :: "32 word"
  opt_width :: "32 word"
  opt_height :: "32 word"
  camera :: "32 word"
  adaptiveBitrate :: bool
  bitrate :: "32 word"
  minBitrate :: "32 word"
  maxBitrate :: "32 word"
  stabilization :: bool
  flash :: bool
  h265 :: bool
  focusMode :: "32 word"

definition default_options :: StreamOptions where
  "default_options = \<lparr>fps = 30, opt_width = 640, opt_height = 480, camera = 1,
     adaptiveBitrate = False, bitrate = 4096000, minBitrate = 512000, maxBitrate = 25600000,
     stabilization = False, flash = False, h265 = False, focusMode = 0\<rparr>"

definition writeInt32 :: "bytes \<Rightarrow> 32 word \<Rightarrow> bytes" where
  "writeInt32 buffer v =
     buffer @ [ucast (drop_bit 24 v AND 0xFF), ucast (drop_bit 16 v AND 0xFF),
               ucast (drop_bit 8 v AND 0xFF), ucast (v AND 0xFF)]"

definition writeBool :: "bytes \<Rightarrow> bool \<Rightarrow> bytes" where
  "writeBool buffer b = buffer @ [if b then 1 else 0]"

definition writeUint16 :: "bytes \<Rightarrow> 16 word \<Rightarrow> bytes" where
  "writeUint16 buffer v = buffer @ [ucast (drop_bit 8 v AND 0xFF), ucast (v AND 0xFF)]"

definition buildActivationPacket :: "StreamOptions \<Rightarrow> bytes" where
  "buildActivationPacket opts =
     (let p = [];
          p = writeInt32 p (fps opts);
          p = writeInt32 p (opt_width opts);
          p = writeInt32 p (opt_height opts);
          p = writeInt32 p (camera opts);
          p = writeBool p (adaptiveBitrate opts);
          p = writeInt32 p (bitrate opts);
          p = writeInt32 p (minBitrate opts);
          p = writeInt32 p (maxBitrate opts);
          p = writeBool p (stabilization opts);
          p = writeBool p (flash opts);
          p = writeBool p (h265 opts);
          p = writeInt32 p (focusMode opts);
          p = writeUint16 p 0;
          p = writeUint16 p 0
      in p)"

section \<open>The reader\<close>

datatype filter_category = NONE | CORRECTION | EFFECT | DISTORTION | ARTISTIC

datatype activation_error =
  Invalid_activation_size | Truncated_fields | Invalid_camera | Truncated_boolean | Invalid_boolean
| FPS_out_of_range | Options_resolution_out_of_range | Invalid_bitrate | Invalid_focus_mode
| Missing_filter_count | Excess_filters | Truncated_string | Invalid_string_length | Malformed_string
| Truncated_filter_value | Invalid_adjustment | Unknown_filter | Not_a_correction_filter
| Trailing_bytes | Not_an_effect_filter | Buffer_underflow

text \<open>A reader takes the rest of the buffer and returns a value and what is left then.\<close>

type_synonym 'a take = "bytes \<Rightarrow> activation_error + 'a \<times> bytes"

definition and_then :: "'a take \<Rightarrow> ('a \<Rightarrow> 'b take) \<Rightarrow> 'b take" where
  "and_then get k buf = (case get buf of Inl e \<Rightarrow> Inl e | Inr (x, rest) \<Rightarrow> k x rest)"

definition yields :: "'a \<Rightarrow> 'a take" where
  "yields x buf = Inr (x, buf)"

definition require :: "activation_error \<Rightarrow> bool \<Rightarrow> 'a take \<Rightarrow> 'a take" where
  "require e b k buf = (if b then k buf else Inl e)"

definition require_left :: "activation_error \<Rightarrow> nat \<Rightarrow> 'a take \<Rightarrow> 'a take" where
  "require_left e n k buf = (if n \<le> length buf then k buf else Inl e)"

definition getInt :: "(32 word) take" where
  "getInt buf = (if length buf < 4 then Inl Buffer_underflow else Inr (be_word (take 4 buf), drop 4 buf))"

definition getShort :: "(16 word) take" where
  "getShort buf = (if length buf < 2 then Inl Buffer_underflow else Inr (be_word (take 2 buf), drop 2 buf))"

definition getBytes :: "nat \<Rightarrow> bytes take" where
  "getBytes n buf = (if length buf < n then Inl Buffer_underflow else Inr (take n buf, drop n buf))"

definition getString :: "string take" where
  "getString = require_left Truncated_string 2 (and_then getShort (\<lambda>n.
     require Invalid_string_length (unat n \<le> 128) (require_left Invalid_string_length (unat n)
       (and_then (getBytes (unat n)) (\<lambda>bs. require Malformed_string (utf8_from bs)
         (yields (bytes_string bs)))))))"

definition getBool :: "bool take" where
  "getBool buf =
     (case buf of
        [] \<Rightarrow> Inl Truncated_boolean
      | b # rest \<Rightarrow> if b = 0 then Inr (False, rest) else if b = 1 then Inr (True, rest)
                    else Inl Invalid_boolean)"

type_synonym filter_table = "string \<Rightarrow> filter_category option"

fun getFilters :: "filter_table \<Rightarrow> nat \<Rightarrow> (string \<times> int) list take" where
  "getFilters table 0 = yields []"
| "getFilters table (Suc n) = and_then getString (\<lambda>nm.
     require_left Truncated_filter_value 4 (and_then getInt (\<lambda>v.
       require Invalid_adjustment (-100 \<le> sint v \<and> sint v \<le> 100)
         (require Unknown_filter (table nm \<noteq> None)
           (require Not_a_correction_filter (table nm = Some CORRECTION)
             (and_then (getFilters table n) (\<lambda>fs. yields ((nm, sint v) # fs))))))))"

definition getEffect :: "filter_table \<Rightarrow> string option take" where
  "getEffect table = and_then getString (\<lambda>nm buf.
     if buf \<noteq> [] then Inl Trailing_bytes
     else if nm = [] then Inr (None, buf)
     else if table nm \<noteq> Some EFFECT then Inl Not_an_effect_filter
     else Inr (Some nm, buf))"

record received_options =
  options :: StreamOptions
  corrections :: "(string \<times> int) list"
  active_effect :: "string option"

definition getOptions :: "StreamOptions take" where
  "getOptions =
     and_then getInt (\<lambda>f. and_then getInt (\<lambda>w. and_then getInt (\<lambda>h. and_then getInt (\<lambda>cam.
     require Invalid_camera (0 \<le> sint cam \<and> sint cam \<le> 1) (
     and_then getBool (\<lambda>adaptive.
     and_then getInt (\<lambda>br. and_then getInt (\<lambda>mn. and_then getInt (\<lambda>mx.
     and_then getBool (\<lambda>stab. and_then getBool (\<lambda>fl. and_then getBool (\<lambda>hevc.
     and_then getInt (\<lambda>focus.
     require FPS_out_of_range (1 \<le> sint f \<and> sint f \<le> 60) (
     require Options_resolution_out_of_range
       (160 \<le> sint w \<and> sint w \<le> 8192 \<and> 160 \<le> sint h \<and> sint h \<le> 8192 \<and> sint w * sint h \<le> 16777216) (
     require Invalid_bitrate
       (64000 \<le> sint br \<and> sint br \<le> 50000000 \<and> 64000 \<le> sint mn \<and> sint mn \<le> 50000000
        \<and> 64000 \<le> sint mx \<and> sint mx \<le> 50000000 \<and> sint mn \<le> sint mx) (
     require Invalid_focus_mode (0 \<le> sint focus \<and> sint focus \<le> 1) (
     yields \<lparr>fps = f, opt_width = w, opt_height = h, camera = cam, adaptiveBitrate = adaptive,
       bitrate = br, minBitrate = mn, maxBitrate = mx, stabilization = stab, flash = fl,
       h265 = hevc, focusMode = focus\<rparr>)))))))))))))))))"

definition deserialize :: "filter_table \<Rightarrow> bytes \<Rightarrow> activation_error + received_options" where
  "deserialize table data =
     (if \<not> (40 \<le> length data \<and> length data \<le> 65536) then Inl Invalid_activation_size
      else map_sum id fst (require_left Truncated_fields 36
        (and_then getOptions (\<lambda>opts.
         require_left Missing_filter_count 2 (and_then getShort (\<lambda>n.
         require Excess_filters (unat n \<le> 128) (and_then (getFilters table (unat n)) (\<lambda>fs.
         and_then (getEffect table) (\<lambda>eff.
         yields \<lparr>options = opts, corrections = fs, active_effect = eff\<rparr>))))))) data))"

section \<open>The two agree\<close>

definition fixed_fields :: "StreamOptions \<Rightarrow> bytes" where
  "fixed_fields opts =
     be_bytes 4 (fps opts) @ be_bytes 4 (opt_width opts) @ be_bytes 4 (opt_height opts)
     @ be_bytes 4 (camera opts) @ [if adaptiveBitrate opts then 1 else 0]
     @ be_bytes 4 (bitrate opts) @ be_bytes 4 (minBitrate opts) @ be_bytes 4 (maxBitrate opts)
     @ [if stabilization opts then 1 else 0] @ [if flash opts then 1 else 0] @ [if h265 opts then 1 else 0]
     @ be_bytes 4 (focusMode opts)"

lemma length_fixed_fields [simp]: "length (fixed_fields opts) = 36"
  by (simp add: fixed_fields_def)

lemma packet_fields:
  "buildActivationPacket opts = fixed_fields opts @ be_bytes 2 (0 :: 16 word) @ be_bytes 2 (0 :: 16 word)"
  unfolding buildActivationPacket_def Let_def fixed_fields_def
  by (simp only: writeInt32_def writeBool_def writeUint16_def ucast_and_255 be_bytes_4 be_bytes_2
      append_assoc append_Nil append_Cons)

lemma length_packet: "length (buildActivationPacket opts) = 40"
  by (simp add: packet_fields)

lemma getInt_put [simp]: "and_then getInt k (be_bytes 4 v @ rest) = k v rest"
  by (simp add: and_then_def getInt_def be_word_be_bytes)

lemma getShort_put [simp]: "and_then getShort k (be_bytes 2 v @ rest) = k v rest"
  "and_then getShort k (be_bytes 2 v) = k v []"
  by (simp_all add: and_then_def getShort_def be_word_be_bytes)

lemma getBool_put [simp]: "and_then getBool k ((if b then 1 else 0) # rest) = k b rest"
  by (simp add: and_then_def getBool_def)

definition options_ok :: "StreamOptions \<Rightarrow> bool" where
  "options_ok opts \<longleftrightarrow>
     0 \<le> sint (camera opts) \<and> sint (camera opts) \<le> 1
   \<and> 1 \<le> sint (fps opts) \<and> sint (fps opts) \<le> 60
   \<and> 160 \<le> sint (opt_width opts) \<and> sint (opt_width opts) \<le> 8192
   \<and> 160 \<le> sint (opt_height opts) \<and> sint (opt_height opts) \<le> 8192
   \<and> sint (opt_width opts) * sint (opt_height opts) \<le> 16777216
   \<and> 64000 \<le> sint (bitrate opts) \<and> sint (bitrate opts) \<le> 50000000
   \<and> 64000 \<le> sint (minBitrate opts) \<and> sint (minBitrate opts) \<le> sint (maxBitrate opts)
   \<and> sint (maxBitrate opts) \<le> 50000000
   \<and> 0 \<le> sint (focusMode opts) \<and> sint (focusMode opts) \<le> 1"

lemma getOptions_fields:
  "options_ok opts \<Longrightarrow> getOptions (fixed_fields opts @ rest) = Inr (opts, rest)"
  "\<not> options_ok opts \<Longrightarrow> \<exists>e. getOptions (fixed_fields opts @ rest) = Inl e"
  by (auto simp: fixed_fields_def getOptions_def require_def yields_def options_ok_def)

lemma getOptions_put:
  "options_ok opts \<Longrightarrow> and_then getOptions k (fixed_fields opts @ rest) = k opts rest"
  by (simp add: and_then_def getOptions_fields(1))

lemma no_effect: "getEffect table (be_bytes 2 (0 :: 16 word)) = Inr (None, [])"
  by (simp add: getEffect_def getString_def require_left_def require_def and_then_def getShort_def
      getBytes_def yields_def be_word_be_bytes bytes_string_def)

lemma deserialize_packet:
  "deserialize table (buildActivationPacket opts) = Inr r \<longleftrightarrow>
     options_ok opts \<and> r = \<lparr>options = opts, corrections = [], active_effect = None\<rparr>"
proof (cases "options_ok opts")
  case True
  then show ?thesis
    by (auto simp: deserialize_def packet_fields getOptions_put require_left_def require_def and_then_def[of "getEffect table"]
        and_then_def[of "yields []"] no_effect yields_def)
next
  case False
  then obtain e where "getOptions (fixed_fields opts @ be_bytes 2 (0 :: 16 word) @ be_bytes 2 (0 :: 16 word)) = Inl e"
    using getOptions_fields(2) by blast
  with False show ?thesis
    by (simp add: deserialize_def packet_fields require_left_def and_then_def[of getOptions])
qed

section \<open>Properties\<close>

text \<open>
  C9: The activation packet is what the Android reader expects: for every setting of the options
  the packet is 40 bytes long, the reader accepts it exactly when the options are in the ranges
  the reader enforces, and then it recovers every option, with no correction filters and no
  effect, whatever its filter table holds.
\<close>

theorem activation_round_trip:
  "length (buildActivationPacket opts) = 40
   \<and> (deserialize table (buildActivationPacket opts) = Inr r \<longleftrightarrow>
        options_ok opts \<and> r = \<lparr>options = opts, corrections = [], active_effect = None\<rparr>)"
  using length_packet deserialize_packet by blast

text \<open>
  The options the controller starts every stream with, the defaults of its
  \<open>StreamOptions\<close>, are accepted by the Android reader.
\<close>

theorem default_activation_accepted:
  "deserialize table (buildActivationPacket default_options)
     = Inr \<lparr>options = default_options, corrections = [], active_effect = None\<rparr>"
proof -
  have "options_ok default_options" by code_simp
  then show ?thesis using deserialize_packet by blast
qed

end
