(* ===== verification/Rtsp_Endpoint.thy ===== *)
theory Rtsp_Endpoint
  imports OC_Prelude
begin

text \<open>
  \<open>isAllowedRtspEndpoint\<close> of \<open>linux/src/security_validation.cpp\<close>, and the construction of the
  address with credentials in \<open>handleClient\<close> (\<open>linux/src/main.cpp\<close>). \<open>inet_pton\<close> is a
  parameter: whether the C library reads a C string as an IPv4 address. A \<open>c_str()\<close> passed to
  it ends at the first NUL character.
\<close>

definition is_hex_lower :: "char \<Rightarrow> bool" where
  "is_hex_lower c \<longleftrightarrow> CHR ''0'' \<le> c \<and> c \<le> CHR ''9'' \<or> CHR ''a'' \<le> c \<and> c \<le> CHR ''f''"

definition c_str :: "string \<Rightarrow> string" where
  "c_str s = takeWhile (\<lambda>c. c \<noteq> CHR 0x00) s"

text \<open>The checks on what follows the scheme.\<close>

definition endpoint_allowed :: "(string \<Rightarrow> bool) \<Rightarrow> string \<Rightarrow> string \<Rightarrow> bool" where
  "endpoint_allowed inet_pton endpoint peerIp =
     (case find_first (\<lambda>c. c = CHR ''/'') endpoint of
        None \<Rightarrow> False
      | Some slash \<Rightarrow>
          let path = drop slash endpoint
          in if length path \<noteq> 38 \<or> \<not> prefix ''/live/'' path then False
             else if \<not> list_all is_hex_lower (drop 6 path) then False
             else
               let authority = take slash endpoint
               in if CHR ''@'' \<in> set authority \<or> CHR ''?'' \<in> set authority \<or> CHR ''#'' \<in> set authority
                  then False
                  else case find_last (\<lambda>c. c = CHR '':'') authority of
                    None \<Rightarrow> False
                  | Some colon \<Rightarrow>
                      if drop (colon + 1) authority \<noteq> ''8554'' then False
                      else
                        let host = take colon authority
                        in inet_pton (c_str host) \<and> host = peerIp)"

definition isAllowedRtspEndpoint :: "(string \<Rightarrow> bool) \<Rightarrow> string \<Rightarrow> string \<Rightarrow> bool" where
  "isAllowedRtspEndpoint inet_pton url peerIp =
     (if prefix ''rtsps://'' url then endpoint_allowed inet_pton (drop 8 url) peerIp
      else if prefix ''rtsp://'' url then endpoint_allowed inet_pton (drop 7 url) peerIp
      else False)"

text \<open>What is relied on of \<open>inet_pton(AF_INET, ...)\<close>: it reads digits and dots only.\<close>

definition inet_pton_lawful :: "(string \<Rightarrow> bool) \<Rightarrow> bool" where
  "inet_pton_lawful inet_pton \<longleftrightarrow> (\<forall>h. inet_pton h \<longrightarrow> set h \<subseteq> set ''0123456789.'')"

definition token_ok :: "string \<Rightarrow> bool" where
  "token_ok t \<longleftrightarrow> length t = 32 \<and> list_all is_hex_lower t"

lemma c_str_id: "CHR 0x00 \<notin> set s \<Longrightarrow> c_str s = s"
  by (simp add: c_str_def takeWhile_eq_all_conv) blast

lemma token_no_slash: "token_ok t \<Longrightarrow> CHR ''/'' \<notin> set t"
  by (auto simp: token_ok_def list_all_iff is_hex_lower_def less_eq_char_def)

lemma live_path_iff:
  "length path = 38 \<and> prefix ''/live/'' path \<and> list_all is_hex_lower (drop 6 path)
     \<longleftrightarrow> (\<exists>t. path = ''/live/'' @ t \<and> token_ok t)"
  by (auto simp: prefix_def token_ok_def)

lemma endpoint_parts:
  assumes "CHR ''/'' \<notin> set a"
  shows "find_first (\<lambda>c. c = CHR ''/'') (a @ ''/live/'' @ t) = Some (length a)"
  using find_first_append[of a "\<lambda>c. c = CHR ''/''" "CHR ''/''" "''live/'' @ t"] assms by auto

lemma authority_parts:
  "find_last (\<lambda>c. c = CHR '':'') (h @ '':8554'') = Some (length h)"
  using find_last_append[of "''8554''" "\<lambda>c. c = CHR '':''" "CHR '':''" h] by simp

lemma endpoint_allowed_iff:
  assumes law: "inet_pton_lawful inet_pton" and peer: "CHR 0x00 \<notin> set peerIp"
  shows "endpoint_allowed inet_pton e peerIp \<longleftrightarrow>
    inet_pton peerIp \<and> (\<exists>t. token_ok t \<and> e = peerIp @ '':8554/live/'' @ t)"
proof
  assume a: "endpoint_allowed inet_pton e peerIp"
  obtain slash colon where slash: "find_first (\<lambda>c. c = CHR ''/'') e = Some slash"
    and path: "length (drop slash e) = 38 \<and> prefix ''/live/'' (drop slash e)
      \<and> list_all is_hex_lower (drop 6 (drop slash e))"
    and colon: "find_last (\<lambda>c. c = CHR '':'') (take slash e) = Some colon"
    and port: "drop (colon + 1) (take slash e) = ''8554''"
    and host: "inet_pton (c_str (take colon (take slash e)))" "take colon (take slash e) = peerIp"
    using a unfolding endpoint_allowed_def Let_def checks by blast
  obtain t where t: "drop slash e = ''/live/'' @ t" "token_ok t"
    using path unfolding live_path_iff by blast
  have "take slash e = peerIp @ CHR '':'' # ''8554''"
    using find_last_Some(2,4)[OF colon] port host(2) by simp
  with t have "e = peerIp @ '':8554/live/'' @ t"
    using append_take_drop_id[of slash e] by simp
  then show "inet_pton peerIp \<and> (\<exists>t. token_ok t \<and> e = peerIp @ '':8554/live/'' @ t)"
    using host t(2) peer by (auto simp: c_str_id)
next
  assume "inet_pton peerIp \<and> (\<exists>t. token_ok t \<and> e = peerIp @ '':8554/live/'' @ t)"
  then obtain t where ok: "inet_pton peerIp" and t: "token_ok t" and e: "e = peerIp @ '':8554/live/'' @ t"
    by blast
  have "set peerIp \<subseteq> set ''0123456789.''" using law ok by (simp add: inet_pton_lawful_def)
  then have plain: "CHR ''/'' \<notin> set peerIp" "CHR ''@'' \<notin> set peerIp" "CHR ''?'' \<notin> set peerIp"
    "CHR ''#'' \<notin> set peerIp" by auto
  have slash: "find_first (\<lambda>c. c = CHR ''/'') e = Some (length (peerIp @ '':8554''))"
    using endpoint_parts[of "peerIp @ '':8554''" t] plain e by simp
  have parts: "take (length (peerIp @ '':8554'')) e = peerIp @ '':8554''"
    "drop (length (peerIp @ '':8554'')) e = ''/live/'' @ t" by (simp_all add: e)
  have live: "length (''/live/'' @ t) = 38 \<and> prefix ''/live/'' (''/live/'' @ t)
      \<and> list_all is_hex_lower (drop 6 (''/live/'' @ t))"
    unfolding live_path_iff using t by blast
  show "endpoint_allowed inet_pton e peerIp"
    unfolding endpoint_allowed_def slash option.case Let_def parts authority_parts
    using live plain ok peer by (simp add: c_str_id)
qed

lemma isAllowedRtspEndpoint_iff:
  assumes "inet_pton_lawful inet_pton" "CHR 0x00 \<notin> set peerIp"
  shows "isAllowedRtspEndpoint inet_pton url peerIp \<longleftrightarrow>
    inet_pton peerIp \<and> (\<exists>scheme t. (scheme = ''rtsp://'' \<or> scheme = ''rtsps://'') \<and> token_ok t
      \<and> url = scheme @ peerIp @ '':8554/live/'' @ t)"
  by (auto simp: isAllowedRtspEndpoint_def endpoint_allowed_iff[OF assms] prefix_def)

section \<open>The address with credentials\<close>

definition authenticated_url :: "string \<Rightarrow> string \<Rightarrow> string" where
  "authenticated_url mediaPassword rtspUrl = ''rtsp://opencam:'' @ mediaPassword @ ''@'' @ drop 7 rtspUrl"

lemma authenticated_url_schemes:
  "authenticated_url pw (''rtsp://'' @ rest) = ''rtsp://opencam:'' @ pw @ ''@'' @ rest"
  "authenticated_url pw (''rtsps://'' @ rest) = ''rtsp://opencam:'' @ pw @ ''@/'' @ rest"
  by (simp_all add: authenticated_url_def)

section \<open>Properties\<close>

definition demo_ip :: string where "demo_ip = ''10.0.0.2''"

definition demo_token :: string where "demo_token = ''0123456789abcdef0123456789abcdef''"

lemma demo_inet_lawful: "inet_pton_lawful (\<lambda>h. h = demo_ip)"
  by (simp add: inet_pton_lawful_def demo_ip_def)

lemma demo_endpoint: "token_ok demo_token" "CHR 0x00 \<notin> set demo_ip"
  by (simp_all add: token_ok_def demo_token_def demo_ip_def is_hex_lower_def less_eq_char_def)

text \<open>
  C8: The media address check accepts exactly the addresses of the peer itself: the scheme
  \<open>rtsp://\<close> or \<open>rtsps://\<close>, the very address the control connection came from, port 8554 and
  \<open>/live/\<close> with a token of 32 lower-case hexadecimal digits. No user info, query, fragment,
  other host, other port or longer path passes.
\<close>

theorem isAllowedRtspEndpoint_exact:
  assumes "inet_pton_lawful inet_pton" "CHR 0x00 \<notin> set peerIp"
  shows "isAllowedRtspEndpoint inet_pton url peerIp \<longleftrightarrow>
    inet_pton peerIp \<and> (\<exists>scheme t. (scheme = ''rtsp://'' \<or> scheme = ''rtsps://'')
      \<and> length t = 32 \<and> list_all is_hex_lower t \<and> url = scheme @ peerIp @ '':8554/live/'' @ t)"
  using isAllowedRtspEndpoint_iff[OF assms] unfolding token_ok_def by blast

lemma isAllowedRtspEndpoint_exact_witness:
  "isAllowedRtspEndpoint (\<lambda>h. h = demo_ip) (''rtsp://'' @ demo_ip @ '':8554/live/'' @ demo_token) demo_ip
   \<and> \<not> isAllowedRtspEndpoint (\<lambda>h. h = demo_ip) ''rtsp://10.0.0.3:8554/live/0'' demo_ip"
proof
  note exact = isAllowedRtspEndpoint_exact[OF demo_inet_lawful demo_endpoint(2)]
  show "isAllowedRtspEndpoint (\<lambda>h. h = demo_ip) (''rtsp://'' @ demo_ip @ '':8554/live/'' @ demo_token) demo_ip"
    using demo_endpoint(1) unfolding exact token_ok_def by blast
  show "\<not> isAllowedRtspEndpoint (\<lambda>h. h = demo_ip) ''rtsp://10.0.0.3:8554/live/0'' demo_ip"
    unfolding exact by (auto simp: demo_ip_def)
qed

text \<open>
  Where the credentials go. From an accepted \<open>rtsp://\<close> address the controller builds the
  same address with \<open>opencam\<close> and the media password as its user info. From an accepted
  \<open>rtsps://\<close> address it cuts one character too few: the result is a plain \<open>rtsp://\<close> address
  whose host is empty, with the peer's address in its path.
\<close>

theorem authenticated_url_of_allowed:
  assumes "inet_pton_lawful inet_pton" "CHR 0x00 \<notin> set peerIp"
    and "isAllowedRtspEndpoint inet_pton url peerIp"
  shows "\<exists>t. length t = 32 \<and> authenticated_url pw url =
    (if prefix ''rtsps://'' url then ''rtsp://opencam:'' @ pw @ ''@/'' @ peerIp @ '':8554/live/'' @ t
     else ''rtsp://opencam:'' @ pw @ ''@'' @ peerIp @ '':8554/live/'' @ t)"
proof -
  obtain scheme t where "scheme = ''rtsp://'' \<or> scheme = ''rtsps://''" "length t = 32"
    "url = scheme @ peerIp @ '':8554/live/'' @ t"
    using assms(3) unfolding isAllowedRtspEndpoint_iff[OF assms(1,2)] token_ok_def by blast
  then show ?thesis by (auto simp: authenticated_url_def)
qed

lemma authenticated_url_of_allowed_witness:
  "authenticated_url ''pw'' (''rtsps://'' @ demo_ip @ '':8554/live/'' @ demo_token)
     = ''rtsp://opencam:pw@/10.0.0.2:8554/live/'' @ demo_token"
proof -
  have "isAllowedRtspEndpoint (\<lambda>h. h = demo_ip) (''rtsps://'' @ demo_ip @ '':8554/live/'' @ demo_token) demo_ip"
    unfolding isAllowedRtspEndpoint_iff[OF demo_inet_lawful demo_endpoint(2)]
    using demo_endpoint(1) by blast
  from authenticated_url_of_allowed[OF demo_inet_lawful demo_endpoint(2) this, of "''pw''"]
  show ?thesis by (simp add: demo_ip_def authenticated_url_def)
qed

end
