(* ===== verification/Linux_Host.thy ===== *)
theory Linux_Host
  imports Socket_IO
begin

text \<open>
  The parts of the Linux controller that ask the host: \<open>getLocalIpAddress\<close> (\<open>network.cpp\<close>),
  \<open>displayPairingQr\<close> (\<open>qr.cpp\<close>), \<open>findOpenCamDevice\<close> and \<open>loadV4L2Loopback\<close>
  (\<open>v4l2_device.cpp\<close>), and \<open>runProbe\<close> and \<open>waitForRtsp\<close> (\<open>rtsp_probe.cpp\<close>). What the host
  answers (interface lists, directory entries, the results of system calls and of FFmpeg) is
  an argument; the decisions taken on it are the code's.
\<close>

section \<open>The local address\<close>

datatype sockaddr = Inet "32 word" | Other_family

record iface =
  ifa_addr :: "sockaddr option"
  iff_up :: bool
  iff_loopback :: bool

record network_host =
  route_socket :: bool
  route_connect :: bool
  route_local :: "32 word option"
  interfaces :: "iface list option"

definition INADDR_LOOPBACK :: "32 word" where "INADDR_LOOPBACK = 0x7F000001"

text \<open>The tests in the loop over the interfaces.\<close>

definition usable_address :: "iface \<Rightarrow> 32 word option" where
  "usable_address i =
     (case ifa_addr i of
        None \<Rightarrow> None
      | Some sa \<Rightarrow>
          if \<not> iff_up i \<or> iff_loopback i then None
          else (case sa of
              Other_family \<Rightarrow> None
            | Inet a \<Rightarrow> if a = INADDR_LOOPBACK \<or> drop_bit 24 a = 169 then None else Some a))"

fun first_usable :: "(32 word \<Rightarrow> string option) \<Rightarrow> iface list \<Rightarrow> string" where
  "first_usable inet_ntop [] = []"
| "first_usable inet_ntop (i # is) =
     (case usable_address i of
        None \<Rightarrow> first_usable inet_ntop is
      | Some a \<Rightarrow> (case inet_ntop a of Some s \<Rightarrow> s | None \<Rightarrow> first_usable inet_ntop is))"

definition routed_address :: "(32 word \<Rightarrow> string option) \<Rightarrow> network_host \<Rightarrow> string option" where
  "routed_address inet_ntop h =
     (if route_socket h \<and> route_connect h
      then (case route_local h of None \<Rightarrow> None | Some a \<Rightarrow> inet_ntop a)
      else None)"

definition getLocalIpAddress :: "(32 word \<Rightarrow> string option) \<Rightarrow> network_host \<Rightarrow> string" where
  "getLocalIpAddress inet_ntop h =
     (case routed_address inet_ntop h of
        Some s \<Rightarrow> s
      | None \<Rightarrow> (case interfaces h of None \<Rightarrow> [] | Some is \<Rightarrow> first_usable inet_ntop is))"

lemma first_usable_cases:
  "first_usable inet_ntop is \<noteq> [] \<Longrightarrow>
     \<exists>i \<in> set is. \<exists>a. usable_address i = Some a \<and> inet_ntop a = Some (first_usable inet_ntop is)"
  by (induction "is") (auto split: option.splits)

lemma usable_addressD:
  assumes "usable_address i = Some a"
  shows "iff_up i" "\<not> iff_loopback i" "ifa_addr i = Some (Inet a)" "a \<noteq> INADDR_LOOPBACK"
    "drop_bit 24 a \<noteq> 169"
  using assms by (auto simp: usable_address_def split: option.splits if_splits sockaddr.splits)

section \<open>Showing the QR code\<close>

text \<open>
  A \<open>write\<close> to the pipe takes some of the bytes, fails, or, when the child has gone, raises
  \<open>SIGPIPE\<close>, which nothing in the controller handles: the process is gone.
\<close>

datatype pipe_event = Wrote nat | Write_error errno | Broken_pipe

datatype wait_status = Exited nat | Signaled

record qr_host =
  pipe_ok :: bool
  fork_ok :: bool
  writes :: "pipe_event list"
  waited :: "wait_status option"

datatype 'a process = Going 'a | Killed | Stuck

text \<open>
  The write loop: what the child got, and whether all was written. \<open>Stuck\<close> when the script of
  answers ends first, the pipe staying full for ever.
\<close>

fun write_all :: "string \<Rightarrow> pipe_event list \<Rightarrow> (bool \<times> string) process" where
  "write_all [] evs = Going (True, [])"
| "write_all (c # cs) [] = Stuck"
| "write_all (c # cs) (Broken_pipe # evs) = Killed"
| "write_all (c # cs) (Write_error e # evs) =
     (if e = EINTR then write_all (c # cs) evs else Going (False, []))"
| "write_all (c # cs) (Wrote n # evs) =
     (let k = min n (length (c # cs))
      in case write_all (drop k (c # cs)) evs of
           Going (b, got) \<Rightarrow> Going (b, take k (c # cs) @ got)
         | Killed \<Rightarrow> Killed
         | Stuck \<Rightarrow> Stuck)"

definition displayPairingQr :: "string \<Rightarrow> qr_host \<Rightarrow> (bool \<times> string) process" where
  "displayPairingQr pl h =
     (if \<not> pipe_ok h then Going (False, [])
      else if \<not> fork_ok h then Going (False, [])
      else case write_all pl (writes h) of
        Stuck \<Rightarrow> Stuck
      | Killed \<Rightarrow> Killed
      | Going (False, got) \<Rightarrow> Going (False, got)
      | Going (True, got) \<Rightarrow>
          (case waited h of
             None \<Rightarrow> Going (False, got)
           | Some st \<Rightarrow> Going (st = Exited 0, got)))"

lemma write_all_prefix:
  "write_all s evs = Going (b, got) \<Longrightarrow> prefix got s \<and> (b \<longrightarrow> got = s)"
proof (induction s evs arbitrary: got rule: write_all.induct)
  case (5 c cs n evs)
  let ?k = "min n (length (c # cs))"
  from 5(2) obtain g where w: "write_all (drop ?k (c # cs)) evs = Going (b, g)"
    and got: "got = take ?k (c # cs) @ g"
    by (auto simp: Let_def split: process.splits)
  have "prefix g (drop ?k (c # cs)) \<and> (b \<longrightarrow> g = drop ?k (c # cs))" by (rule 5(1)[OF refl w])
  then show ?case
    unfolding got by (metis append_take_drop_id same_prefix_prefix)
qed (auto split: if_splits)

lemma write_all_broken: "s \<noteq> [] \<Longrightarrow> write_all s (Broken_pipe # evs) = Killed"
  by (cases s) auto

section \<open>The virtual camera\<close>

record device_entry =
  entry_name :: string
  is_directory :: bool
  is_symlink :: bool
  name_file :: "string option"

definition getline :: "string \<Rightarrow> string" where
  "getline content = takeWhile (\<lambda>c. c \<noteq> CHR 0x0A) content"

definition is_opencam :: "device_entry \<Rightarrow> bool" where
  "is_opencam e \<longleftrightarrow> (is_directory e \<or> is_symlink e)
     \<and> (case name_file e of None \<Rightarrow> False | Some content \<Rightarrow> getline content = ''OpenCam'')"

fun find_device :: "device_entry list \<Rightarrow> string" where
  "find_device [] = []"
| "find_device (e # es) = (if is_opencam e then ''/dev/'' @ entry_name e else find_device es)"

definition findOpenCamDevice :: "device_entry list option \<Rightarrow> string" where
  "findOpenCamDevice class_dir = (case class_dir of None \<Rightarrow> [] | Some es \<Rightarrow> find_device es)"

definition loadV4L2Loopback :: "(string \<Rightarrow> int) \<Rightarrow> bool" where
  "loadV4L2Loopback system \<longleftrightarrow>
     system ''modprobe v4l2loopback devices=1 card_label=OpenCam exclusive_caps=1'' = 0"

lemma find_device_found:
  "find_device es \<noteq> [] \<Longrightarrow> \<exists>e \<in> set es. is_opencam e \<and> find_device es = ''/dev/'' @ entry_name e"
  by (induction es) auto

lemma find_device_none: "find_device es = [] \<longleftrightarrow> (\<forall>e \<in> set es. \<not> is_opencam e)"
  by (induction es) auto

section \<open>The RTSP probe\<close>

datatype media_type = Video | Other_media

record probe_run =
  network_init :: int
  alloc_ok :: bool
  open_input :: int
  stream_info :: int
  streams :: "media_type list"
  duration :: nat

definition runProbe :: "probe_run \<Rightarrow> bool" where
  "runProbe p =
     (if network_init p < 0 then False
      else if \<not> alloc_ok p then False
      else
        let result = (if open_input p \<ge> 0 then stream_info p else open_input p);
            hasVideo = (0 \<le> result \<and> list_ex (\<lambda>t. t = Video) (streams p))
        in 0 \<le> result \<and> hasVideo)"

definition MAX_ATTEMPTS :: nat where "MAX_ATTEMPTS = 10"
definition RETRY_DELAY_MS :: int where "RETRY_DELAY_MS = 500"

text \<open>
  The retry loop; \<open>probe url attempt\<close> is what the attempt meets. The clock goes on by the
  time each probe takes and by the delay after each failed attempt but the last.
\<close>

function probe_attempts ::
  "(string \<Rightarrow> nat \<Rightarrow> probe_run) \<Rightarrow> string \<Rightarrow> nat \<Rightarrow> int \<Rightarrow> bool \<times> nat \<times> int" where
  "probe_attempts probe url attempt now =
     (if attempt > MAX_ATTEMPTS then (False, attempt - 1, now)
      else
        let p = probe url attempt; now' = now + int (duration p)
        in if runProbe p then (True, attempt, now')
           else probe_attempts probe url (attempt + 1)
                  (if attempt \<noteq> MAX_ATTEMPTS then now' + RETRY_DELAY_MS * ns_per_ms else now'))"
  by pat_completeness auto
termination
  by (relation "measure (\<lambda>(_, _, attempt, _). Suc MAX_ATTEMPTS - attempt)") auto

declare probe_attempts.simps [simp del]

definition waitForRtsp :: "(string \<Rightarrow> nat \<Rightarrow> probe_run) \<Rightarrow> string \<Rightarrow> int \<Rightarrow> bool \<times> int" where
  "waitForRtsp probe url now =
     (case probe_attempts probe url 1 now of (ready, _, now') \<Rightarrow> (ready, now'))"

lemma probe_attempts_found:
  "fst (probe_attempts probe url k now) \<longleftrightarrow> (\<exists>i. k \<le> i \<and> i \<le> MAX_ATTEMPTS \<and> runProbe (probe url i))"
proof (induction probe url k now rule: probe_attempts.induct)
  case (1 probe url attempt now)
  show ?case
  proof (cases "attempt > MAX_ATTEMPTS")
    case True
    then show ?thesis by (subst probe_attempts.simps) auto
  next
    case False
    show ?thesis
    proof (cases "runProbe (probe url attempt)")
      case True
      with False show ?thesis by (subst probe_attempts.simps) (auto simp: Let_def)
    next
      case no: False
      have "(\<exists>i. attempt \<le> i \<and> i \<le> MAX_ATTEMPTS \<and> runProbe (probe url i))
        \<longleftrightarrow> (\<exists>i. attempt + 1 \<le> i \<and> i \<le> MAX_ATTEMPTS \<and> runProbe (probe url i))"
        using no by (metis Suc_eq_plus1 le_neq_implies_less Suc_leI Suc_leD)
      with False no 1 show ?thesis
        by (subst probe_attempts.simps) (simp add: Let_def)
    qed
  qed
qed

lemma probe_attempts_time:
  "probe_attempts pr url k t = (b, n, t') \<Longrightarrow> 1 \<le> k \<Longrightarrow> (\<forall>i. int (duration (pr url i)) \<le> d) \<Longrightarrow>
     t' \<le> t + int (Suc MAX_ATTEMPTS - k) * (d + RETRY_DELAY_MS * ns_per_ms)"
proof (induction pr url k t rule: probe_attempts.induct)
  case (1 pr url k t)
  let ?w = "RETRY_DELAY_MS * ns_per_ms"
  have w: "0 \<le> ?w" by (simp add: RETRY_DELAY_MS_def ns_per_ms_def)
  have d: "int (duration (pr url k)) \<le> d" using 1(4) by blast
  then have d0: "0 \<le> d" by simp
  show ?case
  proof (cases "k > MAX_ATTEMPTS")
    case True
    with 1(2) show ?thesis by (subst (asm) probe_attempts.simps) simp
  next
    case False
    then have split: "int (Suc MAX_ATTEMPTS - k) * (d + ?w) = int (Suc MAX_ATTEMPTS - (k + 1)) * (d + ?w) + (d + ?w)"
      by (simp add: Suc_diff_le algebra_simps)
    show ?thesis
    proof (cases "runProbe (pr url k)")
      case True
      then have "t' = t + int (duration (pr url k))"
        using 1(2) False by (subst (asm) probe_attempts.simps) (auto simp: Let_def)
      moreover have "0 \<le> int (Suc MAX_ATTEMPTS - (k + 1)) * (d + ?w)" using w d0 by simp
      ultimately show ?thesis unfolding split using w d by linarith
    next
      case no: False
      let ?t = "if k \<noteq> MAX_ATTEMPTS then t + int (duration (pr url k)) + ?w else t + int (duration (pr url k))"
      have "probe_attempts pr url (k + 1) ?t = (b, n, t')"
        using 1(2) False no by (subst (asm) probe_attempts.simps) (simp add: Let_def)
      then have "t' \<le> ?t + int (Suc MAX_ATTEMPTS - (k + 1)) * (d + ?w)"
        using 1(1)[OF False refl refl no] 1(4) by simp
      moreover have "?t \<le> t + (d + ?w)" using w d by (cases "k = MAX_ATTEMPTS") simp_all
      ultimately show ?thesis unfolding split by linarith
    qed
  qed
qed

section \<open>Properties\<close>

text \<open>
  A pairing code counts as displayed only if the QR encoder has got the whole payload, byte
  for byte and whatever the sizes of the writes, and has ended with status 0. If the encoder has
  gone before the first byte is written, the controller does not report a failure: the write
  raises a signal it does not handle.
\<close>

theorem pairing_code_displayed:
  "(displayPairingQr pl h = Going (True, got) \<longrightarrow>
      got = pl \<and> pipe_ok h \<and> fork_ok h \<and> waited h = Some (Exited 0))
   \<and> (pipe_ok h \<and> fork_ok h \<and> pl \<noteq> [] \<and> writes h = Broken_pipe # evs \<longrightarrow> displayPairingQr pl h = Killed)"
  by (auto simp: displayPairingQr_def write_all_broken dest!: write_all_prefix
      split: if_splits process.splits bool.splits option.splits)

lemma pairing_code_displayed_witness:
  "displayPairingQr ''ab'' \<lparr>pipe_ok = True, fork_ok = True,
      writes = [Wrote 1, Write_error EINTR, Wrote 9], waited = Some (Exited 0)\<rparr> = Going (True, ''ab'')
   \<and> displayPairingQr ''ab'' \<lparr>pipe_ok = True, fork_ok = True, writes = [Broken_pipe], waited = None\<rparr> = Killed"
  using pairing_code_displayed[of "''ab''"
      "\<lparr>pipe_ok = True, fork_ok = True, writes = [Broken_pipe], waited = None\<rparr>" _ "[]"]
  by (simp add: displayPairingQr_def)

text \<open>
  Waiting for the camera stream succeeds exactly if one of ten probes finds a video stream,
  and it ends: when no probe takes longer than \<open>d\<close>, within ten times \<open>d\<close> plus ten pauses of
  half a second.
\<close>

theorem waitForRtsp_decides:
  "(fst (waitForRtsp pr url t) \<longleftrightarrow> (\<exists>i \<in> {1..10}. runProbe (pr url i)))
   \<and> ((\<forall>i. int (duration (pr url i)) \<le> d) \<longrightarrow>
        snd (waitForRtsp pr url t) \<le> t + 10 * (d + 500 * ns_per_ms))"
proof -
  obtain b n t' where p: "probe_attempts pr url 1 t = (b, n, t')" by (cases "probe_attempts pr url 1 t") auto
  then have "b \<longleftrightarrow> (\<exists>i. 1 \<le> i \<and> i \<le> MAX_ATTEMPTS \<and> runProbe (pr url i))"
    using probe_attempts_found[of pr url 1 t] by simp
  moreover have "t' \<le> t + int (Suc MAX_ATTEMPTS - 1) * (d + RETRY_DELAY_MS * ns_per_ms)"
    if "\<forall>i. int (duration (pr url i)) \<le> d"
    by (rule probe_attempts_time[OF p _ that]) simp
  ultimately show ?thesis using p
    by (auto simp: waitForRtsp_def MAX_ATTEMPTS_def RETRY_DELAY_MS_def)
qed

definition demo_probe :: "string \<Rightarrow> nat \<Rightarrow> probe_run" where
  "demo_probe url i = \<lparr>network_init = 0, alloc_ok = True, open_input = (if i < 3 then -1 else 0),
     stream_info = 0, streams = [Other_media, Video], duration = 7\<rparr>"

lemma waitForRtsp_decides_witness:
  "fst (waitForRtsp demo_probe ''u'' 0) \<and> snd (waitForRtsp demo_probe ''u'' 0) \<le> 10 * (7 + 500 * ns_per_ms)"
proof -
  have "runProbe (demo_probe ''u'' 3)" "\<forall>i. int (duration (demo_probe ''u'' i)) \<le> 7"
    by (simp_all add: demo_probe_def runProbe_def)
  moreover from this(1) have "\<exists>i \<in> {1..10}. runProbe (demo_probe ''u'' i)" by (intro bexI[of _ 3]) auto
  ultimately show ?thesis using waitForRtsp_decides[of demo_probe "''u''" 0 7] by simp
qed

text \<open>
  The address the controller binds to and puts in the pairing code is the printed form of
  the source address of the routed socket or, failing that, of the address of an interface that
  is up, is not a loopback, and has neither 127.0.0.1 nor an address in 169.0.0.0/8.
\<close>

theorem local_address_usable:
  assumes "getLocalIpAddress inet_ntop h \<noteq> []"
  shows "(\<exists>a. route_local h = Some a \<and> inet_ntop a = Some (getLocalIpAddress inet_ntop h))
    \<or> (\<exists>is i a. interfaces h = Some is \<and> i \<in> set is \<and> iff_up i \<and> \<not> iff_loopback i
         \<and> ifa_addr i = Some (Inet a) \<and> a \<noteq> 0x7F000001 \<and> drop_bit 24 a \<noteq> 169
         \<and> inet_ntop a = Some (getLocalIpAddress inet_ntop h))"
proof (cases "routed_address inet_ntop h")
  case (Some s)
  then show ?thesis by (auto simp: getLocalIpAddress_def routed_address_def split: if_splits option.splits)
next
  case None
  then obtain "is" where i: "interfaces h = Some is"
    "getLocalIpAddress inet_ntop h = first_usable inet_ntop is"
    using assms by (auto simp: getLocalIpAddress_def split: option.splits)
  obtain j a where "j \<in> set is" "usable_address j = Some a"
    "inet_ntop a = Some (getLocalIpAddress inet_ntop h)"
    using first_usable_cases[OF assms[unfolded i(2)]] unfolding i(2) by blast
  with i(1) usable_addressD[OF this(2)] show ?thesis unfolding INADDR_LOOPBACK_def by blast
qed

definition demo_network :: network_host where
  "demo_network = \<lparr>route_socket = False, route_connect = False, route_local = None,
     interfaces = Some [\<lparr>ifa_addr = Some (Inet 0x0A000002), iff_up = True, iff_loopback = False\<rparr>]\<rparr>"

lemma local_address_usable_witness:
  "\<exists>a :: 32 word. a \<noteq> 0x7F000001 \<and> drop_bit 24 a \<noteq> 169
     \<and> (if a = 0x0A000002 then Some ''10.0.0.2'' else None)
       = Some (getLocalIpAddress (\<lambda>a. if a = 0x0A000002 then Some ''10.0.0.2'' else None) demo_network)"
proof -
  have "getLocalIpAddress (\<lambda>a. if a = 0x0A000002 then Some ''10.0.0.2'' else None) demo_network \<noteq> []"
    by (simp add: demo_network_def getLocalIpAddress_def routed_address_def usable_address_def INADDR_LOOPBACK_def)
  from local_address_usable[OF this] show ?thesis by (auto simp: demo_network_def)
qed

text \<open>
  The virtual camera is the first entry of the device class directory that is labelled
  \<open>OpenCam\<close>; there is none exactly if no entry is.
\<close>

theorem camera_is_first_labelled:
  "findOpenCamDevice (Some es) =
     (case find is_opencam es of None \<Rightarrow> [] | Some e \<Rightarrow> ''/dev/'' @ entry_name e)"
  by (induction es) (auto simp: findOpenCamDevice_def)

end
