(* ===== verification/Media_Pipeline.thy ===== *)
theory Media_Pipeline
  imports Linux_Host
begin

text \<open>
  The media worker of the Linux controller, \<open>linux/src/media_pipeline.cpp\<close>: the negotiation with
  the V4L2 device, the packing of a frame, the decode loop of \<open>run\<close> with its error paths, and the
  object with \<open>start\<close> and \<open>stop\<close>. What FFmpeg and the device answer are arguments. The flag
  \<open>stopRequested_\<close>, which the other thread may set at any moment, is the number of loads that
  still find it unset.
\<close>

definition OUTPUT_WIDTH :: nat where "OUTPUT_WIDTH = 640"
definition OUTPUT_HEIGHT :: nat where "OUTPUT_HEIGHT = 480"

datatype media_state = Stopped | Starting | Running | Failed

section \<open>Negotiation with the device\<close>

datatype ioctl_result = Ioctl_ok | Ioctl_error errno

text \<open>\<open>None\<close> when the call is interrupted for ever.\<close>

fun ioctlRetry :: "ioctl_result list \<Rightarrow> bool option" where
  "ioctlRetry [] = None"
| "ioctlRetry (Ioctl_ok # rs) = Some True"
| "ioctlRetry (Ioctl_error e # rs) = (if e = EINTR then ioctlRetry rs else Some False)"

record v4l2_device =
  querycap :: "ioctl_result list"
  capabilities :: "32 word"
  device_caps :: "32 word"
  s_fmt :: "ioctl_result list"
  pix_width :: "32 word"
  pix_height :: "32 word"
  pixelformat :: "32 word"
  bytesperline :: "32 word"
  sizeimage :: "32 word"
  s_parm :: "ioctl_result list"

definition V4L2_CAP_DEVICE_CAPS :: "32 word" where "V4L2_CAP_DEVICE_CAPS = 0x80000000"
definition V4L2_CAP_VIDEO_OUTPUT :: "32 word" where "V4L2_CAP_VIDEO_OUTPUT = 0x00000002"
definition V4L2_PIX_FMT_YUV420 :: "32 word" where "V4L2_PIX_FMT_YUV420 = 0x32315559"

record layout =
  packedFrameSize :: nat
  yStride :: nat
  chromaStride :: nat

text \<open>The decision on what the device negotiated.\<close>

definition negotiated_layout :: "v4l2_device \<Rightarrow> string + layout" where
  "negotiated_layout d =
     (if unat (pix_width d) \<noteq> OUTPUT_WIDTH \<or> unat (pix_height d) \<noteq> OUTPUT_HEIGHT
         \<or> pixelformat d \<noteq> V4L2_PIX_FMT_YUV420
      then Inl ''OpenCam V4L2 device negotiated an incompatible format''
      else
        let y = (if unat (bytesperline d) < OUTPUT_WIDTH then OUTPUT_WIDTH else unat (bytesperline d))
        in if y mod 2 \<noteq> 0 then Inl ''OpenCam V4L2 device returned an unsupported row stride''
           else
             let chroma = y div 2;
                 packed = y * OUTPUT_HEIGHT + 2 * chroma * (OUTPUT_HEIGHT div 2)
             in if sizeimage d \<noteq> 0 \<and> unat (sizeimage d) < packed
                then Inl ''OpenCam V4L2 device reported an undersized frame buffer''
                else Inr \<lparr>packedFrameSize = packed, yStride = y, chromaStride = chroma\<rparr>)"

definition configureV4L2Output :: "v4l2_device \<Rightarrow> (string + layout) option" where
  "configureV4L2Output d = do {
     ok \<leftarrow> ioctlRetry (querycap d);
     if \<not> ok then Some (Inl ''V4L2 capability query failed'')
     else
       let caps = (if capabilities d AND V4L2_CAP_DEVICE_CAPS \<noteq> 0 then device_caps d else capabilities d)
       in if caps AND V4L2_CAP_VIDEO_OUTPUT = 0
          then Some (Inl ''OpenCam V4L2 device does not support video output'')
          else do {
            ok \<leftarrow> ioctlRetry (s_fmt d);
            if \<not> ok then Some (Inl ''OpenCam V4L2 device rejected YUV420 640x480 format'')
            else
              (case negotiated_layout d of
                 Inl e \<Rightarrow> Some (Inl e)
               | Inr l \<Rightarrow> do {
                   _ \<leftarrow> ioctlRetry (s_parm d);
                   Some (Inr l)
                 })
          }
   }"

section \<open>Packing a frame\<close>

text \<open>A decoded frame: three planes in memory, addressed from their first byte.\<close>

record av_frame =
  data_y :: "int \<Rightarrow> byte"
  data_u :: "int \<Rightarrow> byte"
  data_v :: "int \<Rightarrow> byte"
  linesize_y :: int
  linesize_u :: int
  linesize_v :: int

definition source_row :: "(int \<Rightarrow> byte) \<Rightarrow> int \<Rightarrow> nat \<Rightarrow> nat \<Rightarrow> bytes" where
  "source_row plane linesize n row = map (\<lambda>i. plane (int row * linesize + int i)) [0..<n]"

definition pack_luma_row :: "layout \<Rightarrow> av_frame \<Rightarrow> nat \<Rightarrow> bytes \<Rightarrow> bytes" where
  "pack_luma_row l f row packed =
     (let packed = write_at (row * yStride l) (source_row (data_y f) (linesize_y f) OUTPUT_WIDTH row) packed
      in if yStride l > OUTPUT_WIDTH
         then write_at (row * yStride l + OUTPUT_WIDTH) (replicate (yStride l - OUTPUT_WIDTH) 0) packed
         else packed)"

definition pack_chroma_row :: "layout \<Rightarrow> nat \<Rightarrow> nat \<Rightarrow> av_frame \<Rightarrow> nat \<Rightarrow> bytes \<Rightarrow> bytes" where
  "pack_chroma_row l u v f row packed =
     (let half = OUTPUT_WIDTH div 2;
          packed = write_at (u + row * chromaStride l) (source_row (data_u f) (linesize_u f) half row) packed;
          packed = write_at (v + row * chromaStride l) (source_row (data_v f) (linesize_v f) half row) packed
      in if chromaStride l > half
         then
           let fill = replicate (chromaStride l - half) 0;
               packed = write_at (u + row * chromaStride l + half) fill packed
           in write_at (v + row * chromaStride l + half) fill packed
         else packed)"

definition pack_frame :: "layout \<Rightarrow> av_frame \<Rightarrow> bytes" where
  "pack_frame l f =
     (let packed = replicate (packedFrameSize l) 0;
          u = yStride l * OUTPUT_HEIGHT;
          v = u + chromaStride l * (OUTPUT_HEIGHT div 2);
          packed = fold (pack_luma_row l f) [0..<OUTPUT_HEIGHT] packed
      in fold (pack_chroma_row l u v f) [0..<OUTPUT_HEIGHT div 2] packed)"

text \<open>The layout of the packed frame: plane after plane, every row padded with zeros.\<close>

definition padded :: "nat \<Rightarrow> bytes \<Rightarrow> bytes" where
  "padded stride row = row @ replicate (stride - length row) 0"

definition plane_rows :: "nat \<Rightarrow> nat \<Rightarrow> (int \<Rightarrow> byte) \<Rightarrow> int \<Rightarrow> nat \<Rightarrow> bytes" where
  "plane_rows stride n plane linesize rows =
     concat (map (\<lambda>row. padded stride (source_row plane linesize n row)) [0..<rows])"

definition planar_image :: "layout \<Rightarrow> av_frame \<Rightarrow> bytes" where
  "planar_image l f =
     plane_rows (yStride l) 640 (data_y f) (linesize_y f) 480
     @ plane_rows (chromaStride l) 320 (data_u f) (linesize_u f) 240
     @ plane_rows (chromaStride l) 320 (data_v f) (linesize_v f) 240"

definition layout_ok :: "layout \<Rightarrow> bool" where
  "layout_ok l \<longleftrightarrow> 640 \<le> yStride l \<and> yStride l = 2 * chromaStride l \<and> packedFrameSize l = 720 * yStride l"

lemma negotiated_layout_ok: "negotiated_layout d = Inr l \<Longrightarrow> layout_ok l"
  by (auto simp: negotiated_layout_def layout_ok_def OUTPUT_WIDTH_def OUTPUT_HEIGHT_def Let_def
      mult_div_mod_eq split: if_splits)

lemma length_source_row [simp]: "length (source_row p ls n row) = n"
  by (simp add: source_row_def)

lemma length_padded [simp]: "length row \<le> s \<Longrightarrow> length (padded s row) = s"
  by (simp add: padded_def)

lemma length_plane_rows [simp]: "n \<le> s \<Longrightarrow> length (plane_rows s n p ls rows) = rows * s"
  by (simp add: plane_rows_def length_concat comp_def sum_list_triv)

lemma plane_rows_Suc:
  "plane_rows s n p ls (Suc k) = plane_rows s n p ls k @ source_row p ls n k @ replicate (s - n) 0"
  by (simp add: plane_rows_def padded_def)

lemma write_at_middle:
  "off = length a \<Longrightarrow> length b = length xs \<Longrightarrow> write_at off xs (a @ b @ c) = a @ xs @ c"
  by (simp add: write_at_def)

lemma zeros_split: "k \<le> m \<Longrightarrow> replicate m 0 = replicate k 0 @ replicate (m - k) (0 :: byte)"
  by (simp flip: replicate_add)

lemma pack_luma:
  assumes "640 \<le> yStride l" "rows * yStride l \<le> m"
  shows "fold (pack_luma_row l f) [0..<rows] (replicate m 0)
    = plane_rows (yStride l) 640 (data_y f) (linesize_y f) rows @ replicate (m - rows * yStride l) 0"
  using assms(2)
proof (induction rows)
  case 0
  then show ?case by (simp add: plane_rows_def)
next
  case (Suc k)
  let ?s = "yStride l" and ?r = "source_row (data_y f) (linesize_y f) 640 k"
  let ?a = "plane_rows ?s 640 (data_y f) (linesize_y f) k"
  let ?z = "replicate (m - Suc k * ?s) (0 :: byte)"
  have len: "length ?a = k * ?s" using assms(1) by simp
  have "replicate (m - k * ?s) 0 = replicate 640 0 @ replicate (?s - 640) (0 :: byte) @ ?z"
    using Suc.prems assms(1) by (simp flip: replicate_add)
  then have IH: "fold (pack_luma_row l f) [0..<k] (replicate m 0)
      = ?a @ replicate 640 0 @ replicate (?s - 640) 0 @ ?z"
    using Suc by simp
  have "pack_luma_row l f k (?a @ replicate 640 0 @ replicate (?s - 640) 0 @ ?z)
      = ?a @ ?r @ replicate (?s - 640) 0 @ ?z"
    using len assms(1) write_at_middle[of "k * ?s" ?a "replicate 640 0" ?r]
      write_at_middle[of "k * ?s + 640" "?a @ ?r" "replicate (?s - 640) 0" "replicate (?s - 640) 0" ?z]
    by (auto simp: pack_luma_row_def OUTPUT_WIDTH_def Let_def)
  then show ?case using IH by (simp add: plane_rows_Suc)
qed

lemma pack_chroma:
  assumes "320 \<le> chromaStride l" "rows * chromaStride l \<le> m" "length p = u" "v = u + m"
  shows "fold (pack_chroma_row l u v f) [0..<rows] (p @ replicate m 0 @ replicate m 0)
    = p @ plane_rows (chromaStride l) 320 (data_u f) (linesize_u f) rows
        @ replicate (m - rows * chromaStride l) 0
        @ plane_rows (chromaStride l) 320 (data_v f) (linesize_v f) rows
        @ replicate (m - rows * chromaStride l) 0"
  using assms(2)
proof (induction rows)
  case 0
  then show ?case by (simp add: plane_rows_def)
next
  case (Suc k)
  let ?s = "chromaStride l"
  let ?ru = "source_row (data_u f) (linesize_u f) 320 k" and ?rv = "source_row (data_v f) (linesize_v f) 320 k"
  let ?a = "plane_rows ?s 320 (data_u f) (linesize_u f) k" and ?b = "plane_rows ?s 320 (data_v f) (linesize_v f) k"
  let ?z = "replicate (m - Suc k * ?s) (0 :: byte)" and ?h = "replicate 320 (0 :: byte)"
  let ?e = "replicate (?s - 320) (0 :: byte)"
  have len: "length ?a = k * ?s" "length ?b = k * ?s" using assms(1) by simp_all
  have "replicate (m - k * ?s) 0 = ?h @ ?e @ ?z"
    using Suc.prems assms(1) by (simp flip: replicate_add)
  then have IH: "fold (pack_chroma_row l u v f) [0..<k] (p @ replicate m 0 @ replicate m 0)
      = p @ ?a @ ?h @ ?e @ ?z @ ?b @ ?h @ ?e @ ?z"
    using Suc by simp
  have z: "length ?z = m - Suc k * ?s" by simp
  have at: "u + k * ?s = length (p @ ?a)" "u + k * ?s + 320 = length (p @ ?a @ ?ru)"
    "v + k * ?s = length (p @ ?a @ ?ru @ ?e @ ?z @ ?b)" "v + k * ?s + 320 = length (p @ ?a @ ?ru @ ?e @ ?z @ ?b @ ?rv)"
    using len assms Suc.prems by simp_all
  have steps:
    "write_at (u + k * ?s) ?ru (p @ ?a @ ?h @ ?e @ ?z @ ?b @ ?h @ ?e @ ?z) = p @ ?a @ ?ru @ ?e @ ?z @ ?b @ ?h @ ?e @ ?z"
    "write_at (v + k * ?s) ?rv (p @ ?a @ ?ru @ ?e @ ?z @ ?b @ ?h @ ?e @ ?z) = p @ ?a @ ?ru @ ?e @ ?z @ ?b @ ?rv @ ?e @ ?z"
    "write_at (u + k * ?s + 320) ?e (p @ ?a @ ?ru @ ?e @ ?z @ ?b @ ?rv @ ?e @ ?z) = p @ ?a @ ?ru @ ?e @ ?z @ ?b @ ?rv @ ?e @ ?z"
    "write_at (v + k * ?s + 320) ?e (p @ ?a @ ?ru @ ?e @ ?z @ ?b @ ?rv @ ?e @ ?z) = p @ ?a @ ?ru @ ?e @ ?z @ ?b @ ?rv @ ?e @ ?z"
    using write_at_middle[OF at(1), of ?h ?ru "?e @ ?z @ ?b @ ?h @ ?e @ ?z"]
      write_at_middle[OF at(3), of ?h ?rv "?e @ ?z"]
      write_at_middle[OF at(2), of ?e ?e "?z @ ?b @ ?rv @ ?e @ ?z"]
      write_at_middle[OF at(4), of ?e ?e ?z]
    by simp_all
  have half: "OUTPUT_WIDTH div 2 = 320" by (simp add: OUTPUT_WIDTH_def)
  have "pack_chroma_row l u v f k (p @ ?a @ ?h @ ?e @ ?z @ ?b @ ?h @ ?e @ ?z)
      = p @ ?a @ ?ru @ ?e @ ?z @ ?b @ ?rv @ ?e @ ?z"
    by (simp only: pack_chroma_row_def Let_def half steps if_cancel)
  then show ?case using IH by (simp add: plane_rows_Suc)
qed

lemma pack_frame_planar:
  assumes "layout_ok l"
  shows "pack_frame l f = planar_image l f" "length (pack_frame l f) = packedFrameSize l"
proof -
  let ?y = "plane_rows (yStride l) 640 (data_y f) (linesize_y f) 480" and ?m = "240 * chromaStride l"
  have l: "640 \<le> yStride l" "320 \<le> chromaStride l" "packedFrameSize l - 480 * yStride l = ?m + ?m"
    "480 * yStride l \<le> packedFrameSize l"
    using assms by (auto simp: layout_ok_def)
  have "fold (pack_luma_row l f) [0..<480] (replicate (packedFrameSize l) 0)
      = ?y @ replicate ?m 0 @ replicate ?m 0"
    using pack_luma[OF l(1,4)] by (simp add: l(3) flip: replicate_add)
  moreover have "fold (pack_chroma_row l (yStride l * 480) (yStride l * 480 + chromaStride l * 240) f) [0..<240]
      (?y @ replicate ?m 0 @ replicate ?m 0) = planar_image l f"
    using pack_chroma[OF l(2), of 240 ?m ?y "yStride l * 480" "yStride l * 480 + chromaStride l * 240" f] l(1)
    by (simp add: planar_image_def)
  ultimately show eq: "pack_frame l f = planar_image l f"
    by (simp add: pack_frame_def OUTPUT_HEIGHT_def)
  show "length (pack_frame l f) = packedFrameSize l"
    unfolding eq planar_image_def using assms l(1,2) by (simp add: layout_ok_def)
qed

section \<open>Writing a frame\<close>

datatype video_write = Wrote_bytes nat | Write_failed errno

text \<open>
  The outside of the worker: how many loads of \<open>stopRequested_\<close> still find it unset (\<open>None\<close> for
  all), the coming answers of \<open>write\<close> and of \<open>poll\<close> on the device (\<open>None\<close> for a \<open>poll\<close> that did
  not fail), the frames written so far, and the variable \<open>processingError\<close>.
\<close>

record outside =
  stop_in :: "nat option"
  video_writes :: "video_write list"
  video_polls :: "errno option list"
  shown_frames :: "bytes list"
  processing_error :: string

definition stop_loaded :: "outside \<Rightarrow> bool \<times> outside" where
  "stop_loaded os =
     (case stop_in os of
        None \<Rightarrow> (False, os)
      | Some 0 \<Rightarrow> (True, os)
      | Some (Suc n) \<Rightarrow> (False, os\<lparr>stop_in := Some n\<rparr>))"

text \<open>One answer of \<open>write\<close>: \<open>Some b\<close> when the loop returns, \<open>None\<close> when it goes round again.\<close>

definition write_round :: "bytes \<Rightarrow> video_write \<Rightarrow> outside \<Rightarrow> bool option \<times> outside" where
  "write_round packed w os =
     (case w of
        Wrote_bytes n \<Rightarrow>
          if n = length packed then (Some True, os\<lparr>shown_frames := shown_frames os @ [packed]\<rparr>)
          else (Some False, os\<lparr>processing_error := ''OpenCam V4L2 frame write failed or was incomplete''\<rparr>)
      | Write_failed e \<Rightarrow>
          if e = EINTR then (None, os)
          else if e = EAGAIN \<or> e = EWOULDBLOCK then
            (case video_polls os of
               Some e' # ps \<Rightarrow>
                 if e' \<noteq> EINTR
                 then (Some False, os\<lparr>video_polls := ps, processing_error := ''OpenCam V4L2 output polling failed''\<rparr>)
                 else (None, os\<lparr>video_polls := ps\<rparr>)
             | None # ps \<Rightarrow> (None, os\<lparr>video_polls := ps\<rparr>)
             | [] \<Rightarrow> (None, os))
          else (Some False, os\<lparr>processing_error := ''OpenCam V4L2 frame write failed or was incomplete''\<rparr>))"

fun write_packed :: "bytes \<Rightarrow> video_write list \<Rightarrow> outside \<Rightarrow> (bool \<times> video_write list \<times> outside) option" where
  "write_packed packed ws os =
     (case stop_loaded os of (stop, os) \<Rightarrow>
        if stop then Some (False, ws, os)
        else (case ws of
            [] \<Rightarrow> None
          | w # ws \<Rightarrow>
              (case write_round packed w os of
                 (Some b, os) \<Rightarrow> Some (b, ws, os)
               | (None, os) \<Rightarrow> write_packed packed ws os)))"

declare write_packed.simps [simp del]

definition writePackedYuv420 :: "layout \<Rightarrow> av_frame \<Rightarrow> outside \<Rightarrow> (bool \<times> outside) option" where
  "writePackedYuv420 l f os = do {
     (b, ws, os) \<leftarrow> write_packed (pack_frame l f) (video_writes os) os;
     Some (b, os\<lparr>video_writes := ws\<rparr>)
   }"

section \<open>The decode loop\<close>

record decoded =
  prepared :: bool
  scaled_rows :: int
  converted :: av_frame

datatype received = Frame_ready decoded | Receive_again | Receive_eof | Receive_error

text \<open>
  The lambda \<open>drainDecodedFrames\<close>; the list holds the coming answers of \<open>avcodec_receive_frame\<close>.
\<close>

fun drain :: "layout \<Rightarrow> received list \<Rightarrow> outside \<Rightarrow> (bool \<times> received list \<times> outside) option" where
  "drain l [] os = None"
| "drain l (Receive_again # rs) os = Some (True, rs, os)"
| "drain l (Receive_eof # rs) os = Some (True, rs, os)"
| "drain l (Receive_error # rs) os = Some (False, rs, os\<lparr>processing_error := ''Video decoder failed''\<rparr>)"
| "drain l (Frame_ready d # rs) os =
     (if \<not> prepared d
      then Some (False, rs, os\<lparr>processing_error := ''Could not prepare converted video frame''\<rparr>)
      else if scaled_rows d \<noteq> int OUTPUT_HEIGHT
      then Some (False, rs, os\<lparr>processing_error := ''Video frame conversion returned an incomplete frame''\<rparr>)
      else do {
        (written, os) \<leftarrow> writePackedYuv420 l (converted d) os;
        if \<not> written then (case stop_loaded os of (stop, os) \<Rightarrow> Some (stop, rs, os))
        else drain l rs os
      })"

datatype av_result = Av_ok | Av_again | Av_eof | Av_error

text \<open>Sending one packet to the decoder, with the retries, and draining it.\<close>

fun send_packet ::
  "layout \<Rightarrow> av_result list \<Rightarrow> received list \<Rightarrow> outside \<Rightarrow> (bool \<times> received list \<times> outside) option" where
  "send_packet l [] rs os = None"
| "send_packet l (a # as) rs os =
     (if a = Av_again then do {
        (ok, rs, os) \<leftarrow> drain l rs os;
        if ok then send_packet l as rs os else Some (False, rs, os)
      }
      else if a \<noteq> Av_ok
      then Some (False, rs, os\<lparr>processing_error := ''Video decoder rejected an input packet''\<rparr>)
      else drain l rs os)"

datatype read_result = Video_packet "av_result list" | Other_packet | Read_eof | Read_failed string

text \<open>The reading loop of \<open>run\<close>: the value of \<open>successful\<close> when it ends.\<close>

fun read_loop ::
  "layout \<Rightarrow> read_result list \<Rightarrow> received list \<Rightarrow> outside \<Rightarrow> (bool \<times> outside) option" where
  "read_loop l reads rs os =
     (case stop_loaded os of (stop, os) \<Rightarrow>
        if stop then Some (True, os)
        else (case reads of
            [] \<Rightarrow> None
          | Read_eof # reads \<Rightarrow>
              (case stop_loaded os of (stop, os) \<Rightarrow>
                 Some (if stop then (True, os) else (False, os\<lparr>processing_error := ''RTSP source ended''\<rparr>)))
          | Read_failed e # reads \<Rightarrow>
              (case stop_loaded os of (stop, os) \<Rightarrow>
                 Some (if stop then (True, os)
                       else (False, os\<lparr>processing_error := ''RTSP read failed ('' @ e @ '')''\<rparr>)))
          | Other_packet # reads \<Rightarrow> read_loop l reads rs os
          | Video_packet sends # reads \<Rightarrow> do {
              (ok, rs, os) \<leftarrow> send_packet l sends rs os;
              if ok then read_loop l reads rs os else Some (False, os)
            }))"

declare read_loop.simps [simp del]

section \<open>run\<close>

record pipeline_host =
  av_network_init :: int
  input_alloc :: bool
  input_open :: int
  input_info :: int
  input_streams :: "media_type list"
  decoder_ready :: bool
  device_open :: bool
  device :: v4l2_device
  buffers_alloc :: bool
  frame_buffer :: bool
  av_strerror :: "int \<Rightarrow> string option"
  packet_reads :: "read_result list"
  frame_answers :: "received list"

datatype worker_effect = Set_running | Set_failure string

definition ffmpegError :: "pipeline_host \<Rightarrow> int \<Rightarrow> string" where
  "ffmpegError h code = (case av_strerror h code of None \<Rightarrow> ''unknown FFmpeg error'' | Some s \<Rightarrow> s)"

text \<open>A failure that is kept quiet when the worker was asked to stop.\<close>

definition unless_stopped :: "string \<Rightarrow> outside \<Rightarrow> worker_effect list" where
  "unless_stopped m os = (if fst (stop_loaded os) then [] else [Set_failure m])"

text \<open>The set-up: the effects with which it gives up, or the negotiated layout.\<close>

definition run_setup :: "pipeline_host \<Rightarrow> outside \<Rightarrow> (worker_effect list + layout) option" where
  "run_setup h os =
     (if av_network_init h < 0 then Some (Inl [Set_failure ''FFmpeg network initialization failed''])
      else if \<not> input_alloc h then Some (Inl [Set_failure ''Could not allocate RTSP input context''])
      else if input_open h < 0 then
        Some (Inl (unless_stopped
          (''Could not open authenticated RTSP source ('' @ ffmpegError h (input_open h) @ '')'') os))
      else if input_info h < 0 then
        Some (Inl (unless_stopped
          (''Could not read RTSP stream metadata ('' @ ffmpegError h (input_info h) @ '')'') os))
      else if \<not> list_ex (\<lambda>t. t = Video) (input_streams h)
      then Some (Inl [Set_failure ''RTSP source contains no video stream''])
      else if \<not> decoder_ready h
      then Some (Inl [Set_failure ''Could not initialize the RTSP video decoder''])
      else if \<not> device_open h
      then Some (Inl [Set_failure ''Could not open the OpenCam V4L2 output device''])
      else do {
        r \<leftarrow> configureV4L2Output (device h);
        (case r of
           Inl e \<Rightarrow> Some (Inl [Set_failure e])
         | Inr l \<Rightarrow>
             if \<not> buffers_alloc h then Some (Inl [Set_failure ''Could not allocate video frame buffers''])
             else if \<not> frame_buffer h then Some (Inl [Set_failure ''Could not allocate converted video frame''])
             else Some (Inr l))
      })"

text \<open>The end of \<open>run\<close>.\<close>

definition run_ending :: "bool \<Rightarrow> outside \<Rightarrow> worker_effect list \<times> outside" where
  "run_ending successful os =
     (case stop_loaded os of (stop, os) \<Rightarrow>
        if \<not> stop \<and> \<not> successful
        then ([Set_failure (if processing_error os = [] then ''Media pipeline failed'' else processing_error os)], os)
        else (case stop_loaded os of (stop, os) \<Rightarrow>
                (if \<not> stop then [Set_failure ''Media pipeline stopped unexpectedly''] else [], os)))"

text \<open>
  What \<open>run\<close> does to the object, in order, and whether it comes to an end; and what it leaves
  outside then.
\<close>

definition run :: "pipeline_host \<Rightarrow> outside \<Rightarrow> worker_effect list \<times> outside option" where
  "run h os =
     (case run_setup h os of
        None \<Rightarrow> ([], None)
      | Some (Inl effects) \<Rightarrow> (effects, Some os)
      | Some (Inr l) \<Rightarrow>
          (case read_loop l (packet_reads h) (frame_answers h) os of
             None \<Rightarrow> ([Set_running], None)
           | Some (successful, os) \<Rightarrow>
               (case run_ending successful os of (effects, os) \<Rightarrow> (Set_running # effects, Some os))))"

section \<open>The object\<close>

text \<open>
  The worker thread of the object, when there is one to join: the effects it still has, and
  whether it comes to an end.
\<close>

record pipeline =
  pipeline_state :: media_state
  error_message :: string
  stop_requested :: bool
  worker :: "(worker_effect list \<times> bool) option"

definition new_pipeline :: pipeline where
  "new_pipeline = \<lparr>pipeline_state = Stopped, error_message = [], stop_requested = False, worker = None\<rparr>"

definition setFailure :: "string \<Rightarrow> pipeline \<Rightarrow> pipeline" where
  "setFailure m p = p\<lparr>error_message := m, pipeline_state := Failed\<rparr>"

definition start :: "string \<Rightarrow> string \<Rightarrow> worker_effect list \<times> outside option \<Rightarrow> pipeline \<Rightarrow> bool \<times> pipeline" where
  "start url videoDevice r p =
     (if worker p \<noteq> None \<or> url = [] \<or> videoDevice = [] then (False, p)
      else (True, p\<lparr>stop_requested := False, error_message := [], pipeline_state := Starting,
                    worker := Some (fst r, snd r \<noteq> None)\<rparr>))"

definition apply_effect :: "worker_effect \<Rightarrow> pipeline \<Rightarrow> pipeline" where
  "apply_effect e p = (case e of Set_running \<Rightarrow> p\<lparr>pipeline_state := Running\<rparr> | Set_failure m \<Rightarrow> setFailure m p)"

text \<open>One effect of the worker, which may come at any moment while the thread is there.\<close>

definition worker_step :: "pipeline \<Rightarrow> pipeline" where
  "worker_step p =
     (case worker p of
        Some (e # es, ends) \<Rightarrow> (apply_effect e p)\<lparr>worker := Some (es, ends)\<rparr>
      | _ \<Rightarrow> p)"

text \<open>\<open>stop\<close> joins the thread: \<open>None\<close> when it never ends.\<close>

definition stop :: "pipeline \<Rightarrow> pipeline option" where
  "stop p =
     (let p = p\<lparr>stop_requested := True\<rparr>
      in do {
        p \<leftarrow> (case worker p of
                None \<Rightarrow> Some p
              | Some (es, ends) \<Rightarrow> if ends then Some ((fold apply_effect es p)\<lparr>worker := None\<rparr>) else None);
        Some (if pipeline_state p \<noteq> Failed then p\<lparr>pipeline_state := Stopped\<rparr> else p)
      })"

section \<open>Facts about run\<close>

definition failures_named :: "worker_effect list \<Rightarrow> bool" where
  "failures_named es \<longleftrightarrow> (\<forall>m. Set_failure m \<in> set es \<longrightarrow> m \<noteq> [])"

lemma stop_loaded_cases:
  "stop_loaded os = (True, os') \<Longrightarrow> os' = os \<and> stop_in os = Some 0"
  "stop_loaded os = (False, os') \<Longrightarrow>
     os' = os\<lparr>stop_in := map_option (\<lambda>n. n - 1) (stop_in os)\<rparr> \<and> stop_in os \<noteq> Some 0"
  by (cases os; auto simp: stop_loaded_def split: option.splits nat.splits)+

lemma stop_loaded_frame:
  "stop_loaded os = (st, os') \<Longrightarrow> shown_frames os' = shown_frames os
     \<and> (st \<longleftrightarrow> stop_in os = Some 0) \<and> (st \<longrightarrow> stop_in os' = Some 0)
     \<and> (stop_in os = None \<longrightarrow> stop_in os' = None)"
  by (auto simp: stop_loaded_def split: option.splits nat.splits)

lemma configure_errors_named: "configureV4L2Output d = Some (Inl e) \<Longrightarrow> e \<noteq> []"
  by (auto simp: configureV4L2Output_def negotiated_layout_def Let_def
      split: if_splits Option.bind_splits sum.splits)

lemma configure_layout_ok: "configureV4L2Output d = Some (Inr l) \<Longrightarrow> layout_ok l"
  by (auto simp: configureV4L2Output_def Let_def split: if_splits Option.bind_splits sum.splits
      dest: negotiated_layout_ok)

lemma run_setup_effects:
  assumes "run_setup h os = Some (Inl es)"
  shows "(es = [] \<and> stop_in os = Some 0) \<or> (\<exists>m. es = [Set_failure m] \<and> m \<noteq> [])"
proof -
  have u: "unless_stopped m os = [] \<and> stop_in os = Some 0 \<or> unless_stopped m os = [Set_failure m]" for m
    using stop_loaded_cases[of os] by (cases "stop_loaded os") (auto simp: unless_stopped_def)
  show ?thesis
    using assms u[of "''Could not open authenticated RTSP source ('' @ ffmpegError h (input_open h) @ '')''"]
      u[of "''Could not read RTSP stream metadata ('' @ ffmpegError h (input_info h) @ '')''"]
    by (auto simp: run_setup_def split: if_splits Option.bind_splits sum.splits dest: configure_errors_named)
qed


lemma run_ending_effects:
  assumes "run_ending b os = (es, os')"
  shows "(es = [] \<and> stop_in os \<noteq> None) \<or> (\<exists>m. es = [Set_failure m] \<and> m \<noteq> [])"
  using assms by (cases "stop_in os") (auto simp: run_ending_def stop_loaded_def split: prod.splits if_splits)

section \<open>Which frames are shown\<close>

definition ready_frames :: "received list \<Rightarrow> av_frame list" where
  "ready_frames rs = List.map_filter (\<lambda>r. case r of Frame_ready d \<Rightarrow> Some (converted d) | _ \<Rightarrow> None) rs"

lemma ready_frames_simps [simp]:
  "ready_frames [] = []" "ready_frames (Frame_ready d # rs) = converted d # ready_frames rs"
  "ready_frames (Receive_again # rs) = ready_frames rs" "ready_frames (Receive_eof # rs) = ready_frames rs"
  "ready_frames (Receive_error # rs) = ready_frames rs"
  by (simp_all add: ready_frames_def)

lemma write_round_frame:
  "write_round p w os = (r, os') \<Longrightarrow> stop_in os' = stop_in os
     \<and> shown_frames os' = (if r = Some True then shown_frames os @ [p] else shown_frames os)"
  by (auto simp: write_round_def split: video_write.splits if_splits list.splits option.splits)

lemma write_packed_frame:
  "write_packed p ws os = Some (b, ws', os') \<Longrightarrow>
     shown_frames os' = (if b then shown_frames os @ [p] else shown_frames os)
     \<and> (stop_in os = Some 0 \<longrightarrow> \<not> b \<and> os' = os) \<and> (stop_in os = None \<longrightarrow> stop_in os' = None)"
proof (induction p ws os rule: write_packed.induct)
  case (1 p ws os)
  obtain st os1 where st: "stop_loaded os = (st, os1)" by force
  show ?case
  proof (cases st)
    case True
    with 1(2) st stop_loaded_cases(1)[of os os1] show ?thesis by (simp add: write_packed.simps[of p ws os])
  next
    case False
    then have os1: "os1 = os\<lparr>stop_in := map_option (\<lambda>n. n - 1) (stop_in os)\<rparr>" "stop_in os \<noteq> Some 0"
      using stop_loaded_cases(2)[of os os1] st by auto
    obtain w ws1 r os2 where w: "ws = w # ws1" "write_round p w os1 = (r, os2)"
      using 1(2) st False by (auto simp: write_packed.simps[of p ws os] split: list.splits prod.splits)
    note f = write_round_frame[OF w(2)]
    show ?thesis
    proof (cases r)
      case None
      then have "write_packed p ws1 os2 = Some (b, ws', os')"
        using 1(2) st False w by (simp add: write_packed.simps[of p "w # ws1" os])
      from 1(1)[OF st[symmetric] False w(1) w(2)[symmetric] None this]
      have "shown_frames os' = (if b then shown_frames os2 @ [p] else shown_frames os2)"
        "stop_in os2 = None \<longrightarrow> stop_in os' = None" by auto
      with f None os1 show ?thesis by auto
    next
      case (Some b')
      then have "b' = b" "os' = os2"
        using 1(2) st False w by (auto simp: write_packed.simps[of p "w # ws1" os])
      with f Some os1 show ?thesis by (cases b') auto
    qed
  qed
qed

lemma write_frame:
  assumes "writePackedYuv420 l f os = Some (b, os')"
  shows "shown_frames os' = (if b then shown_frames os @ [pack_frame l f] else shown_frames os)"
    "stop_in os = Some 0 \<Longrightarrow> \<not> b \<and> stop_in os' = Some 0 " "stop_in os = None \<Longrightarrow> stop_in os' = None"
  using assms write_packed_frame[of "pack_frame l f" "video_writes os" os]
  by (auto simp: writePackedYuv420_def split: Option.bind_splits)

text \<open>
  What a drain shows: the next ready frames, all of those it takes from the decoder unless a
  stop was seen, after which nothing more is shown.
\<close>

definition shows_next :: "layout \<Rightarrow> outside \<Rightarrow> received list \<Rightarrow> bool \<Rightarrow> received list \<Rightarrow> outside \<Rightarrow> bool" where
  "shows_next l os rs b rs' os' \<longleftrightarrow>
     (\<exists>k. shown_frames os' = shown_frames os @ map (pack_frame l) (take k (ready_frames rs))
        \<and> (b \<longrightarrow> stop_in os' = Some 0 \<or> ready_frames rs = take k (ready_frames rs) @ ready_frames rs'))
   \<and> (stop_in os = Some 0 \<longrightarrow> shown_frames os' = shown_frames os \<and> stop_in os' = Some 0)
   \<and> (stop_in os = None \<longrightarrow> stop_in os' = None)"

lemma shows_none:
  "shown_frames os' = shown_frames os \<Longrightarrow> stop_in os' = stop_in os \<Longrightarrow>
     ready_frames rs' = ready_frames rs \<or> \<not> b \<or> stop_in os = Some 0 \<Longrightarrow> shows_next l os rs b rs' os'"
  unfolding shows_next_def by (auto intro!: exI[of _ 0])

lemma shows_trans:
  assumes "shows_next l os rs True rs1 os1" "shows_next l os1 rs1 b rs2 os2"
  shows "shows_next l os rs b rs2 os2"
proof -
  obtain k where "shown_frames os1 = shown_frames os @ map (pack_frame l) (take k (ready_frames rs))"
    "stop_in os1 = Some 0 \<or> ready_frames rs = take k (ready_frames rs) @ ready_frames rs1"
    using assms(1) by (auto simp: shows_next_def)
  then obtain xs k where k: "shown_frames os1 = shown_frames os @ map (pack_frame l) xs"
    "xs = take k (ready_frames rs)" "stop_in os1 = Some 0 \<or> ready_frames rs = xs @ ready_frames rs1"
    by blast
  obtain j where j: "shown_frames os2 = shown_frames os1 @ map (pack_frame l) (take j (ready_frames rs1))"
    "b \<longrightarrow> stop_in os2 = Some 0 \<or> ready_frames rs1 = take j (ready_frames rs1) @ ready_frames rs2"
    using assms(2) by (auto simp: shows_next_def)
  have "\<exists>k. shown_frames os2 = shown_frames os @ map (pack_frame l) (take k (ready_frames rs))
        \<and> (b \<longrightarrow> stop_in os2 = Some 0 \<or> ready_frames rs = take k (ready_frames rs) @ ready_frames rs2)"
  proof (cases "stop_in os1 = Some 0")
    case True
    with assms(2) k(1,2) show ?thesis by (auto simp: shows_next_def)
  next
    case False
    then have r: "ready_frames rs = xs @ ready_frames rs1" using k(3) by simp
    then have n: "take (length xs + j) (ready_frames rs) = xs @ take j (ready_frames rs1)" by simp
    have "b \<longrightarrow> stop_in os2 = Some 0
        \<or> ready_frames rs = take (length xs + j) (ready_frames rs) @ ready_frames rs2"
      using r j(2) unfolding n by auto
    with j(1) k(1) n show ?thesis by (intro exI[of _ "length xs + j"]) simp
  qed
  with assms show ?thesis by (auto simp: shows_next_def)
qed

lemma drain_shows: "drain l rs os = Some (b, rs', os') \<Longrightarrow> shows_next l os rs b rs' os'"
proof (induction l rs os rule: drain.induct)
  case (5 l d rs os)
  show ?case
  proof (cases "prepared d \<and> scaled_rows d = int OUTPUT_HEIGHT")
    case False
    with 5(2) show ?thesis by (auto intro!: shows_none split: if_splits)
  next
    case True
    then obtain w os1 where w: "writePackedYuv420 l (converted d) os = Some (w, os1)"
      using 5(2) by (auto split: Option.bind_splits)
    note f = write_frame[OF w]
    show ?thesis
    proof (cases w)
      case False
      obtain st os2 where st: "stop_loaded os1 = (st, os2)" by force
      then have out: "b = st" "rs' = rs" "os' = os2" using 5(2) True w False by auto
      have "stop_in os = Some 0 \<longrightarrow> stop_in os2 = Some 0" "stop_in os = None \<longrightarrow> stop_in os2 = None"
        "st \<longrightarrow> stop_in os2 = Some 0" "shown_frames os2 = shown_frames os"
        using f False stop_loaded_frame[OF st] by auto
      then show ?thesis unfolding out shows_next_def by (intro conjI exI[of _ 0]) simp_all
    next
      case wrote: True
      have one: "shows_next l os (Frame_ready d # rs) True rs os1"
        using f wrote by (auto simp: shows_next_def intro!: exI[of _ 1])
      have "drain l rs os1 = Some (b, rs', os')" using 5(2) True w wrote by auto
      with 5(1)[of "(w, os1)"] True w wrote have "shows_next l os1 rs b rs' os'" by auto
      with one show ?thesis by (rule shows_trans)
    qed
  qed
qed (auto intro: shows_none)

lemma send_packet_shows: "send_packet l as rs os = Some (b, rs', os') \<Longrightarrow> shows_next l os rs b rs' os'"
proof (induction l as rs os rule: send_packet.induct)
  case (2 l a as rs os)
  show ?case
  proof (cases "a = Av_again")
    case False
    with 2(2) show ?thesis by (auto intro: shows_none drain_shows split: if_splits)
  next
    case True
    then obtain ok rs1 os1 where d: "drain l rs os = Some (ok, rs1, os1)"
      using 2(2) by (auto split: Option.bind_splits)
    show ?thesis
    proof (cases ok)
      case False
      with 2(2) True d drain_shows[OF d] show ?thesis by simp
    next
      case ok: True
      then have "send_packet l as rs1 os1 = Some (b, rs', os')" using 2(2) True d by simp
      with 2(1)[OF True, of "(ok, rs1, os1)"] d ok drain_shows[OF d] show ?thesis
        by (auto intro: shows_trans)
    qed
  qed
qed simp

lemma read_loop_shows:
  "read_loop l reads rs os = Some (b, os') \<Longrightarrow>
     (\<exists>k. shown_frames os' = shown_frames os @ map (pack_frame l) (take k (ready_frames rs)))
   \<and> (stop_in os = None \<longrightarrow> \<not> b) \<and> (b \<longrightarrow> stop_in os' = Some 0)"
proof (induction l reads rs os rule: read_loop.induct)
  case (1 l reads rs os)
  obtain st os1 where st: "stop_loaded os = (st, os1)" by force
  note f = stop_loaded_frame[OF st]
  show ?case
  proof (cases st)
    case True
    with 1(3) st f show ?thesis by (auto simp: read_loop.simps[of l reads rs os] intro!: exI[of _ 0])
  next
    case False
    with 1(3) st obtain r reads1 where r: "reads = r # reads1"
      by (auto simp: read_loop.simps[of l reads rs os] split: list.splits)
    note step = 1(3)[unfolded r, unfolded read_loop.simps[of l "r # reads1" rs os], simplified st prod.case False]
    obtain st2 os2 where st2: "stop_loaded os1 = (st2, os2)" by force
    show ?thesis
    proof (cases r)
      case (Video_packet sends)
      then obtain ok rs1 os3 where s: "send_packet l sends rs os1 = Some (ok, rs1, os3)"
        using step by (auto split: Option.bind_splits)
      note sh = send_packet_shows[OF s]
      show ?thesis
      proof (cases ok)
        case no: False
        with step Video_packet s have "b = False" "os' = os3" by auto
        with sh f show ?thesis by (auto simp: shows_next_def)
      next
        case ok: True
        then have rest: "read_loop l reads1 rs1 os3 = Some (b, os')" using step Video_packet s by auto
        have IH: "(\<exists>k. shown_frames os' = shown_frames os3 @ map (pack_frame l) (take k (ready_frames rs1)))
            \<and> (stop_in os3 = None \<longrightarrow> \<not> b) \<and> (b \<longrightarrow> stop_in os' = Some 0)"
          using 1(1)[OF st[symmetric] False r Video_packet, of "(ok, rs1, os3)" ok "(rs1, os3)" rs1 os3] s ok rest
          by auto
        show ?thesis
        proof (cases "stop_in os3 = Some 0")
          case True
          then have "shown_frames os' = shown_frames os3"
            using rest by (auto simp: read_loop.simps[of l reads1 rs1 os3] stop_loaded_def)
          with sh IH f show ?thesis by (auto simp: shows_next_def)
        next
          case False
          obtain k where k: "shown_frames os3 = shown_frames os1 @ map (pack_frame l) (take k (ready_frames rs))"
            "ready_frames rs = take k (ready_frames rs) @ ready_frames rs1"
            using sh ok False by (auto simp: shows_next_def)
          obtain j where j: "shown_frames os' = shown_frames os3 @ map (pack_frame l) (take j (ready_frames rs1))"
            using IH by blast
          define xs where "xs = take k (ready_frames rs)"
          have "ready_frames rs = xs @ ready_frames rs1" using k(2) by (simp add: xs_def)
          then have n: "take (length xs + j) (ready_frames rs) = xs @ take j (ready_frames rs1)" by simp
          have "shown_frames os' = shown_frames os @ map (pack_frame l) (take (length xs + j) (ready_frames rs))"
            unfolding n using j k(1) f by (simp add: xs_def)
          then show ?thesis using IH sh f by (auto simp: shows_next_def)
        qed
      qed
    next
      case Other_packet
      then have rest: "read_loop l reads1 rs os1 = Some (b, os')" using step by simp
      from 1(2)[OF st[symmetric] False r Other_packet rest] f show ?thesis by auto
    next
      case Read_eof
      with step st2 stop_loaded_frame[OF st2] f show ?thesis
        by (cases st2) (auto intro!: exI[of _ 0])
    next
      case (Read_failed e)
      with step st2 stop_loaded_frame[OF st2] f show ?thesis
        by (cases st2) (auto intro!: exI[of _ 0])
    qed
  qed
qed

lemma read_loop_unstopped:
  "read_loop l reads rs os = Some (b, os') \<Longrightarrow> stop_in os = None \<Longrightarrow> stop_in os' = None"
proof (induction l reads rs os rule: read_loop.induct)
  case (1 l reads rs os)
  have st: "stop_loaded os = (False, os)" using 1(4) by (simp add: stop_loaded_def)
  obtain r reads1 where r: "reads = r # reads1"
    using 1(3) st by (auto simp: read_loop.simps[of l reads rs os] split: list.splits)
  note step = 1(3)[unfolded r, unfolded read_loop.simps[of l "r # reads1" rs os], simplified st prod.case]
  show ?case
  proof (cases r)
    case (Video_packet sends)
    then obtain ok rs1 os3 where s: "send_packet l sends rs os = Some (ok, rs1, os3)"
      using step by (auto split: Option.bind_splits)
    then have "stop_in os3 = None" using send_packet_shows[OF s] 1(4) by (simp add: shows_next_def)
    then show ?thesis
      using step s Video_packet 1(1)[OF st[symmetric] _ r Video_packet, of "(ok, rs1, os3)" ok "(rs1, os3)" rs1 os3]
      by (auto split: if_splits)
  next
    case Other_packet
    then show ?thesis using step 1(2)[OF st[symmetric] _ r Other_packet] 1(4) by simp
  next
    case Read_eof
    then show ?thesis using step 1(4) st by (auto split: if_splits)
  next
    case (Read_failed e)
    then show ?thesis using step 1(4) st by (auto split: if_splits)
  qed
qed

lemma run_effects:
  assumes "run h os = (es, r)"
  obtains (quiet) "es = []" "r \<noteq> None \<longrightarrow> stop_in os = Some 0"
    | (failed) m where "es = [Set_failure m]" "m \<noteq> []"
    | (blocked) "es = [Set_running]" "r \<noteq> None \<longrightarrow> stop_in os \<noteq> None"
    | (ran) m where "es = [Set_running, Set_failure m]" "m \<noteq> []"
proof (cases "run_setup h os")
  case None
  with assms that(1) show thesis by (simp add: run_def)
next
  case (Some x)
  show thesis
  proof (cases x)
    case (Inl es')
    with Some assms have "es = es'" "r = Some os" by (simp_all add: run_def)
    with run_setup_effects[of h os es'] Some Inl that(1,2) show thesis by auto
  next
    case (Inr l)
    show thesis
    proof (cases "read_loop l (packet_reads h) (frame_answers h) os")
      case None
      with Some Inr assms that(3) show thesis by (simp add: run_def)
    next
      case loop: (Some y)
      obtain b os1 where y: "y = (b, os1)" by (cases y)
      obtain es1 os2 where e: "run_ending b os1 = (es1, os2)" by force
      have "es = Set_running # es1" "r = Some os2" using Some Inr loop y e assms by (simp_all add: run_def)
      moreover have "stop_in os = None \<longrightarrow> \<not> b \<and> stop_in os1 = None"
      proof
        assume "stop_in os = None"
        then show "\<not> b \<and> stop_in os1 = None" using read_loop_shows[of l "packet_reads h" "frame_answers h" os b os1] loop y
          by (auto dest: read_loop_unstopped)
      qed
      ultimately show thesis using run_ending_effects[OF e] that(3,4) by auto
    qed
  qed
qed

section \<open>Reachable states of the object\<close>

inductive pipeline_reachable :: "pipeline \<Rightarrow> bool" where
  created: "pipeline_reachable new_pipeline"
| started: "pipeline_reachable p \<Longrightarrow> start url videoDevice (run h os) p = (b, p') \<Longrightarrow> pipeline_reachable p'"
| worked: "pipeline_reachable p \<Longrightarrow> pipeline_reachable (worker_step p)"
| stopped: "pipeline_reachable p \<Longrightarrow> stop p = Some p' \<Longrightarrow> pipeline_reachable p'"

definition pipeline_ok :: "pipeline \<Rightarrow> bool" where
  "pipeline_ok p \<longleftrightarrow>
     (pipeline_state p = Failed \<longrightarrow> error_message p \<noteq> [])
   \<and> (worker p = None \<longrightarrow> pipeline_state p = Stopped \<or> pipeline_state p = Failed)
   \<and> (\<forall>es ends. worker p = Some (es, ends) \<longrightarrow> failures_named es \<and> pipeline_state p \<noteq> Stopped)"

lemma run_failures_named: "failures_named (fst (run h os))"
  by (cases "run h os") (auto elim!: run_effects simp: failures_named_def)

lemma fold_effects:
  assumes "failures_named es" "pipeline_state p = Failed \<longrightarrow> error_message p \<noteq> []"
  shows "pipeline_state (fold apply_effect es p) = Failed \<longrightarrow> error_message (fold apply_effect es p) \<noteq> []"
    "worker (fold apply_effect es p) = worker p"
  using assms
  by (induction es arbitrary: p)
    (auto simp: failures_named_def apply_effect_def setFailure_def split: worker_effect.splits)

lemma worker_step_ok: "pipeline_ok p \<Longrightarrow> pipeline_ok (worker_step p)"
  by (auto simp: pipeline_ok_def worker_step_def apply_effect_def setFailure_def failures_named_def
      split: option.splits list.splits worker_effect.splits)

lemma stop_ok: "pipeline_ok p \<Longrightarrow> stop p = Some p' \<Longrightarrow> pipeline_ok p' \<and> worker p' = None"
  using fold_effects[of "fst (the (worker p))" "p\<lparr>stop_requested := True\<rparr>"]
  by (auto simp: pipeline_ok_def stop_def Let_def split: option.splits if_splits)

lemma reachable_ok: "pipeline_reachable p \<Longrightarrow> pipeline_ok p"
proof (induction rule: pipeline_reachable.induct)
  case created
  show ?case by (simp add: pipeline_ok_def new_pipeline_def)
next
  case (started p url videoDevice h os b p')
  then show ?case
    using run_failures_named[of h os] by (auto simp: pipeline_ok_def start_def split: if_splits)
next
  case (worked p)
  then show ?case by (rule_tac worker_step_ok)
next
  case (stopped p p')
  then show ?case using stop_ok by blast
qed

section \<open>Properties\<close>

definition demo_device :: v4l2_device where
  "demo_device = \<lparr>querycap = [Ioctl_error EINTR, Ioctl_ok], capabilities = 2, device_caps = 0,
     s_fmt = [Ioctl_ok], pix_width = 640, pix_height = 480, pixelformat = V4L2_PIX_FMT_YUV420,
     bytesperline = 704, sizeimage = 0, s_parm = [Ioctl_error EOTHER]\<rparr>"

definition demo_layout :: layout where
  "demo_layout = \<lparr>packedFrameSize = 506880, yStride = 704, chromaStride = 352\<rparr>"

lemma demo_configured: "configureV4L2Output demo_device = Some (Inr demo_layout)"
  by (simp add: configureV4L2Output_def demo_device_def demo_layout_def negotiated_layout_def
      OUTPUT_WIDTH_def OUTPUT_HEIGHT_def V4L2_CAP_DEVICE_CAPS_def V4L2_CAP_VIDEO_OUTPUT_def)

definition demo_frame :: av_frame where
  "demo_frame = \<lparr>data_y = (\<lambda>i. 1), data_u = (\<lambda>i. 2), data_v = (\<lambda>i. 3),
     linesize_y = 640, linesize_u = 320, linesize_v = 320\<rparr>"

definition demo_source :: "nat option \<Rightarrow> outside" where
  "demo_source n = \<lparr>stop_in = n, video_writes = [Write_failed EAGAIN, Wrote_bytes 506880], video_polls = [None],
     shown_frames = [], processing_error = []\<rparr>"

definition demo_input :: pipeline_host where
  "demo_input = \<lparr>av_network_init = 0, input_alloc = True, input_open = 0, input_info = 0,
     input_streams = [Other_media, Video], decoder_ready = True, device_open = True, device = demo_device,
     buffers_alloc = True, frame_buffer = True, av_strerror = (\<lambda>code. None),
     packet_reads = [Other_packet, Video_packet [Av_ok], Read_eof],
     frame_answers = [Frame_ready \<lparr>prepared = True, scaled_rows = 480, converted = demo_frame\<rparr>, Receive_again]\<rparr>"

lemma demo_layout_ok: "layout_ok demo_layout"
  by (simp add: layout_ok_def demo_layout_def)

lemma demo_loop:
  "\<exists>os. read_loop demo_layout (packet_reads demo_input) (frame_answers demo_input) (demo_source None)
     = Some (False, os) \<and> shown_frames os = [pack_frame demo_layout demo_frame]
     \<and> processing_error os = ''RTSP source ended'' \<and> stop_in os = None"
proof -
  have "length (pack_frame demo_layout demo_frame) = 506880"
    using pack_frame_planar(2)[OF demo_layout_ok] by (simp add: demo_layout_def)
  then show ?thesis
    by (simp add: read_loop.simps demo_input_def demo_source_def stop_loaded_def OUTPUT_HEIGHT_def
        writePackedYuv420_def write_packed.simps write_round_def)
qed

lemma demo_run_setup: "run_setup demo_input os = Some (Inr demo_layout)"
  by (simp add: run_setup_def demo_input_def demo_configured)

lemma demo_worker:
  "\<exists>os. run demo_input (demo_source None) = ([Set_running, Set_failure ''RTSP source ended''], Some os)
     \<and> shown_frames os = [pack_frame demo_layout demo_frame]"
  using demo_loop by (auto simp: run_def demo_run_setup run_ending_def stop_loaded_def)

text \<open>
  C18: Whatever row stride the device asked for, once its format is accepted the packed frame is
  the planar image (each row of each plane, padded with zeros to the stride), it fills the frame
  size exactly, and that size fits into the buffer the device reported.
\<close>

theorem packed_frame_is_planar:
  assumes "configureV4L2Output d = Some (Inr l)"
  shows "pack_frame l f = planar_image l f \<and> length (pack_frame l f) = packedFrameSize l
    \<and> packedFrameSize l = 720 * yStride l \<and> (sizeimage d = 0 \<or> packedFrameSize l \<le> unat (sizeimage d))"
proof -
  have "sizeimage d = 0 \<or> packedFrameSize l \<le> unat (sizeimage d)"
    using assms by (auto simp: configureV4L2Output_def negotiated_layout_def Let_def not_less
        split: if_splits Option.bind_splits sum.splits)
  with pack_frame_planar[OF configure_layout_ok[OF assms]] configure_layout_ok[OF assms]
  show ?thesis by (simp add: layout_ok_def)
qed

lemma packed_frame_is_planar_witness:
  "pack_frame demo_layout demo_frame = planar_image demo_layout demo_frame
   \<and> length (pack_frame demo_layout demo_frame) = 506880"
proof -
  have "packedFrameSize demo_layout = 506880" by (simp add: demo_layout_def)
  with packed_frame_is_planar[OF demo_configured, of demo_frame] show ?thesis by metis
qed



text \<open>
  C20: The worker never ends in silence: \<open>run\<close> leaves the object running or failed with a message,
  and if nobody asked it to stop, its end is a failure with a message.
\<close>

theorem worker_reports_its_end:
  "(\<exists>r. run h os = ([], r) \<or> run h os = ([Set_running], r)
     \<or> (\<exists>m. m \<noteq> [] \<and> (run h os = ([Set_failure m], r) \<or> run h os = ([Set_running, Set_failure m], r))))
   \<and> (stop_in os = None \<and> snd (run h os) \<noteq> None \<longrightarrow> (\<exists>m. m \<noteq> [] \<and> last (fst (run h os)) = Set_failure m))"
proof -
  obtain es r where run: "run h os = (es, r)" by force
  show ?thesis by (rule run_effects[OF run]) (use run in auto)
qed

lemma worker_reports_its_end_witness:
  "\<exists>m. m \<noteq> [] \<and> last (fst (run demo_input (demo_source None))) = Set_failure m"
  using worker_reports_its_end[of demo_input "demo_source None"] demo_worker by (auto simp: demo_source_def)

text \<open>
  C21: The object keeps its books: in every state reachable by starting, working and stopping, a
  failed state has a message, an object without a thread is stopped or failed, one with a thread
  is not stopped; and \<open>stop\<close> leaves no thread behind.
\<close>

theorem pipeline_invariant:
  assumes "pipeline_reachable p"
  shows "(pipeline_state p = Failed \<longrightarrow> error_message p \<noteq> [])
    \<and> (worker p = None \<longrightarrow> pipeline_state p = Stopped \<or> pipeline_state p = Failed)
    \<and> (worker p \<noteq> None \<longrightarrow> pipeline_state p \<noteq> Stopped)
    \<and> (\<forall>p'. stop p = Some p' \<longrightarrow> worker p' = None)"
  using reachable_ok[OF assms] stop_ok[OF reachable_ok[OF assms]]
  unfolding pipeline_ok_def by (metis not_Some_eq surj_pair)

lemma pipeline_invariant_witness:
  "pipeline_state (worker_step (worker_step (snd (start ''u'' ''d'' (run demo_input (demo_source None)) new_pipeline)))) = Failed
   \<and> error_message (worker_step (worker_step (snd (start ''u'' ''d'' (run demo_input (demo_source None)) new_pipeline)))) \<noteq> []"
proof -
  let ?p = "snd (start ''u'' ''d'' (run demo_input (demo_source None)) new_pipeline)"
  have "pipeline_reachable (worker_step (worker_step ?p))"
    by (intro pipeline_reachable.worked pipeline_reachable.started[OF pipeline_reachable.created]) (rule prod.collapse[symmetric])
  moreover have "pipeline_state (worker_step (worker_step ?p)) = Failed"
    using demo_worker
    by (auto simp: start_def new_pipeline_def worker_step_def apply_effect_def setFailure_def)
  ultimately show ?thesis using pipeline_invariant by blast
qed

end
