(* ===== verification/Controller.thy ===== *)
theory Controller
  imports Channel_Session Device_Descriptor Stream_Options Rtsp_Endpoint Media_Pipeline
begin

text \<open>
  The Linux controller, \<open>linux/src/main.cpp\<close>: \<open>handleClient\<close> in its phases (the pairing
  handshake, the descriptor and the activation, the session loop) and the listener loop of
  \<open>main\<close>. Time is the clock of the socket in use; it goes on in the calls that wait. Every
  console message is left out, except that the pairing code is shown.
\<close>

section \<open>The surroundings of the controller\<close>

definition SERVER_PORT :: nat where "SERVER_PORT = 6969"
definition HANDSHAKE_TIMEOUT_MS :: int where "HANDSHAKE_TIMEOUT_MS = 5000"
definition DESCRIPTOR_TIMEOUT_MS :: int where "DESCRIPTOR_TIMEOUT_MS = 30000"
definition PAIRING_LIFETIME :: int where "PAIRING_LIFETIME = 10 * 60 * 1000 * ns_per_ms"

text \<open>
  \<open>RAND_bytes\<close>: the coming draws, each \<open>None\<close> for a failure. Once the script is used up every
  draw fails.
\<close>

type_synonym rng = "bytes option list"

definition randomSecret :: "rng \<Rightarrow> bytes option \<times> rng" where
  "randomSecret r = (case r of [] \<Rightarrow> (None, []) | d # r' \<Rightarrow> (d, r'))"

text \<open>
  What the controller meets around the connection. \<open>media url device\<close> is what the media worker
  meets, and how far it gets before each time the session loop reads its state; this list ends
  where the account of the run ends.
\<close>

record surroundings =
  inet_pton :: "string \<Rightarrow> bool"
  class_dir :: "device_entry list option"
  probe :: "string \<Rightarrow> nat \<Rightarrow> probe_run"
  media :: "string \<Rightarrow> string \<Rightarrow> pipeline_host \<times> outside \<times> nat list"

section \<open>The pairing handshake\<close>

definition CLIENT_PROOF_DOMAIN :: string where "CLIENT_PROOF_DOMAIN = ''OpenCam client proof v2''"
definition SERVER_PROOF_DOMAIN :: string where "SERVER_PROOF_DOMAIN = ''OpenCam server proof v2''"

text \<open>The session key when the client has proved the pairing secret in time.\<close>

definition handshake ::
  "('c, 'p) openssl \<Rightarrow> bytes \<Rightarrow> int \<Rightarrow> bytes \<Rightarrow> sock \<Rightarrow> (bytes option \<times> sock) option" where
  "handshake E secret pairingExpires serverNonce s = do {
     (ok, s) \<leftarrow> sendFrame SERVER_HELLO serverNonce HANDSHAKE_TIMEOUT_MS s;
     if \<not> ok then Some (None, s)
     else do {
       (r, s) \<leftarrow> receiveFrame HANDSHAKE_TIMEOUT_MS s;
       (case r of
          None \<Rightarrow> Some (None, s)
        | Some authFrame \<Rightarrow>
            if ftype authFrame \<noteq> CLIENT_AUTH \<or> length (payload authFrame) \<noteq> 64 then Some (None, s)
            else
              let clientNonce = take NONCE_SIZE (payload authFrame)
              in case makeProof E secret CLIENT_PROOF_DOMAIN serverNonce clientNonce of
                   None \<Rightarrow> Some (None, s)
                 | Some expectedClientProof \<Rightarrow>
                     if \<not> constantTimeEqual E expectedClientProof
                            (drop NONCE_SIZE (payload authFrame)) (length expectedClientProof)
                     then Some (None, s)
                     else if clock s \<ge> pairingExpires then Some (None, s)
                     else
                       (case makeProof E secret SERVER_PROOF_DOMAIN serverNonce clientNonce of
                          None \<Rightarrow> Some (None, s)
                        | Some serverProof \<Rightarrow>
                            (case deriveSessionKey E secret serverNonce clientNonce of
                               None \<Rightarrow> Some (None, s)
                             | Some sessionKey \<Rightarrow> do {
                                 (ok, s) \<leftarrow> sendFrame SERVER_AUTH serverProof HANDSHAKE_TIMEOUT_MS s;
                                 Some (if ok then Some sessionKey else None, s)
                               })))
     }
   }"

section \<open>Descriptor and activation\<close>

text \<open>The decision on a descriptor frame: the address with credentials and the camera.\<close>

definition media_target ::
  "('c, 'p) openssl \<Rightarrow> surroundings \<Rightarrow> string \<Rightarrow> bytes \<Rightarrow> frame \<Rightarrow> (string \<times> string) option" where
  "media_target E W clientIp sessionKey descriptorFrame =
     (if ftype descriptorFrame \<noteq> DESCRIPTOR then None
      else case parseDeviceDescriptor (payload descriptorFrame) of
        Inl e \<Rightarrow> None
      | Inr descriptor \<Rightarrow>
          if \<not> isAllowedRtspEndpoint (inet_pton W) (rtspUrl descriptor) clientIp then None
          else
            let mediaPassword = deriveMediaPassword E sessionKey
            in if length mediaPassword \<noteq> 64 then None
               else
                 let url = authenticated_url mediaPassword (rtspUrl descriptor);
                     virtualCamera = findOpenCamDevice (class_dir W)
                 in if virtualCamera = [] then None else Some (url, virtualCamera))"

definition activate ::
  "('c, 'p) openssl \<Rightarrow> surroundings \<Rightarrow> string \<Rightarrow> bytes \<Rightarrow> channel \<Rightarrow> sock
     \<Rightarrow> ((string \<times> string) option \<times> channel \<times> sock) option" where
  "activate E W clientIp sessionKey ch s = do {
     (r, ch, s) \<leftarrow> channel_receive E ch DESCRIPTOR_TIMEOUT_MS s;
     (case r of
        None \<Rightarrow> Some (None, ch, s)
      | Some descriptorFrame \<Rightarrow>
          (case media_target E W clientIp sessionKey descriptorFrame of
             None \<Rightarrow> Some (None, ch, s)
           | Some target \<Rightarrow> do {
               (ok, ch, s) \<leftarrow> channel_send E ch ACTIVATION (buildActivationPacket default_options)
                                HANDSHAKE_TIMEOUT_MS s;
               Some (if ok then Some target else None, ch, s)
             }))
   }"

section \<open>The session\<close>

text \<open>One pass of the session loop after the media state was read: whether it goes on.\<close>

definition session_pass ::
  "('c, 'p) openssl \<Rightarrow> channel \<Rightarrow> sock \<Rightarrow> (bool \<times> channel \<times> sock) option" where
  "session_pass E ch s = do {
     (r, s) \<leftarrow> sys_poll 250 s;
     (case r of
        PollError e \<Rightarrow> Some (e = EINTR, ch, s)
      | PollTimeout \<Rightarrow> Some (True, ch, s)
      | PollReady revents \<Rightarrow>
          if revents AND (POLLERR OR POLLHUP OR POLLNVAL) \<noteq> 0 then Some (False, ch, s)
          else do {
            (f, ch, s) \<leftarrow> channel_receive E ch 2000 s;
            Some ((case f of None \<Rightarrow> False | Some incoming \<Rightarrow> ftype incoming = ERROR_REPORT), ch, s)
          })
   }"

text \<open>
  The list says how many effects the worker has between two readings of its state. \<open>ended\<close> is
  false when the list ends with the loop still going.
\<close>

fun session_loop ::
  "('c, 'p) openssl \<Rightarrow> nat list \<Rightarrow> pipeline \<Rightarrow> channel \<Rightarrow> sock
     \<Rightarrow> (bool \<times> pipeline \<times> channel \<times> sock) option" where
  "session_loop E [] p ch s = Some (False, p, ch, s)"
| "session_loop E (n # ns) p ch s =
     (let p = (worker_step ^^ n) p
      in if pipeline_state p = Failed \<or> pipeline_state p = Stopped then Some (True, p, ch, s)
         else do {
           (connected, ch, s) \<leftarrow> session_pass E ch s;
           if connected then session_loop E ns p ch s else Some (True, p, ch, s)
         })"

section \<open>handleClient\<close>

datatype ending = Returned bool | Uncaught_exception | In_session

record client_result =
  ending :: ending
  authenticated :: bool
  rng_left :: rng
  client_sock :: sock

definition media_session ::
  "('c, 'p) openssl \<Rightarrow> surroundings \<Rightarrow> string \<Rightarrow> string \<Rightarrow> channel \<Rightarrow> sock \<Rightarrow> (ending \<times> sock) option" where
  "media_session E W url virtualCamera ch s =
     (let (ready, now) = waitForRtsp (probe W) url (clock s);
          s = s\<lparr>clock := now\<rparr>
      in if \<not> ready then Some (Returned False, s)
         else
           (case media W url virtualCamera of (h, os, schedule) \<Rightarrow>
              case start url virtualCamera (run h os) new_pipeline of (started, p) \<Rightarrow>
                if \<not> started then Some (Returned False, s)
                else do {
                  (ended, p, ch, s) \<leftarrow> session_loop E schedule p ch s;
                  if \<not> ended then Some (In_session, s)
                  else do {
                    p \<leftarrow> stop p;
                    Some (Returned True, s)
                  }
                }))"

definition after_handshake ::
  "('c, 'p) openssl \<Rightarrow> surroundings \<Rightarrow> string \<Rightarrow> bytes \<Rightarrow> sock \<Rightarrow> (ending \<times> sock) option" where
  "after_handshake E W clientIp sessionKey s =
     (case makeChannel E sessionKey True of
        None \<Rightarrow> Some (Uncaught_exception, s)
      | Some ch \<Rightarrow> do {
          (target, ch, s) \<leftarrow> activate E W clientIp sessionKey ch s;
          (case target of
             None \<Rightarrow> Some (Returned False, s)
           | Some (url, virtualCamera) \<Rightarrow> media_session E W url virtualCamera ch s)
        })"

definition handleClient ::
  "('c, 'p) openssl \<Rightarrow> surroundings \<Rightarrow> string \<Rightarrow> bytes \<Rightarrow> int \<Rightarrow> rng \<Rightarrow> sock \<Rightarrow> client_result option" where
  "handleClient E W clientIp secret pairingExpires r s =
     (case randomSecret r of
        (None, r) \<Rightarrow> Some \<lparr>ending = Returned False, authenticated = False, rng_left = r, client_sock = s\<rparr>
      | (Some serverNonce, r) \<Rightarrow> do {
          (key, s) \<leftarrow> handshake E secret pairingExpires serverNonce s;
          (case key of
             None \<Rightarrow> Some \<lparr>ending = Returned False, authenticated = False, rng_left = r, client_sock = s\<rparr>
           | Some sessionKey \<Rightarrow> do {
               (e, s) \<leftarrow> after_handshake E W clientIp sessionKey s;
               Some \<lparr>ending = e, authenticated = True, rng_left = r, client_sock = s\<rparr>
             })
        })"

section \<open>Facts about the handshake\<close>

lemma handshake_facts:
  assumes "handshake E secret expires serverNonce s = Some (key, s')"
  defines "hello \<equiv> frame_wire \<lparr>ftype = SERVER_HELLO, payload = serverNonce\<rparr>"
  shows "(key = None \<and> (\<exists>w. tx s' = tx s @ w \<and> prefix w hello))
    \<or> (\<exists>authFrame s1 s2 proof serverProof w.
         receiveFrame HANDSHAKE_TIMEOUT_MS s1 = Some (Some authFrame, s2) \<and> rx s1 = rx s
       \<and> ftype authFrame = CLIENT_AUTH \<and> length (payload authFrame) = 64
       \<and> makeProof E secret CLIENT_PROOF_DOMAIN serverNonce (take 32 (payload authFrame)) = Some proof
       \<and> constantTimeEqual E proof (drop 32 (payload authFrame)) (length proof)
       \<and> clock s2 < expires \<and> rx s' = rx s2
       \<and> makeProof E secret SERVER_PROOF_DOMAIN serverNonce (take 32 (payload authFrame)) = Some serverProof
       \<and> tx s' = tx s @ hello @ w \<and> prefix w (frame_wire \<lparr>ftype = SERVER_AUTH, payload = serverProof\<rparr>)
       \<and> (key \<noteq> None \<longrightarrow> w = frame_wire \<lparr>ftype = SERVER_AUTH, payload = serverProof\<rparr>
            \<and> deriveSessionKey E secret serverNonce (take 32 (payload authFrame)) = key))"
proof -
  obtain ok s1 where hi: "sendFrame SERVER_HELLO serverNonce HANDSHAKE_TIMEOUT_MS s = Some (ok, s1)"
    using assms(1) by (auto simp: handshake_def split: Option.bind_splits)
  obtain w1 where w1: "tx s1 = tx s @ w1" "prefix w1 hello" "ok \<longrightarrow> w1 = hello" and rx1: "rx s1 = rx s"
    using sendFrame_prefix[OF hi] hello_def by blast
  show ?thesis
  proof (cases ok)
    case False
    then show ?thesis using assms(1) hi w1 by (auto simp: handshake_def)
  next
    case True
    obtain r s2 where rcv: "receiveFrame HANDSHAKE_TIMEOUT_MS s1 = Some (r, s2)"
      using assms(1) hi True by (auto simp: handshake_def split: Option.bind_splits)
    have tx2: "tx s2 = tx s @ hello" using receiveFrame_consumes[OF rcv] w1 True by auto
    consider "key = None" "s' = s2"
      | authFrame p sp k ok2 where "r = Some authFrame" "ftype authFrame = CLIENT_AUTH"
        "length (payload authFrame) = 64"
        "makeProof E secret CLIENT_PROOF_DOMAIN serverNonce (take 32 (payload authFrame)) = Some p"
        "constantTimeEqual E p (drop 32 (payload authFrame)) (length p)" "clock s2 < expires"
        "makeProof E secret SERVER_PROOF_DOMAIN serverNonce (take 32 (payload authFrame)) = Some sp"
        "deriveSessionKey E secret serverNonce (take 32 (payload authFrame)) = Some k"
        "sendFrame SERVER_AUTH sp HANDSHAKE_TIMEOUT_MS s2 = Some (ok2, s')"
        "key = (if ok2 then Some k else None)"
      using assms(1) hi True rcv
      by (auto simp: handshake_def Let_def NONCE_SIZE_def not_le
          split: option.splits if_splits Option.bind_splits)
    then show ?thesis
    proof cases
      case 1
      then show ?thesis using tx2 by auto
    next
      case 2
      obtain w where "tx s' = tx s2 @ w" "prefix w (frame_wire \<lparr>ftype = SERVER_AUTH, payload = sp\<rparr>)"
        "ok2 \<longrightarrow> w = frame_wire \<lparr>ftype = SERVER_AUTH, payload = sp\<rparr>" "rx s' = rx s2"
        using sendFrame_prefix[OF 2(9)] by blast
      then have "tx s' = tx s @ hello @ w" "rx s' = rx s2"
        "key \<noteq> None \<longrightarrow> w = frame_wire \<lparr>ftype = SERVER_AUTH, payload = sp\<rparr>
            \<and> deriveSessionKey E secret serverNonce (take 32 (payload authFrame)) = key"
        using tx2 2(8,10) by auto
      with 2 rcv rx1 \<open>prefix w _\<close> show ?thesis by blast
    qed
  qed
qed

section \<open>Facts about activation and session\<close>

definition activation_message :: frame where
  "activation_message = \<lparr>ftype = ACTIVATION, payload = buildActivationPacket default_options\<rparr>"

lemma activate_facts:
  assumes "gcm_ok G" "activate (fst G) W clientIp sessionKey ch s = Some (target, ch', s')"
  shows "\<exists>w. tx s' = tx s @ w \<and> prefix w (channel_wire G (send_position ch) activation_message)"
    and "target \<noteq> None \<Longrightarrow> \<exists>m rest. rx s = channel_wire G (receive_position ch) m @ rest
      \<and> media_target (fst G) W clientIp sessionKey m = target"
    and "target \<noteq> None \<Longrightarrow> receive_position ch' = next_position (receive_position ch)"
proof -
  obtain r ch1 s1 where rcv: "channel_receive (fst G) ch DESCRIPTOR_TIMEOUT_MS s = Some (r, ch1, s1)"
    using assms(2) by (auto simp: activate_def split: Option.bind_splits)
  have tx1: "tx s1 = tx s" by (rule channel_receive_tx[OF rcv])
  have ch1: "ch1 = (if r = None then ch else ch\<lparr>receiveSequence := receiveSequence ch + 1\<rparr>)"
    using channel_receive_channel[OF rcv] by simp
  then have pos: "send_position ch1 = send_position ch" by simp
  consider (refused) "target = None" "s' = s1"
    | (sent) m tgt ok where "r = Some m" "media_target (fst G) W clientIp sessionKey m = Some tgt"
      "channel_send (fst G) ch1 ACTIVATION (buildActivationPacket default_options) HANDSHAKE_TIMEOUT_MS s1
         = Some (ok, ch', s')" "target = (if ok then Some tgt else None)"
    using assms(2) rcv by (auto simp: activate_def split: option.splits Option.bind_splits)
  then have "(\<exists>w. tx s' = tx s @ w \<and> prefix w (channel_wire G (send_position ch) activation_message))
    \<and> (target \<noteq> None \<longrightarrow> (\<exists>m rest. rx s = channel_wire G (receive_position ch) m @ rest
          \<and> media_target (fst G) W clientIp sessionKey m = target)
       \<and> receive_position ch' = next_position (receive_position ch))"
  proof cases
    case refused
    then show ?thesis using tx1 by simp
  next
    case (sent m tgt ok)
    have "rx s = channel_wire G (receive_position ch) m @ rx s1"
      using channel_receive_consumes(1)[OF assms(1)] rcv sent(1) by blast
    moreover have "receive_position ch' = next_position (receive_position ch)"
      using channel_send_channel[OF sent(3)] ch1 sent(1) by (auto split: if_splits)
    moreover have "\<exists>w. tx s' = tx s @ w \<and> prefix w (channel_wire G (send_position ch) activation_message)"
      using channel_send_prefix(2)[OF assms(1) sent(3)] tx1 pos by (simp add: activation_message_def)
    ultimately show ?thesis using sent(2,4) by auto
  qed
  then show "\<exists>w. tx s' = tx s @ w \<and> prefix w (channel_wire G (send_position ch) activation_message)"
    and "target \<noteq> None \<Longrightarrow> \<exists>m rest. rx s = channel_wire G (receive_position ch) m @ rest
      \<and> media_target (fst G) W clientIp sessionKey m = target"
    and "target \<noteq> None \<Longrightarrow> receive_position ch' = next_position (receive_position ch)" by blast+
qed

text \<open>Nothing is sent in the session, and while it goes on only error reports were received.\<close>

lemma session_pass_facts:
  assumes "session_pass E ch s = Some (b, ch', s')"
  shows "tx s' = tx s"
    and "b \<Longrightarrow> gcm_ok G \<Longrightarrow> fst G = E \<Longrightarrow>
      \<exists>ms. list_all (\<lambda>m. ftype m = ERROR_REPORT) ms \<and> length ms \<le> 1
        \<and> rx s = encode_from (channel_wire G) next_position (receive_position ch) ms @ rx s'
        \<and> receive_position ch' = (next_position ^^ length ms) (receive_position ch)"
proof -
  obtain r s1 where p: "sys_poll 250 s = Some (r, s1)"
    using assms by (auto simp: session_pass_def split: Option.bind_splits)
  note f = sys_poll_frame[OF p]
  consider (idle) "ch' = ch" "s' = s1"
    | (frame) f where "channel_receive E ch 2000 s1 = Some (f, ch', s')"
      "b = (case f of None \<Rightarrow> False | Some incoming \<Rightarrow> ftype incoming = ERROR_REPORT)"
    using assms p
    by (auto simp: session_pass_def split: poll_result.splits if_splits Option.bind_splits)
  note cases = this
  from cases show "tx s' = tx s"
    by cases (use f in \<open>auto dest: channel_receive_tx\<close>)
  assume b: b and G: "gcm_ok G" "fst G = E"
  from cases show "\<exists>ms. list_all (\<lambda>m. ftype m = ERROR_REPORT) ms \<and> length ms \<le> 1
        \<and> rx s = encode_from (channel_wire G) next_position (receive_position ch) ms @ rx s'
        \<and> receive_position ch' = (next_position ^^ length ms) (receive_position ch)"
  proof cases
    case idle
    then show ?thesis using f by (intro exI[of _ "[]"]) simp
  next
    case (frame fr)
    then obtain m where m: "fr = Some m" "ftype m = ERROR_REPORT" using b by (cases fr) auto
    note c = channel_receive_consumes[OF G(1) frame(1)[folded G(2), unfolded m(1)]]
    show ?thesis using c(1,5) m f by (intro exI[of _ "[m]"]) simp
  qed
qed

lemma encode_from_append:
  "encode_from code adv p (ms @ ns)
     = encode_from code adv p ms @ encode_from code adv ((adv ^^ length ms) p) ns"
  by (induction ms arbitrary: p) (simp_all add: funpow_swap1)

lemma session_loop_tx:
  "session_loop E ns p ch s = Some (b, p', ch', s') \<Longrightarrow> tx s' = tx s"
proof (induction ns arbitrary: p ch s)
  case Nil
  then show ?case by simp
next
  case (Cons n ns)
  let ?p = "(worker_step ^^ n) p"
  show ?case
  proof (cases "pipeline_state ?p = Failed \<or> pipeline_state ?p = Stopped")
    case True
    with Cons.prems show ?thesis by (simp add: Let_def)
  next
    case False
    then obtain c ch1 s1 where p: "session_pass E ch s = Some (c, ch1, s1)"
      using Cons.prems by (auto simp: Let_def split: Option.bind_splits)
    with session_pass_facts(1)[OF p] Cons False show ?thesis by (auto simp: Let_def split: if_splits)
  qed
qed

lemma session_loop_reports:
  assumes "gcm_ok G"
  shows "session_loop (fst G) ns p ch s = Some (False, p', ch', s') \<Longrightarrow>
    \<exists>fs. list_all (\<lambda>m. ftype m = ERROR_REPORT) fs \<and> length fs \<le> length ns
      \<and> rx s = encode_from (channel_wire G) next_position (receive_position ch) fs @ rx s'"
proof (induction ns arbitrary: p ch s)
  case Nil
  then show ?case by (intro exI[of _ "[]"]) simp
next
  case (Cons n ns)
  then obtain ch1 s1 where p: "session_pass (fst G) ch s = Some (True, ch1, s1)"
    and rest: "session_loop (fst G) ns ((worker_step ^^ n) p) ch1 s1 = Some (False, p', ch', s')"
    by (auto simp: Let_def split: if_splits Option.bind_splits)
  obtain fs where fs: "list_all (\<lambda>m. ftype m = ERROR_REPORT) fs" "length fs \<le> 1"
      "rx s = encode_from (channel_wire G) next_position (receive_position ch) fs @ rx s1"
      "receive_position ch1 = (next_position ^^ length fs) (receive_position ch)"
    using session_pass_facts(2)[OF p _ assms refl] by auto
  obtain gs where "list_all (\<lambda>m. ftype m = ERROR_REPORT) gs" "length gs \<le> length ns"
      "rx s1 = encode_from (channel_wire G) next_position (receive_position ch1) gs @ rx s'"
    using Cons.IH[OF rest] by blast
  with fs show ?case
    by (intro exI[of _ "fs @ gs"]) (simp add: encode_from_append)
qed

section \<open>Facts about handleClient\<close>

lemma makeProof_length: "makeProof E secret purpose n m = Some p \<Longrightarrow> length p = 32"
  by (auto simp: makeProof_def hmac_def split: if_splits Option.bind_splits)

lemma proof_compared:
  assumes "memcmp_lawful E" "constantTimeEqual E p (drop 32 pl) (length p)" "length p = 32" "length pl = 64"
  shows "pl = take 32 pl @ p"
proof -
  have "take 32 p = take 32 (drop 32 pl)"
    using assms by (simp add: memcmp_lawful_def constantTimeEqual_def)
  then have "drop 32 pl = p" using assms(3,4) by simp
  then show ?thesis by (metis append_take_drop_id)
qed

lemma media_session_facts:
  assumes "media_session E W url cam ch s = Some (e, s')"
  shows "tx s' = tx s"
    and "e = Returned False \<or> (e = Returned True \<or> e = In_session)
      \<and> (\<exists>i \<in> {1..MAX_ATTEMPTS}. runProbe (probe W url i))"
proof -
  obtain ready now where wt: "waitForRtsp (probe W) url (clock s) = (ready, now)" by force
  have "ready \<Longrightarrow> \<exists>i \<in> {1..MAX_ATTEMPTS}. runProbe (probe W url i)"
    using wt probe_attempts_found[of "probe W" url 1 "clock s"]
    by (auto simp: waitForRtsp_def split: prod.splits)
  moreover have "tx s' = tx s \<and> (e = Returned False \<or> ready \<and> (e = Returned True \<or> e = In_session))"
  proof (cases "ready \<and> url \<noteq> [] \<and> cam \<noteq> []")
    case False
    with assms wt show ?thesis
      by (auto simp: media_session_def start_def new_pipeline_def Let_def split: if_splits prod.splits)
  next
    case True
    with assms wt obtain ns p b p2 ch2
      where "session_loop E ns p ch (s\<lparr>clock := now\<rparr>) = Some (b, p2, ch2, s')"
        "e = (if b then Returned True else In_session)"
      by (auto simp: media_session_def start_def new_pipeline_def Let_def
          split: Option.bind_splits prod.splits if_splits)
    with session_loop_tx[OF this(1)] True show ?thesis by simp
  qed
  ultimately show "tx s' = tx s" "e = Returned False \<or> (e = Returned True \<or> e = In_session)
      \<and> (\<exists>i \<in> {1..MAX_ATTEMPTS}. runProbe (probe W url i))" by blast+
qed

text \<open>The channel the controller opens when the derivation succeeds, and what it then does.\<close>

lemma after_handshake_facts:
  assumes "gcm_ok G" "after_handshake (fst G) W clientIp K s = Some (e, s')"
  shows "s' = s \<and> e = Uncaught_exception \<and> makeChannel (fst G) K True = None
    \<or> (\<exists>ch w. makeChannel (fst G) K True = Some ch \<and> tx s' = tx s @ w
        \<and> prefix w (channel_wire G (send_position ch) activation_message)
        \<and> (e = Returned False \<or> (e = Returned True \<or> e = In_session) \<and>
            (\<exists>m rest url cam. rx s = channel_wire G (receive_position ch) m @ rest
               \<and> media_target (fst G) W clientIp K m = Some (url, cam)
               \<and> (\<exists>i \<in> {1..MAX_ATTEMPTS}. runProbe (probe W url i)))))"
proof (cases "makeChannel (fst G) K True")
  case None
  with assms show ?thesis by (simp add: after_handshake_def)
next
  case (Some ch)
  obtain target ch1 s1 where act: "activate (fst G) W clientIp K ch s = Some (target, ch1, s1)"
    using assms(2) Some by (auto simp: after_handshake_def split: Option.bind_splits)
  note a = activate_facts[OF assms(1) act]
  obtain w where w: "tx s1 = tx s @ w" "prefix w (channel_wire G (send_position ch) activation_message)"
    using a(1) by blast
  show ?thesis
  proof (cases target)
    case None
    with assms(2) Some act have "e = Returned False" "s' = s1" by (simp_all add: after_handshake_def)
    with Some w show ?thesis by blast
  next
    case tgt: (Some t)
    obtain url cam where t: "t = (url, cam)" by (cases t)
    have "media_session (fst G) W url cam ch1 s1 = Some (e, s')"
      using assms(2) Some act tgt t by (simp add: after_handshake_def)
    note m = media_session_facts[OF this]
    obtain d rest where "rx s = channel_wire G (receive_position ch) d @ rest"
      "media_target (fst G) W clientIp K d = Some (url, cam)"
      using a(2) tgt t by auto
    moreover have "tx s' = tx s @ w" using m(1) w(1) by simp
    ultimately show ?thesis using m(2) Some w(2) by blast
  qed
qed

lemma handleClient_cases:
  assumes "handleClient E W clientIp secret expires r s = Some res"
  obtains (no_random) "randomSecret r = (None, rng_left res)" "ending res = Returned False"
      "\<not> authenticated res" "client_sock res = s"
    | (refused) nonce where "randomSecret r = (Some nonce, rng_left res)"
      "handshake E secret expires nonce s = Some (None, client_sock res)" "ending res = Returned False"
      "\<not> authenticated res"
    | (paired) nonce K s1 where "randomSecret r = (Some nonce, rng_left res)"
      "handshake E secret expires nonce s = Some (Some K, s1)" "authenticated res"
      "after_handshake E W clientIp K s1 = Some (ending res, client_sock res)"
  using assms
  by (auto simp: handleClient_def split: prod.splits option.splits Option.bind_splits)

section \<open>The listener loop of main\<close>

text \<open>The pairing code shown: the text behind the QR code.\<close>

definition decimal_port :: string where "decimal_port = ''6969''"

definition pairing_payload :: "string \<Rightarrow> bytes \<Rightarrow> string" where
  "pairing_payload address secret = ''OCAM1|'' @ address @ ''|'' @ decimal_port @ ''|'' @ encodeHex secret"

definition showPairingQr :: "string \<Rightarrow> bytes \<Rightarrow> qr_host \<Rightarrow> (bool \<times> string) process" where
  "showPairingQr address secret h = displayPairingQr (pairing_payload address secret) h"

record listener =
  pairingExpires :: int
  now :: int
  rng_state :: rng

text \<open>
  What one pass of the loop meets: the showing of the code, the answer of \<open>poll\<close> on the
  listening socket, the result of \<open>accept4\<close> with the peer's address, and the times these calls
  take; a \<open>poll\<close> that times out takes its timeout and \<open>wait_time\<close> more.
\<close>

datatype listen_result = Ready | Timed_out | Listen_error errno

record pass_events =
  qr_host :: qr_host
  show_time :: nat
  listen_result :: listen_result
  wait_time :: nat
  accepted :: "(sock \<times> string option) option"
  accept_time :: nat

datatype exit_reason = Display_failed | No_random | Killed_by_signal | Never_returns | Terminated
  | Session_open

text \<open>What one pass leaves: the secret it showed, the client it handled, and how it goes on.\<close>

record pass_result =
  shown :: "bytes option"
  handled :: "client_result option"
  next_state :: "exit_reason + listener"

definition remaining_ms :: "listener \<Rightarrow> int" where
  "remaining_ms L = max 0 ((pairingExpires L - now L) div ns_per_ms)"

definition listen_wait :: "pass_events \<Rightarrow> listener \<Rightarrow> int" where
  "listen_wait ev L =
     (if listen_result ev = Timed_out then remaining_ms L * ns_per_ms else 0) + int (wait_time ev)"

text \<open>A new secret is drawn and a new lifetime begins.\<close>

definition renew :: "listener \<Rightarrow> exit_reason + listener" where
  "renew L =
     (case randomSecret (rng_state L) of
        (None, r) \<Rightarrow> Inl No_random
      | (Some secret, r) \<Rightarrow> Inr (L\<lparr>pairingExpires := now L + PAIRING_LIFETIME, rng_state := r\<rparr>))"

definition client_pass ::
  "('c, 'p) openssl \<Rightarrow> surroundings \<Rightarrow> bytes \<Rightarrow> listener \<Rightarrow> sock \<Rightarrow> string \<Rightarrow> pass_result" where
  "client_pass E W secret L client clientIp =
     (case handleClient E W clientIp secret (pairingExpires L) (rng_state L) (client\<lparr>clock := now L\<rparr>) of
        None \<Rightarrow> \<lparr>shown = Some secret, handled = None, next_state = Inl Never_returns\<rparr>
      | Some res \<Rightarrow>
          let L = L\<lparr>now := clock (client_sock res), rng_state := rng_left res\<rparr>
          in \<lparr>shown = Some secret, handled = Some res, next_state =
               (case ending res of
                  Uncaught_exception \<Rightarrow> Inl Terminated
                | In_session \<Rightarrow> Inl Session_open
                | Returned b \<Rightarrow> if authenticated res then renew L else Inr L)\<rparr>)"

definition main_pass ::
  "('c, 'p) openssl \<Rightarrow> surroundings \<Rightarrow> string \<Rightarrow> pass_events \<Rightarrow> listener \<Rightarrow> pass_result" where
  "main_pass E W localIp ev L =
     (case randomSecret (rng_state L) of
        (None, r) \<Rightarrow> \<lparr>shown = None, handled = None, next_state = Inl No_random\<rparr>
      | (Some pairingSecret, r) \<Rightarrow>
          let L = L\<lparr>rng_state := r\<rparr>
          in case showPairingQr localIp pairingSecret (qr_host ev) of
               Stuck \<Rightarrow> \<lparr>shown = None, handled = None, next_state = Inl Never_returns\<rparr>
             | Killed \<Rightarrow> \<lparr>shown = None, handled = None, next_state = Inl Killed_by_signal\<rparr>
             | Going (False, _) \<Rightarrow> \<lparr>shown = None, handled = None, next_state = Inl Display_failed\<rparr>
             | Going (True, _) \<Rightarrow>
                 let L = L\<lparr>now := now L + int (show_time ev)\<rparr>;
                     L = L\<lparr>now := now L + listen_wait ev L\<rparr>
                 in if listen_result ev = Timed_out \<or> now L \<ge> pairingExpires L
                    then \<lparr>shown = Some pairingSecret, handled = None, next_state = renew L\<rparr>
                    else if listen_result ev \<noteq> Ready
                    then \<lparr>shown = Some pairingSecret, handled = None, next_state = Inr L\<rparr>
                    else
                      let L = L\<lparr>now := now L + int (accept_time ev)\<rparr>
                      in case accepted ev of
                           None \<Rightarrow> \<lparr>shown = Some pairingSecret, handled = None, next_state = Inr L\<rparr>
                         | Some (client, peer) \<Rightarrow>
                             if now L \<ge> pairingExpires L
                             then \<lparr>shown = Some pairingSecret, handled = None, next_state = renew L\<rparr>
                             else client_pass E W pairingSecret L client
                                    (case peer of None \<Rightarrow> ''unknown'' | Some ip \<Rightarrow> ip))"

text \<open>The loop, as long as the account of what it meets goes.\<close>

fun main_loop ::
  "('c, 'p) openssl \<Rightarrow> surroundings \<Rightarrow> string \<Rightarrow> pass_events list \<Rightarrow> listener \<Rightarrow> pass_result list" where
  "main_loop E W localIp [] L = []"
| "main_loop E W localIp (ev # evs) L =
     (let p = main_pass E W localIp ev L
      in p # (case next_state p of Inl reason \<Rightarrow> [] | Inr L' \<Rightarrow> main_loop E W localIp evs L'))"

definition start_listener :: "int \<Rightarrow> rng \<Rightarrow> listener" where
  "start_listener t r = \<lparr>pairingExpires = t + PAIRING_LIFETIME, now = t, rng_state = r\<rparr>"

text \<open>The start of \<open>main\<close>: the local address, the listening socket, then the loop.\<close>

record service_host =
  network :: network_host
  control_socket :: bool
  bind_ok :: "string \<Rightarrow> bool"
  listen_ok :: bool

datatype start_result = No_address | No_control_socket | Not_bound | Serving string listener

definition start_service ::
  "(32 word \<Rightarrow> string option) \<Rightarrow> surroundings \<Rightarrow> service_host \<Rightarrow> int \<Rightarrow> rng \<Rightarrow> start_result" where
  "start_service inet_ntop W H t r =
     (let localIp = getLocalIpAddress inet_ntop (network H)
      in if localIp = [] then No_address
         else if \<not> control_socket H then No_control_socket
         else if \<not> inet_pton W localIp \<or> \<not> bind_ok H localIp \<or> \<not> listen_ok H then Not_bound
         else Serving localIp (start_listener t r))"

definition controller_main ::
  "('c, 'p) openssl \<Rightarrow> (32 word \<Rightarrow> string option) \<Rightarrow> surroundings \<Rightarrow> service_host \<Rightarrow> int \<Rightarrow> rng
     \<Rightarrow> pass_events list \<Rightarrow> pass_result list" where
  "controller_main E inet_ntop W H t r evs =
     (case start_service inet_ntop W H t r of
        Serving localIp L \<Rightarrow> main_loop E W localIp evs L
      | _ \<Rightarrow> [])"

section \<open>Everything comes back\<close>

lemma handshake_returns: "\<exists>k s'. handshake E secret expires nonce s = Some (k, s')"
proof -
  have t: "0 \<le> HANDSHAKE_TIMEOUT_MS" by (simp add: HANDSHAKE_TIMEOUT_MS_def)
  obtain b s1 where hi: "sendFrame SERVER_HELLO nonce HANDSHAKE_TIMEOUT_MS s = Some (b, s1)"
    using sendFrame_returns[OF t] by blast
  obtain f s2 where rcv: "receiveFrame HANDSHAKE_TIMEOUT_MS s1 = Some (f, s2)"
    using receiveFrame_returns[OF t] by blast
  have "\<exists>b s'. sendFrame SERVER_AUTH p HANDSHAKE_TIMEOUT_MS s2 = Some (b, s')" for p
    by (rule sendFrame_returns[OF t])
  then obtain g s3 where auth:
    "\<And>p. sendFrame SERVER_AUTH p HANDSHAKE_TIMEOUT_MS s2 = Some (g p, s3 p)" by metis
  show ?thesis
  proof (cases "b \<and> f \<noteq> None")
    case False
    with hi rcv show ?thesis by (auto simp: handshake_def)
  next
    case True
    then obtain a where a: "b" "f = Some a" by blast
    with hi rcv auth show ?thesis
      by (simp add: handshake_def Let_def split: option.split)
  qed
qed

lemma activate_returns: "\<exists>tgt ch' s'. activate E W ip K ch s = Some (tgt, ch', s')"
proof -
  have t: "0 \<le> HANDSHAKE_TIMEOUT_MS" "0 \<le> DESCRIPTOR_TIMEOUT_MS"
    by (simp_all add: HANDSHAKE_TIMEOUT_MS_def DESCRIPTOR_TIMEOUT_MS_def)
  obtain f ch1 s1 where rcv: "channel_receive E ch DESCRIPTOR_TIMEOUT_MS s = Some (f, ch1, s1)"
    using channel_receive_returns[OF t(2)] by blast
  obtain b ch2 s2 where "channel_send E ch1 ACTIVATION (buildActivationPacket default_options)
      HANDSHAKE_TIMEOUT_MS s1 = Some (b, ch2, s2)"
    using channel_send_returns[OF t(1)] by blast
  with rcv show ?thesis
    by (cases f) (auto simp: activate_def split: option.splits)
qed

lemma session_pass_returns: "\<exists>b ch' s'. session_pass E ch s = Some (b, ch', s')"
proof -
  obtain r s1 where p: "sys_poll 250 s = Some (r, s1)" using sys_poll_returns[of 250 s] by auto
  obtain f ch2 s2 where "channel_receive E ch 2000 s1 = Some (f, ch2, s2)"
    using channel_receive_returns[of 2000] by fastforce
  with p have "session_pass E ch s =
      Some (case r of PollError e \<Rightarrow> (e = EINTR, ch, s1) | PollTimeout \<Rightarrow> (True, ch, s1)
        | PollReady revents \<Rightarrow>
            if revents AND (POLLERR OR POLLHUP OR POLLNVAL) \<noteq> 0 then (False, ch, s1)
            else (case f of None \<Rightarrow> False | Some incoming \<Rightarrow> ftype incoming = ERROR_REPORT, ch2, s2))"
    by (cases r) (simp_all add: session_pass_def)
  then show ?thesis by (metis prod_cases3)
qed

lemma session_loop_returns: "\<exists>b p' ch' s'. session_loop E ns p ch s = Some (b, p', ch', s')"
proof (induction ns arbitrary: p ch s)
  case Nil
  show ?case using session_loop.simps(1) by blast
next
  case (Cons n ns)
  obtain b ch1 s1 where "session_pass E ch s = Some (b, ch1, s1)" using session_pass_returns by blast
  with Cons.IH show ?case by (cases b) (auto simp: Let_def)
qed

text \<open>The worker thread that \<open>start\<close> made is joined in the end, provided it comes to an end.\<close>

definition worker_ends :: "surroundings \<Rightarrow> bool" where
  "worker_ends W \<longleftrightarrow> (\<forall>url cam h os ns. media W url cam = (h, os, ns) \<longrightarrow> snd (run h os) \<noteq> None)"

lemma worker_step_ends: "map_option snd (worker ((worker_step ^^ n) p)) = map_option snd (worker p)"
  by (induction n) (auto simp: worker_step_def split: option.splits list.splits)

lemma session_loop_worker:
  "session_loop E ns p ch s = Some (b, p', ch', s') \<Longrightarrow> map_option snd (worker p') = map_option snd (worker p)"
proof (induction ns arbitrary: p ch s)
  case Nil
  then show ?case by simp
next
  case (Cons n ns)
  then show ?case using worker_step_ends[of n p]
    by (auto simp: Let_def split: if_splits Option.bind_splits)
qed

lemma stop_returns: "map_option snd (worker p) = Some True \<Longrightarrow> \<exists>p'. stop p = Some p'"
  by (auto simp: stop_def Let_def)

lemma media_session_returns:
  assumes "worker_ends W"
  shows "\<exists>e s'. media_session E W url cam ch s = Some (e, s')"
proof -
  obtain ready t where wt: "waitForRtsp (probe W) url (clock s) = (ready, t)" by force
  obtain h os ns where m: "media W url cam = (h, os, ns)" by (cases "media W url cam") auto
  obtain st p where st: "start url cam (run h os) new_pipeline = (st, p)" by force
  obtain b p2 ch2 s2 where l: "session_loop E ns p ch (s\<lparr>clock := t\<rparr>) = Some (b, p2, ch2, s2)"
    using session_loop_returns by blast
  have ends: "snd (run h os) \<noteq> None" using assms m unfolding worker_ends_def by blast
  show ?thesis
  proof (cases "ready \<and> st \<and> b")
    case False
    then show ?thesis using wt m st l by (cases ready; cases st; cases b) (simp_all add: media_session_def Let_def)
  next
    case True
    then have "map_option snd (worker p) = Some True"
      using st ends by (auto simp: start_def split: if_splits)
    then obtain p3 where "stop p2 = Some p3" using stop_returns session_loop_worker[OF l] by metis
    with True show ?thesis using wt m st l by (simp add: media_session_def Let_def)
  qed
qed

lemma after_handshake_returns:
  assumes "worker_ends W"
  shows "\<exists>e s'. after_handshake E W ip K s = Some (e, s')"
proof (cases "makeChannel E K True")
  case None
  then show ?thesis by (simp add: after_handshake_def)
next
  case (Some ch)
  obtain tgt ch1 s1 where a: "activate E W ip K ch s = Some (tgt, ch1, s1)"
    using activate_returns by blast
  with Some media_session_returns[OF assms] show ?thesis
    by (cases tgt) (auto simp: after_handshake_def split: prod.splits)
qed

lemma handleClient_returns:
  assumes "worker_ends W"
  shows "\<exists>res. handleClient E W ip secret expires r s = Some res"
proof -
  obtain nonce r' where rs: "randomSecret r = (nonce, r')" by force
  show ?thesis
  proof (cases nonce)
    case None
    with rs show ?thesis by (simp add: handleClient_def)
  next
    case (Some n)
    obtain k s1 where h: "handshake E secret expires n s = Some (k, s1)" using handshake_returns by blast
    show ?thesis
    proof (cases k)
      case None
      with rs Some h show ?thesis by (simp add: handleClient_def)
    next
      case k: (Some key)
      obtain e s2 where "after_handshake E W ip key s1 = Some (e, s2)"
        using after_handshake_returns[OF assms] by blast
      with rs Some h k show ?thesis by (simp add: handleClient_def)
    qed
  qed
qed

section \<open>A correct client is served\<close>

lemma handshake_serves:
  assumes "memcmp_lawful E" and sizes: "length nonce = 32" "length clientNonce = 32"
    and pf: "makeProof E secret CLIENT_PROOF_DOMAIN nonce clientNonce = Some proof"
    and sp: "makeProof E secret SERVER_PROOF_DOMAIN nonce clientNonce = Some serverProof"
    and key: "deriveSessionKey E secret nonce clientNonce = Some K"
    and rx: "rx s = frame_wire \<lparr>ftype = CLIENT_AUTH, payload = clientNonce @ proof\<rparr> @ rest"
    and time: "clock s < expires" and calm: "smooth (158 + n) s"
  shows "\<exists>s'. handshake E secret expires nonce s = Some (Some K, s') \<and> rx s' = rest
    \<and> clock s' = clock s \<and> smooth n s'"
proof -
  let ?T = "HANDSHAKE_TIMEOUT_MS" and ?f = "\<lparr>ftype = CLIENT_AUTH, payload = clientNonce @ proof\<rparr>"
  have T: "0 < ?T" by (simp add: HANDSHAKE_TIMEOUT_MS_def)
  have len: "length proof = 32" "length serverProof = 32" using pf sp by (simp_all add: makeProof_length)
  have ok: "frame_ok ?f" using sizes len by (simp add: frame_ok_def MAX_PAYLOAD_def)
  obtain s1 where s1: "sendFrame SERVER_HELLO nonce ?T s = Some (True, s1)" "smooth (116 + n) s1"
    "clock s1 = clock s"
    using sendFrame_smooth[OF T calm, of nonce SERVER_HELLO] sizes
    by (auto simp: MAX_PAYLOAD_def HEADER_SIZE_def)
  have "rx s1 = frame_wire ?f @ rest" using sendFrame_cases(1)[OF s1(1)] rx by simp
  from receiveFrame_smooth[OF T s1(2) ok this] sizes len
  obtain s2 where s2: "receiveFrame ?T s1 = Some (Some ?f, s2)" "rx s2 = rest" "smooth (42 + n) s2"
    "clock s2 = clock s" using s1(3) by (auto simp: HEADER_SIZE_def)
  obtain s3 where s3: "sendFrame SERVER_AUTH serverProof ?T s2 = Some (True, s3)" "smooth n s3"
    "clock s3 = clock s"
    using sendFrame_smooth[OF T s2(3), of serverProof SERVER_AUTH] len s2(4)
    by (auto simp: MAX_PAYLOAD_def HEADER_SIZE_def)
  have "rx s3 = rest" using sendFrame_cases(1)[OF s3(1)] s2(2) by simp
  moreover have "constantTimeEqual E proof proof (length proof)"
    using assms(1) by (simp add: constantTimeEqual_def memcmp_lawful_def)
  ultimately show ?thesis
    using s1 s2 s3 sizes len pf sp key time
    by (auto simp: handshake_def Let_def NONCE_SIZE_def)
qed

end
