(* ===== verification/Controller_Run.thy ===== *)
theory Controller_Run
  imports Controller
begin

text \<open>
  What the Linux controller guarantees: a client that does everything right is served, one
  that does not is turned away at the step where it fails, and the listener loop lets every
  pairing code open at most one session. The properties of \<open>Controller\<close> are stated here.
\<close>

section \<open>A correct client is served\<close>

lemma media_session_comes_back:
  assumes "worker_ends W" "1 \<le> i" "i \<le> MAX_ATTEMPTS" "runProbe (probe W url i)" "url \<noteq> []" "cam \<noteq> []"
  shows "\<exists>e s'. media_session E W url cam ch s = Some (e, s') \<and> (e = Returned True \<or> e = In_session)"
proof -
  obtain e s' where e: "media_session E W url cam ch s = Some (e, s')"
    using media_session_returns[OF assms(1)] by blast
  obtain ready now where wt: "waitForRtsp (probe W) url (clock s) = (ready, now)" by force
  then have ready using probe_attempts_found[of "probe W" url 1 "clock s"] assms(2-4)
    by (auto simp: waitForRtsp_def split: prod.splits)
  with e wt assms(5,6) have "e = Returned True \<or> e = In_session"
    by (auto simp: media_session_def start_def new_pipeline_def Let_def
        split: prod.splits Option.bind_splits if_splits)
  with e show ?thesis by blast
qed

lemma media_target_ready: "media_target E W ip K m = Some (url, cam) \<Longrightarrow> url \<noteq> [] \<and> cam \<noteq> []"
  by (auto simp: media_target_def authenticated_url_def Let_def split: if_splits sum.splits)

lemma activate_serves:
  assumes "gcm_ok G" "gcm_available (fst G) (snd (snd G))" and m: "message_ok m"
    and tgt: "media_target (fst G) W ip K m = Some target"
    and rx: "rx s = channel_wire G (receive_position ch) m @ rest"
    and fresh: "sendSequence ch = 0" "receiveSequence ch = 0"
    and calm: "smooth (108 + length (payload m)) s"
  shows "\<exists>ch' s'. activate (fst G) W ip K ch s = Some (Some target, ch', s')"
proof -
  have T: "0 < DESCRIPTOR_TIMEOUT_MS" "0 < HANDSHAKE_TIMEOUT_MS"
    by (simp_all add: HANDSHAKE_TIMEOUT_MS_def DESCRIPTOR_TIMEOUT_MS_def)
  obtain s1 where s1: "channel_receive (fst G) ch DESCRIPTOR_TIMEOUT_MS s
      = Some (Some m, ch\<lparr>receiveSequence := receiveSequence ch + 1\<rparr>, s1)" "smooth 74 s1"
    using channel_receive_delivers[OF assms(1,2) m _ rx T(1) calm] fresh
    by (auto simp: HEADER_SIZE_def ENCRYPTED_OVERHEAD_def GCM_TAG_SIZE_def)
  have len: "length (buildActivationPacket default_options) = 40" by code_simp
  then have ok: "message_ok \<lparr>ftype = ACTIVATION, payload = buildActivationPacket default_options\<rparr>"
    by (simp add: message_ok_def MAX_PAYLOAD_def ENCRYPTED_OVERHEAD_def GCM_TAG_SIZE_def)
  let ?ch = "ch\<lparr>receiveSequence := receiveSequence ch + 1\<rparr>"
  obtain ch2 s2 where "channel_send (fst G) ?ch ACTIVATION (buildActivationPacket default_options)
      HANDSHAKE_TIMEOUT_MS s1 = Some (True, ch2, s2)"
    using channel_send_delivers[OF assms(1,2) ok _ T(2) s1(2), of ?ch] len fresh
    by (auto simp: HEADER_SIZE_def ENCRYPTED_OVERHEAD_def GCM_TAG_SIZE_def)
  then show ?thesis using s1(1) tgt by (simp add: activate_def)
qed

lemma handleClient_serves:
  assumes G: "gcm_ok G" "gcm_available (fst G) (snd (snd G))" "memcmp_lawful (fst G)"
    and sizes: "length nonce = 32" "length clientNonce = 32"
    and pf: "makeProof (fst G) secret CLIENT_PROOF_DOMAIN nonce clientNonce = Some proof"
    and sp: "makeProof (fst G) secret SERVER_PROOF_DOMAIN nonce clientNonce = Some serverProof"
    and key: "deriveSessionKey (fst G) secret nonce clientNonce = Some K"
    and chan: "makeChannel (fst G) K True = Some ch"
    and m: "message_ok m" "media_target (fst G) W ip K m = Some (url, cam)"
    and ready: "worker_ends W" "1 \<le> i" "i \<le> MAX_ATTEMPTS" "runProbe (probe W url i)"
    and rx: "rx s = frame_wire \<lparr>ftype = CLIENT_AUTH, payload = clientNonce @ proof\<rparr>
      @ channel_wire G (receive_position ch) m @ rest"
    and time: "clock s < expires" and calm: "smooth (266 + length (payload m)) s"
  shows "\<exists>res. handleClient (fst G) W ip secret expires (Some nonce # r) s = Some res
    \<and> authenticated res \<and> (ending res = Returned True \<or> ending res = In_session) \<and> rng_left res = r"
proof -
  have "smooth (158 + (108 + length (payload m))) s" using calm by (simp add: add.assoc [symmetric])
  from handshake_serves[OF G(3) sizes pf sp key rx time this]
  obtain s1 where h: "handshake (fst G) secret expires nonce s = Some (Some K, s1)"
    and s1: "rx s1 = channel_wire G (receive_position ch) m @ rest" "smooth (108 + length (payload m)) s1"
    by blast
  obtain ch2 s2 where a: "activate (fst G) W ip K ch s1 = Some (Some (url, cam), ch2, s2)"
    using activate_serves[OF G(1,2) m s1(1) _ _ s1(2)] makeChannel_fields[OF chan] by blast
  obtain e s3 where "media_session (fst G) W url cam ch2 s2 = Some (e, s3)"
    "e = Returned True \<or> e = In_session"
    using media_session_comes_back[OF ready] media_target_ready[OF m(2)] by blast
  with h a chan show ?thesis
    by (simp add: handleClient_def randomSecret_def after_handshake_def)
qed

section \<open>Time goes on\<close>

lemma handshake_clock [clock_mono]:
  "handshake E secret expires nonce s = Some (k, s') \<Longrightarrow> clock s \<le> clock s'"
  by (fastforce simp: handshake_def Let_def split: if_splits Option.bind_splits option.splits
      dest: clock_mono)

lemma activate_clock [clock_mono]:
  "activate E W ip K ch s = Some (target, ch', s') \<Longrightarrow> clock s \<le> clock s'"
  by (fastforce simp: activate_def split: if_splits Option.bind_splits option.splits dest: clock_mono)

lemma session_pass_clock [clock_mono]:
  "session_pass E ch s = Some (b, ch', s') \<Longrightarrow> clock s \<le> clock s'"
  by (fastforce simp: session_pass_def split: if_splits Option.bind_splits poll_result.splits
      dest: clock_mono)

lemma session_loop_clock [clock_mono]:
  "session_loop E ns p ch s = Some (b, p', ch', s') \<Longrightarrow> clock s \<le> clock s'"
proof (induction ns arbitrary: p ch s)
  case Nil
  then show ?case by simp
next
  case (Cons n ns)
  let ?p = "(worker_step ^^ n) p"
  show ?case
  proof (cases "pipeline_state ?p = Failed \<or> pipeline_state ?p = Stopped")
    case True
    with Cons.prems show ?thesis by (simp add: Let_def)
  next
    case False
    then obtain c ch1 s1 where p: "session_pass E ch s = Some (c, ch1, s1)"
      using Cons.prems by (auto simp: Let_def split: Option.bind_splits)
    with session_pass_clock[OF p] Cons False show ?thesis by (fastforce simp: Let_def split: if_splits)
  qed
qed

lemma probe_attempts_clock: "probe_attempts pr url k t = (b, i, t') \<Longrightarrow> t \<le> t'"
proof (induction pr url k t rule: probe_attempts.induct)
  case (1 pr url k t)
  show ?case
  proof (cases "k > MAX_ATTEMPTS \<or> runProbe (pr url k)")
    case True
    with 1(2) show ?thesis by (subst (asm) probe_attempts.simps) (auto simp: Let_def split: if_splits)
  next
    case False
    let ?t = "if k \<noteq> MAX_ATTEMPTS then t + int (duration (pr url k)) + RETRY_DELAY_MS * ns_per_ms
      else t + int (duration (pr url k))"
    have "probe_attempts pr url (k + 1) ?t = (b, i, t')"
      using 1(2) False by (subst (asm) probe_attempts.simps) (simp add: Let_def)
    then have "?t \<le> t'" using 1(1) False by blast
    then show ?thesis by (auto simp: RETRY_DELAY_MS_def ns_per_ms_def split: if_splits)
  qed
qed

lemma media_session_clock [clock_mono]:
  "media_session E W url cam ch s = Some (e, s') \<Longrightarrow> clock s \<le> clock s'"
  by (fastforce simp: media_session_def waitForRtsp_def Let_def
      split: if_splits Option.bind_splits prod.splits dest: session_loop_clock probe_attempts_clock)

lemma after_handshake_clock [clock_mono]:
  "after_handshake E W ip K s = Some (e, s') \<Longrightarrow> clock s \<le> clock s'"
  by (fastforce simp: after_handshake_def split: option.splits Option.bind_splits prod.splits
      dest: activate_clock media_session_clock)

lemma handleClient_clock [clock_mono]:
  "handleClient E W ip secret expires r s = Some res \<Longrightarrow> clock s \<le> clock (client_sock res)"
  by (elim handleClient_cases) (auto dest!: clock_mono)

section \<open>One pass of the listener loop\<close>

text \<open>Draws are only ever taken from the front of the random source.\<close>

lemma handleClient_rng: "handleClient E W ip secret expires r s = Some res \<Longrightarrow> suffix (rng_left res) r"
  by (elim handleClient_cases) (auto simp: randomSecret_def suffix_def split: list.splits)

lemma renew_facts:
  assumes "renew L = Inr L'"
  shows "suffix (rng_state L') (rng_state L)" "now L' = now L" "pairingExpires L' = now L + PAIRING_LIFETIME"
  using assms by (auto simp: renew_def randomSecret_def suffix_def split: list.splits option.splits)

definition client_address :: "string option \<Rightarrow> string" where
  "client_address peer = (case peer of None \<Rightarrow> ''unknown'' | Some ip \<Rightarrow> ip)"

text \<open>
  A pass that shows a code takes it from the front of the random source. Either no client was
  handled, or one was, with this code and before the deadline.
\<close>

lemma main_pass_cases:
  assumes "main_pass E W ip ev L = p" "shown p = Some code"
  obtains r got L1 where "rng_state L = Some code # r"
    "showPairingQr ip code (qr_host ev) = Going (True, got)"
    "now L \<le> now L1" "pairingExpires L1 = pairingExpires L" "rng_state L1 = r"
    "handled p = None \<and> (next_state p = renew L1 \<or> next_state p = Inr L1)
      \<or> now L1 < pairingExpires L1 \<and>
        (\<exists>client peer. accepted ev = Some (client, peer) \<and> p = client_pass E W code L1 client (client_address peer))"
proof -
  obtain r where r: "rng_state L = Some code # r"
    using assms
    by (auto simp: main_pass_def randomSecret_def client_pass_def Let_def
        split: list.splits option.splits process.splits prod.splits bool.splits if_splits)
  obtain got where got: "showPairingQr ip code (qr_host ev) = Going (True, got)"
    using assms r
    by (auto simp: main_pass_def randomSecret_def Let_def split: process.splits prod.splits bool.splits)
  let ?L = "L\<lparr>rng_state := r, now := now L + int (show_time ev)\<rparr>"
  let ?L1 = "?L\<lparr>now := now ?L + listen_wait ev ?L\<rparr>"
  let ?L2 = "?L1\<lparr>now := now ?L1 + int (accept_time ev)\<rparr>"
  have t: "now L \<le> now ?L1"
    by (simp add: listen_wait_def remaining_ms_def ns_per_ms_def)
  consider "handled p = None" "next_state p = renew ?L1 \<or> next_state p = Inr ?L1"
    | "handled p = None" "next_state p = renew ?L2 \<or> next_state p = Inr ?L2"
    | client peer where "now ?L2 < pairingExpires ?L2" "accepted ev = Some (client, peer)"
      "p = client_pass E W code ?L2 client (client_address peer)"
    using assms(1) r got
    by (auto simp: main_pass_def randomSecret_def Let_def client_address_def not_le
        split: if_splits option.splits prod.splits)
  then show thesis
  proof cases
    case 1
    with r got t show thesis by (intro that[of r got ?L1]) auto
  next
    case 2
    with r got t show thesis by (intro that[of r got ?L2]) auto
  next
    case 3
    with r got t show thesis by (intro that[of r got ?L2]) auto
  qed
qed

lemma main_pass_shows:
  assumes "handled (main_pass E W ip ev L) \<noteq> None \<or> next_state (main_pass E W ip ev L) = Inr L'"
  obtains code where "shown (main_pass E W ip ev L) = Some code"
  using assms
  by (auto simp: main_pass_def client_pass_def Let_def
      split: list.splits option.splits process.splits prod.splits bool.splits if_splits)

lemma client_pass_handled:
  assumes "handled (client_pass E W code L client ip) = Some res"
  shows "handleClient E W ip code (pairingExpires L) (rng_state L) (client\<lparr>clock := now L\<rparr>) = Some res"
    and "next_state (client_pass E W code L client ip) =
      (let L1 = L\<lparr>now := clock (client_sock res), rng_state := rng_left res\<rparr>
       in case ending res of Uncaught_exception \<Rightarrow> Inl Terminated | In_session \<Rightarrow> Inl Session_open
          | Returned b \<Rightarrow> if authenticated res then renew L1 else Inr L1)"
  using assms by (auto simp: client_pass_def Let_def split: option.splits)

lemma main_pass_handled:
  assumes "main_pass E W ip ev L = p" "handled p = Some res"
  obtains code r L1 client peer where "shown p = Some code" "rng_state L = Some code # r"
    "rng_state L1 = r" "pairingExpires L1 = pairingExpires L"
    "now L \<le> now L1" "now L1 < pairingExpires L" "accepted ev = Some (client, peer)"
    "showPairingQr ip code (qr_host ev) = Going (True, pairing_payload ip code)"
    "p = client_pass E W code L1 client (client_address peer)"
proof -
  obtain code where c: "shown p = Some code" using assms main_pass_shows by blast
  from main_pass_cases[OF assms(1) c] obtain r got L1 client peer where
    "rng_state L = Some code # r" "showPairingQr ip code (qr_host ev) = Going (True, got)"
    "now L \<le> now L1" "pairingExpires L1 = pairingExpires L" "rng_state L1 = r"
    "now L1 < pairingExpires L1" "accepted ev = Some (client, peer)"
    "p = client_pass E W code L1 client (client_address peer)"
    using assms(2) by (metis option.distinct(1))
  moreover from this(2) have "got = pairing_payload ip code"
    by (auto simp: showPairingQr_def displayPairingQr_def dest!: write_all_prefix
        split: if_splits process.splits bool.splits option.splits)
  ultimately show thesis using c that by metis
qed

lemma main_pass_next:
  assumes "main_pass E W ip ev L = p" "next_state p = Inr L'"
  obtains code r where "shown p = Some code" "rng_state L = Some code # r" "suffix (rng_state L') r"
    "now L \<le> now L'"
    "pairingExpires L' = pairingExpires L \<or> pairingExpires L' = now L' + PAIRING_LIFETIME"
proof -
  obtain code where c: "shown p = Some code" using assms main_pass_shows by blast
  show thesis
  proof (cases rule: main_pass_cases[OF assms(1) c])
    case (1 r got L1)
    from 1(6) show thesis
    proof (elim disjE conjE exE)
      assume "next_state p = renew L1"
      then have n: "renew L1 = Inr L'" using assms(2) by simp
      show thesis
        by (rule that[OF c 1(1)]) (use renew_facts[OF n] 1(3,5) in simp_all)
    next
      assume "next_state p = Inr L1"
      then have "L' = L1" using assms(2) by simp
      then show thesis by (intro that[OF c 1(1)]) (use 1(3-5) in simp_all)
    next
      fix client peer
      assume p: "p = client_pass E W code L1 client (client_address peer)"
      obtain res where res: "handled p = Some res"
        using assms(2) by (auto simp: p client_pass_def Let_def split: option.splits)
      note h = client_pass_handled[OF res[unfolded p], folded p]
      have left: "suffix (rng_left res) r" "now L1 \<le> clock (client_sock res)"
        using handleClient_rng[OF h(1)] handleClient_clock[OF h(1)] 1(5) by simp_all
      have L': "renew (L1\<lparr>now := clock (client_sock res), rng_state := rng_left res\<rparr>) = Inr L'
          \<or> L' = L1\<lparr>now := clock (client_sock res), rng_state := rng_left res\<rparr>"
        using h(2) assms(2) by (auto simp: Let_def split: ending.splits if_splits)
      from L' have after: "suffix (rng_state L') (rng_left res)" "now L' = clock (client_sock res)"
        "pairingExpires L' = pairingExpires L1 \<or> pairingExpires L' = now L' + PAIRING_LIFETIME"
        using renew_facts[of "L1\<lparr>now := clock (client_sock res), rng_state := rng_left res\<rparr>" L'] by auto
      show thesis
        by (rule that[OF c 1(1)]) (use left after 1(3,4) in \<open>auto intro: suffix_order.trans\<close>)
    qed
  qed
qed

section \<open>The loop\<close>

text \<open>The codes shown, in order, are draws of the random source, in order.\<close>

lemma shown_drawn:
  "subseq (map Some (List.map_filter shown (main_loop E W ip evs L))) (rng_state L)"
proof (induction evs arbitrary: L)
  case Nil
  then show ?case by (simp add: map_filter_def)
next
  case (Cons ev evs)
  let ?p = "main_pass E W ip ev L"
  show ?case
  proof (cases "next_state ?p")
    case (Inl reason)
    show ?thesis
    proof (cases "shown ?p")
      case None
      with Inl show ?thesis by (simp add: map_filter_def)
    next
      case (Some code)
      obtain r where "rng_state L = Some code # r" by (rule main_pass_cases[OF refl Some])
      with Inl Some show ?thesis by (simp add: map_filter_def)
    qed
  next
    case (Inr L')
    obtain code r where pass: "shown ?p = Some code" "rng_state L = Some code # r"
        "suffix (rng_state L') r"
      by (rule main_pass_next[OF refl Inr])
    have "subseq (map Some (List.map_filter shown (main_loop E W ip evs L'))) r"
      by (rule subseq_order.trans[OF Cons suffix_imp_subseq[OF pass(3)]])
    then show ?thesis using Inr pass(1,2) by (simp add: map_filter_def)
  qed
qed

section \<open>What a client has proved\<close>

text \<open>
  The stream begins with an authentication frame that carries the proof, under the secret and
  the controller's nonce, for the nonce of the client, and it had arrived before the deadline.
\<close>

definition proves :: "('c, 'p) openssl \<Rightarrow> bytes \<Rightarrow> bytes \<Rightarrow> bytes \<Rightarrow> bytes \<Rightarrow> bool" where
  "proves E secret nonce clientNonce stream \<longleftrightarrow>
     (\<exists>proof rest. length clientNonce = 32
        \<and> makeProof E secret CLIENT_PROOF_DOMAIN nonce clientNonce = Some proof
        \<and> stream = frame_wire \<lparr>ftype = CLIENT_AUTH, payload = clientNonce @ proof\<rparr> @ rest)"

definition proof_arrived :: "('c, 'p) openssl \<Rightarrow> bytes \<Rightarrow> bytes \<Rightarrow> int \<Rightarrow> sock \<Rightarrow> bool" where
  "proof_arrived E secret nonce expires s \<longleftrightarrow>
     (\<exists>clientNonce authFrame s1 s2. proves E secret nonce clientNonce (rx s) \<and> rx s1 = rx s
        \<and> receiveFrame HANDSHAKE_TIMEOUT_MS s1 = Some (Some authFrame, s2)
        \<and> take 32 (payload authFrame) = clientNonce \<and> clock s2 < expires)"

lemma auth_frame_proves:
  assumes "memcmp_lawful E" "receiveFrame t s1 = Some (Some f, s2)" "rx s1 = rx s"
    "ftype f = CLIENT_AUTH" "length (payload f) = 64"
    "makeProof E secret CLIENT_PROOF_DOMAIN nonce (take 32 (payload f)) = Some p"
    "constantTimeEqual E p (drop 32 (payload f)) (length p)"
  shows "proves E secret nonce (take 32 (payload f)) (rx s)"
proof -
  have "payload f = take 32 (payload f) @ p"
    by (rule proof_compared[OF assms(1,7) makeProof_length[OF assms(6)] assms(5)])
  then have f_eq: "f = \<lparr>ftype = CLIENT_AUTH, payload = take 32 (payload f) @ p\<rparr>"
    using assms(4) by (cases f) simp
  have "rx s = frame_wire f @ rx s2" using receiveFrame_consumes[OF assms(2)] assms(3) by auto
  then show ?thesis
    unfolding proves_def using f_eq assms(5,6) by (intro exI[of _ p] exI[of _ "rx s2"]) auto
qed

lemma handshake_proved:
  assumes "memcmp_lawful E" "handshake E secret expires nonce s = Some (Some K, s')"
  shows "proof_arrived E secret nonce expires s"
proof -
  obtain f s1 s2 p where f: "receiveFrame HANDSHAKE_TIMEOUT_MS s1 = Some (Some f, s2)" "rx s1 = rx s"
    "ftype f = CLIENT_AUTH" "length (payload f) = 64" "clock s2 < expires"
    "makeProof E secret CLIENT_PROOF_DOMAIN nonce (take 32 (payload f)) = Some p"
    "constantTimeEqual E p (drop 32 (payload f)) (length p)"
    using handshake_facts[OF assms(2)] by auto
  have "proves E secret nonce (take 32 (payload f)) (rx s)"
    by (rule auth_frame_proves[OF assms(1) f(1,2,3,4,6,7)])
  with f show ?thesis unfolding proof_arrived_def by blast
qed

lemma handleClient_proved:
  assumes "memcmp_lawful E" "handleClient E W ip secret expires r s = Some res" "authenticated res"
  obtains nonce where "randomSecret r = (Some nonce, rng_left res)"
    "proof_arrived E secret nonce expires s"
  using handleClient_cases[OF assms(2)] handshake_proved[OF assms(1)] assms(3) that by metis

section \<open>What the controller says\<close>

text \<open>What follows the hello once the client has proved the secret.\<close>

definition transcript :: "('c, 'p) gcm \<Rightarrow> bytes \<Rightarrow> bytes \<Rightarrow> bytes \<Rightarrow> bytes" where
  "transcript G secret nonce clientNonce =
     (case makeProof (fst G) secret SERVER_PROOF_DOMAIN nonce clientNonce of
        None \<Rightarrow> []
      | Some serverProof \<Rightarrow> frame_wire \<lparr>ftype = SERVER_AUTH, payload = serverProof\<rparr> @
          (case Option.bind (deriveSessionKey (fst G) secret nonce clientNonce)
                  (\<lambda>K. makeChannel (fst G) K True) of
             None \<Rightarrow> []
           | Some ch \<Rightarrow> channel_wire G (send_position ch) activation_message))"

lemma handshake_writes:
  assumes "memcmp_lawful E" "handshake E secret expires nonce s = Some (k, s')"
  defines "hello \<equiv> frame_wire \<lparr>ftype = SERVER_HELLO, payload = nonce\<rparr>"
  obtains w where "tx s' = tx s @ w" "prefix w hello" "k = None"
    | clientNonce serverProof w where "proves E secret nonce clientNonce (rx s)"
      "makeProof E secret SERVER_PROOF_DOMAIN nonce clientNonce = Some serverProof"
      "tx s' = tx s @ hello @ w" "prefix w (frame_wire \<lparr>ftype = SERVER_AUTH, payload = serverProof\<rparr>)"
      "k \<noteq> None \<longrightarrow> w = frame_wire \<lparr>ftype = SERVER_AUTH, payload = serverProof\<rparr>
         \<and> deriveSessionKey E secret nonce clientNonce = k"
  using handshake_facts[OF assms(2)]
proof (elim disjE exE conjE)
  fix w assume "k = None" "tx s' = tx s @ w" "prefix w (frame_wire \<lparr>ftype = SERVER_HELLO, payload = nonce\<rparr>)"
  then show thesis using that(1) by (simp add: hello_def)
next
  fix f s1 s2 p sp w
  assume f: "receiveFrame HANDSHAKE_TIMEOUT_MS s1 = Some (Some f, s2)" "rx s1 = rx s"
    "ftype f = CLIENT_AUTH" "length (payload f) = 64"
    "makeProof E secret CLIENT_PROOF_DOMAIN nonce (take 32 (payload f)) = Some p"
    "constantTimeEqual E p (drop 32 (payload f)) (length p)"
    and rest: "makeProof E secret SERVER_PROOF_DOMAIN nonce (take 32 (payload f)) = Some sp"
    "tx s' = tx s @ frame_wire \<lparr>ftype = SERVER_HELLO, payload = nonce\<rparr> @ w"
    "prefix w (frame_wire \<lparr>ftype = SERVER_AUTH, payload = sp\<rparr>)"
    "k \<noteq> None \<longrightarrow> w = frame_wire \<lparr>ftype = SERVER_AUTH, payload = sp\<rparr>
            \<and> deriveSessionKey E secret nonce (take 32 (payload f)) = k"
  have "proves E secret nonce (take 32 (payload f)) (rx s)"
    by (rule auth_frame_proves[OF assms(1) f])
  then show thesis using that(2) rest by (simp add: hello_def)
qed

lemma handleClient_writes:
  assumes "gcm_ok G" "memcmp_lawful (fst G)" "handleClient (fst G) W ip secret expires r s = Some res"
  shows "\<exists>w. tx (client_sock res) = tx s @ w \<and>
    (w = [] \<or> (\<exists>nonce. randomSecret r = (Some nonce, rng_left res) \<and>
       (prefix w (frame_wire \<lparr>ftype = SERVER_HELLO, payload = nonce\<rparr>)
        \<or> (\<exists>clientNonce. proves (fst G) secret nonce clientNonce (rx s)
          \<and> prefix w (frame_wire \<lparr>ftype = SERVER_HELLO, payload = nonce\<rparr>
               @ transcript G secret nonce clientNonce)))))"
proof (rule handleClient_cases[OF assms(3)])
  assume "client_sock res = s"
  then show ?thesis by simp
next
  fix nonce assume "randomSecret r = (Some nonce, rng_left res)"
    and h: "handshake (fst G) secret expires nonce s = Some (None, client_sock res)"
  then show ?thesis
    by (rule_tac handshake_writes[OF assms(2) h]) (force simp: transcript_def)+
next
  fix nonce K s1 assume n: "randomSecret r = (Some nonce, rng_left res)"
    and h: "handshake (fst G) secret expires nonce s = Some (Some K, s1)"
    and a: "after_handshake (fst G) W ip K s1 = Some (ending res, client_sock res)"
  obtain cn sp where c: "proves (fst G) secret nonce cn (rx s)"
    "makeProof (fst G) secret SERVER_PROOF_DOMAIN nonce cn = Some sp"
    "tx s1 = tx s @ frame_wire \<lparr>ftype = SERVER_HELLO, payload = nonce\<rparr>
       @ frame_wire \<lparr>ftype = SERVER_AUTH, payload = sp\<rparr>"
    "deriveSessionKey (fst G) secret nonce cn = Some K"
    by (rule handshake_writes[OF assms(2) h]) auto
  obtain w where "tx (client_sock res) = tx s1 @ w"
    "prefix (frame_wire \<lparr>ftype = SERVER_AUTH, payload = sp\<rparr> @ w) (transcript G secret nonce cn)"
    using after_handshake_facts[OF assms(1) a] c(2,4) by (auto simp: transcript_def)
  with c(1,3) n show ?thesis by auto
qed

lemma handshake_keyed:
  assumes "memcmp_lawful E" "handshake E secret expires nonce s = Some (Some K, s')"
  obtains clientNonce auth where "proves E secret nonce clientNonce auth" "rx s = auth @ rx s'"
    "deriveSessionKey E secret nonce clientNonce = Some K"
proof -
  obtain f s1 s2 p where f: "receiveFrame HANDSHAKE_TIMEOUT_MS s1 = Some (Some f, s2)" "rx s1 = rx s"
    "ftype f = CLIENT_AUTH" "length (payload f) = 64"
    "makeProof E secret CLIENT_PROOF_DOMAIN nonce (take 32 (payload f)) = Some p"
    "constantTimeEqual E p (drop 32 (payload f)) (length p)" "rx s' = rx s2"
    "deriveSessionKey E secret nonce (take 32 (payload f)) = Some K"
    using handshake_facts[OF assms(2)] by auto
  have wire: "rx s = frame_wire f @ rx s'" using receiveFrame_consumes[OF f(1)] f(2,7) by auto
  obtain q rest where q: "length (take 32 (payload f)) = 32"
    "makeProof E secret CLIENT_PROOF_DOMAIN nonce (take 32 (payload f)) = Some q"
    "rx s = frame_wire \<lparr>ftype = CLIENT_AUTH, payload = take 32 (payload f) @ q\<rparr> @ rest"
    using auth_frame_proves[OF assms(1) f(1-6)] by (auto simp: proves_def)
  have "payload f = take 32 (payload f) @ q"
    using proof_compared[OF assms(1) f(6) makeProof_length[OF f(5)] f(4)] f(5) q(2) by simp
  then have "f = \<lparr>ftype = CLIENT_AUTH, payload = take 32 (payload f) @ q\<rparr>"
    using f(3) by (cases f) simp
  then have "proves E secret nonce (take 32 (payload f)) (frame_wire f)"
    unfolding proves_def using q(1,2) by (metis append_Nil2)
  with wire f(8) show thesis using that by blast
qed

text \<open>What a session rests on: a stream that proves the secret and then announces a usable camera.\<close>

definition announces ::
  "('c, 'p) gcm \<Rightarrow> surroundings \<Rightarrow> string \<Rightarrow> bytes \<Rightarrow> bytes \<Rightarrow> bool" where
  "announces G W ip K stream \<longleftrightarrow>
     (\<exists>ch m rest d. makeChannel (fst G) K True = Some ch
        \<and> stream = channel_wire G (receive_position ch) m @ rest
        \<and> ftype m = DESCRIPTOR \<and> parseDeviceDescriptor (payload m) = Inr d
        \<and> isAllowedRtspEndpoint (inet_pton W) (rtspUrl d) ip
        \<and> findOpenCamDevice (class_dir W) \<noteq> []
        \<and> (\<exists>i. 1 \<le> i \<and> i \<le> MAX_ATTEMPTS
             \<and> runProbe (probe W (authenticated_url (deriveMediaPassword (fst G) K) (rtspUrl d)) i)))"

lemma handleClient_announced:
  assumes "gcm_ok G" "memcmp_lawful (fst G)" "handleClient (fst G) W ip secret expires r s = Some res"
    and "ending res = Returned True \<or> ending res = In_session"
  obtains nonce clientNonce K auth stream where "authenticated res"
    "randomSecret r = (Some nonce, rng_left res)" "rx s = auth @ stream"
    "proves (fst G) secret nonce clientNonce auth"
    "deriveSessionKey (fst G) secret nonce clientNonce = Some K" "announces G W ip K stream"
proof (rule handleClient_cases[OF assms(3)])
  fix nonce K s1 assume n: "randomSecret r = (Some nonce, rng_left res)" "authenticated res"
    and h: "handshake (fst G) secret expires nonce s = Some (Some K, s1)"
    and a: "after_handshake (fst G) W ip K s1 = Some (ending res, client_sock res)"
  obtain ch m rest url cam i where
    "makeChannel (fst G) K True = Some ch" "rx s1 = channel_wire G (receive_position ch) m @ rest"
    "media_target (fst G) W ip K m = Some (url, cam)"
    "i \<in> {1..MAX_ATTEMPTS}" "runProbe (probe W url i)"
    using after_handshake_facts[OF assms(1) a] assms(4) by auto
  then have "announces G W ip K (rx s1)"
    unfolding announces_def media_target_def
    by (auto simp: Let_def split: if_splits sum.splits)
  then show thesis
    by (rule_tac handshake_keyed[OF assms(2) h]) (rule that[OF n(2,1)])
qed (use assms(4) in auto)

section \<open>Reachable states of the listener\<close>

inductive listens ::
  "('c, 'p) openssl \<Rightarrow> surroundings \<Rightarrow> string \<Rightarrow> listener \<Rightarrow> listener \<Rightarrow> bool"
  for E W ip L0 where
  begins: "listens E W ip L0 L0"
| goes_on: "listens E W ip L0 L \<Longrightarrow> next_state (main_pass E W ip ev L) = Inr L' \<Longrightarrow> listens E W ip L0 L'"

definition deadline_ok :: "listener \<Rightarrow> bool" where
  "deadline_ok L \<longleftrightarrow> pairingExpires L \<le> now L + PAIRING_LIFETIME"

lemma deadline_ok_start: "deadline_ok (start_listener t r)"
  by (simp add: deadline_ok_def start_listener_def)

lemma deadline_ok_pass:
  assumes "next_state (main_pass E W ip ev L) = Inr L'" "deadline_ok L"
  shows "deadline_ok L'"
  by (rule main_pass_next[OF refl assms(1)]) (use assms(2) in \<open>auto simp: deadline_ok_def\<close>)

lemma listens_facts:
  assumes "listens E W ip L0 L"
  shows "suffix (rng_state L) (rng_state L0)" "now L0 \<le> now L" "deadline_ok L0 \<longrightarrow> deadline_ok L"
  using assms
proof (induction rule: listens.induct)
  case begins
  show "suffix (rng_state L0) (rng_state L0)" "now L0 \<le> now L0" "deadline_ok L0 \<longrightarrow> deadline_ok L0" by simp_all
next
  case (goes_on L ev L')
  obtain code r where p: "rng_state L = Some code # r" "suffix (rng_state L') r" "now L \<le> now L'"
    by (rule main_pass_next[OF refl goes_on(2)])
  show "suffix (rng_state L') (rng_state L0)"
    using goes_on(3) p(1,2) by (metis suffix_ConsI suffix_order.trans)
  show "now L0 \<le> now L'" using goes_on(4) p(3) by simp
  show "deadline_ok L0 \<longrightarrow> deadline_ok L'" using goes_on(5) deadline_ok_pass[OF goes_on(2)] by blast
qed

text \<open>Later passes show later draws.\<close>

lemma main_loop_listens:
  "j < length (main_loop E W ip evs L) \<Longrightarrow>
     \<exists>L' ev. listens E W ip L L' \<and> main_loop E W ip evs L ! j = main_pass E W ip ev L'"
proof (induction evs arbitrary: L j)
  case Nil
  then show ?case by simp
next
  case (Cons ev evs)
  show ?case
  proof (cases j)
    case 0
    then show ?thesis using listens.begins by (metis main_loop.simps(2) nth_Cons_0)
  next
    case (Suc k)
    then obtain L1 where L1: "next_state (main_pass E W ip ev L) = Inr L1"
      using Cons.prems by (auto simp: Let_def split: sum.splits)
    then obtain L' ev' where "listens E W ip L1 L'"
      "main_loop E W ip evs L1 ! k = main_pass E W ip ev' L'"
      using Cons.IH[of k L1] Cons.prems Suc by auto
    moreover have "listens E W ip L L'"
      using \<open>listens E W ip L1 L'\<close>
      by (induction rule: listens.induct) (auto intro: listens.intros L1)
    ultimately show ?thesis using L1 Suc by (auto simp: Let_def)
  qed
qed

lemma shown_distinct:
  assumes "distinct (filter (\<lambda>d. d \<noteq> None) (rng_state L))"
    and "i < length (main_loop E W ip evs L)" "j < length (main_loop E W ip evs L)" "i \<noteq> j"
    and "shown (main_loop E W ip evs L ! i) = Some code"
  shows "shown (main_loop E W ip evs L ! j) \<noteq> Some code"
proof
  let ?ps = "main_loop E W ip evs L"
  assume j: "shown (?ps ! j) = Some code"
  have "subseq (filter (\<lambda>d. d \<noteq> None) (map Some (List.map_filter shown ?ps)))
      (filter (\<lambda>d. d \<noteq> None) (rng_state L))"
    by (rule subseq_filter[OF shown_drawn])
  then have "distinct (filter (\<lambda>d. d \<noteq> None) (map Some (List.map_filter shown ?ps)))"
    using assms(1) by (metis subseq_conv_nths distinct_nthsI)
  then have dist: "distinct (List.map_filter shown ?ps)" by (simp add: distinct_map)
  have two: "distinct (List.map_filter f ps) \<Longrightarrow> a < b \<Longrightarrow> b < length ps \<Longrightarrow> f (ps ! a) = Some x
      \<Longrightarrow> f (ps ! b) \<noteq> Some x" for f :: "pass_result \<Rightarrow> bytes option" and ps a b x
  proof -
    assume d: "distinct (List.map_filter f ps)" and ab: "a < b" "b < length ps" and fa: "f (ps ! a) = Some x"
    have "ps = take b ps @ ps ! b # drop (Suc b) ps" using ab(2) by (rule id_take_nth_drop)
    then have "distinct (List.map_filter f (take b ps) @ List.map_filter f (ps ! b # drop (Suc b) ps))"
      using d by (metis map_filter_def filter_append map_append)
    moreover have "x \<in> set (List.map_filter f (take b ps))"
      using fa ab by (force simp: map_filter_def in_set_conv_nth)
    moreover have "f (ps ! b) = Some x \<Longrightarrow> x \<in> set (List.map_filter f (ps ! b # drop (Suc b) ps))"
      by (simp add: map_filter_def)
    ultimately show "f (ps ! b) \<noteq> Some x" unfolding distinct_append by blast
  qed
  show False
    using two[OF dist, of i j] two[OF dist, of j i] assms(2-5) j by (metis linorder_neqE_nat)
qed

section \<open>A sample run\<close>

definition demo_outside :: outside where
  "demo_outside = \<lparr>stop_in = None, video_writes = [], video_polls = [], shown_frames = [], processing_error = []\<rparr>"

definition demo_pipeline_host :: pipeline_host where
  "demo_pipeline_host = \<lparr>av_network_init = - 1, input_alloc = True, input_open = 0, input_info = 0,
     input_streams = [Video], decoder_ready = True, device_open = True,
     device = \<lparr>querycap = [], capabilities = 0, device_caps = 0, s_fmt = [], pix_width = 0, pix_height = 0,
       pixelformat = 0, bytesperline = 0, sizeimage = 0, s_parm = []\<rparr>,
     buffers_alloc = True, frame_buffer = True, av_strerror = (\<lambda>code. None),
     packet_reads = [], frame_answers = []\<rparr>"

definition demo_world :: surroundings where
  "demo_world = \<lparr>inet_pton = (\<lambda>h. h = demo_ip),
     class_dir = Some [\<lparr>entry_name = ''video9'', is_directory = True, is_symlink = False,
       name_file = Some ''OpenCam''\<rparr>],
     probe = (\<lambda>url i. \<lparr>network_init = 0, alloc_ok = True, open_input = 0, stream_info = 0,
       streams = [Video], duration = 0\<rparr>),
     media = (\<lambda>url cam. (demo_pipeline_host, demo_outside, [0, 1]))\<rparr>"

lemma demo_worker_ends: "worker_ends demo_world"
proof -
  have "snd (run demo_pipeline_host demo_outside) = Some demo_outside"
    by (simp add: run_def run_setup_def demo_pipeline_host_def)
  then show ?thesis by (auto simp: worker_ends_def demo_world_def)
qed

definition demo_phone :: DeviceDescriptor where
  "demo_phone = demo_descriptor\<lparr>rtspUrl := ''rtsp://'' @ demo_ip @ '':8554/live/'' @ demo_token\<rparr>"

definition demo_announcement :: frame where
  "demo_announcement = \<lparr>ftype = DESCRIPTOR, payload = putDescriptor demo_phone\<rparr>"

lemma demo_phone_ok: "descriptor_ok demo_phone"
  by code_simp

lemma demo_announcement_size: "length (payload demo_announcement) = 85"
  by code_simp

lemma demo_announcement_ok: "message_ok demo_announcement"
  by (simp add: message_ok_def demo_announcement_size MAX_PAYLOAD_def ENCRYPTED_OVERHEAD_def GCM_TAG_SIZE_def)

lemma demo_parse: "parseDeviceDescriptor (payload demo_announcement) = Inr demo_phone"
  using demo_phone_ok demo_announcement_size by (auto simp: parseDeviceDescriptor_iff demo_announcement_def)

lemma demo_allowed: "isAllowedRtspEndpoint (\<lambda>h. h = demo_ip) (rtspUrl demo_phone) demo_ip"
  unfolding isAllowedRtspEndpoint_iff[OF demo_inet_lawful demo_endpoint(2)]
  using demo_endpoint(1) by (auto simp: demo_phone_def)

lemma demo_target:
  "\<exists>url. media_target sample demo_world demo_ip K demo_announcement = Some (url, ''/dev/video9'')"
proof -
  have "findOpenCamDevice (class_dir demo_world) = ''/dev/video9''" by code_simp
  moreover have "length (deriveMediaPassword sample K) = 64"
    by (simp add: deriveMediaPassword_def hmac_def sample_def)
  moreover have "ftype demo_announcement = DESCRIPTOR" "inet_pton demo_world = (\<lambda>h. h = demo_ip)"
    by (simp_all add: demo_announcement_def demo_world_def)
  ultimately show ?thesis using demo_parse demo_allowed by (simp add: media_target_def)
qed
lemma sample_keys:
  "\<exists>p. makeProof sample k d n m = Some p" "\<exists>K. deriveSessionKey sample k n m = Some K" "\<exists>ch. makeChannel sample K b = Some ch"
    by (simp_all add: makeProof_def hmac_def sample_def deriveSessionKey_def hkdfExtractAndExpand_def makeChannel_def hkdfExpand_def KEY_SIZE_def)

text \<open>A client with the right proof and this announcement, on a quiet connection.\<close>

lemma demo_run:
  assumes "0 < expires"
  obtains s res where
    "handleClient sample demo_world demo_ip demo_secret expires
       (Some (replicate 32 1) # r) s = Some res"
    "authenticated res" "ending res = Returned True \<or> ending res = In_session" "rng_left res = r"
    "tx s = []" "clock s = 0"
proof -
  let ?n = "replicate 32 (1 :: byte)" and ?c = "replicate 32 (2 :: byte)"
  obtain p q K ch where k: "makeProof sample demo_secret CLIENT_PROOF_DOMAIN ?n ?c = Some p"
    "makeProof sample demo_secret SERVER_PROOF_DOMAIN ?n ?c = Some q"
    "deriveSessionKey sample demo_secret ?n ?c = Some K" "makeChannel sample K True = Some ch"
    using sample_keys by meson
  obtain url where url: "media_target sample demo_world demo_ip K demo_announcement = Some (url, ''/dev/video9'')"
    using demo_target by blast
  let ?s = "quiet 400 (frame_wire \<lparr>ftype = CLIENT_AUTH, payload = ?c @ p\<rparr>
      @ channel_wire sample_gcm (receive_position ch) demo_announcement @ [])"
  have "runProbe (probe demo_world url 1)" by (simp add: demo_world_def runProbe_def)
  then obtain res where "handleClient sample demo_world demo_ip demo_secret expires (Some ?n # r) ?s = Some res"
    "authenticated res" "ending res = Returned True \<or> ending res = In_session" "rng_left res = r"
    using handleClient_serves[of sample_gcm ?n ?c demo_secret p q K ch demo_announcement demo_world
        demo_ip url "''/dev/video9''" 1 ?s "[]" expires r] k url sample_available sample_memcmp demo_announcement_ok demo_worker_ends assms
    by (auto simp: MAX_ATTEMPTS_def demo_announcement_size)
  then show thesis by (rule that) simp_all
qed

text \<open>A listener pass in which a client comes at once, and two clients for it.\<close>

definition demo_events :: "sock \<Rightarrow> pass_events" where
  "demo_events s = \<lparr>qr_host = \<lparr>pipe_ok = True, fork_ok = True, writes = [Wrote 1000], waited = Some (Exited 0)\<rparr>,
     show_time = 0, listen_result = Ready, wait_time = 0, accepted = Some (s, Some demo_ip), accept_time = 0\<rparr>"

definition demo_listener :: listener where
  "demo_listener = start_listener 0 [Some demo_secret, Some (replicate 32 1), Some (replicate 32 2)]"

lemma demo_shown: "showPairingQr demo_ip demo_secret (qr_host (demo_events s))
    = Going (True, pairing_payload demo_ip demo_secret)"
  by (simp add: demo_events_def showPairingQr_def displayPairingQr_def pairing_payload_def demo_ip_def
      demo_secret_def decimal_port_def hex_digits_def)

lemma demo_main_pass:
  "main_pass sample demo_world demo_ip (demo_events s) demo_listener
     = client_pass sample demo_world demo_secret
         (demo_listener\<lparr>rng_state := [Some (replicate 32 1), Some (replicate 32 2)]\<rparr>) s demo_ip"
  using demo_shown
  by (simp add: main_pass_def demo_listener_def start_listener_def randomSecret_def Let_def
      listen_wait_def PAIRING_LIFETIME_def ns_per_ms_def demo_events_def)

lemma demo_listener_fields [simp]: "now demo_listener = 0" "0 < pairingExpires demo_listener"
  by (simp_all add: demo_listener_def start_listener_def PAIRING_LIFETIME_def ns_per_ms_def)

lemma demo_served:
  obtains s res where
    "handled (main_pass sample demo_world demo_ip (demo_events s) demo_listener) = Some res" "authenticated res"
proof -
  obtain s res where run: "handleClient sample demo_world demo_ip demo_secret (pairingExpires demo_listener)
      [Some (replicate 32 1), Some (replicate 32 2)] s = Some res" "authenticated res" "clock s = 0"
    by (rule demo_run[OF demo_listener_fields(2)])
  from run(3) have "handleClient sample demo_world demo_ip demo_secret (pairingExpires demo_listener)
      [Some (replicate 32 1), Some (replicate 32 2)] (s\<lparr>clock := 0\<rparr>) = Some res"
    unfolding run(1)[symmetric] by (cases s) simp
  then show thesis using run(2)
    by (intro that[of s res]) (simp_all add: demo_main_pass client_pass_def Let_def)
qed

lemma demo_turned_away:
  obtains res where
    "handled (main_pass sample demo_world demo_ip (demo_events (quiet 0 [])) demo_listener) = Some res"
    "\<not> authenticated res"
proof -
  obtain res where res: "handleClient sample demo_world demo_ip demo_secret (pairingExpires demo_listener)
      [Some (replicate 32 1), Some (replicate 32 2)] ((quiet 0 [])\<lparr>clock := 0\<rparr>) = Some res"
    using handleClient_returns[OF demo_worker_ends] by blast
  have "\<not> authenticated res"
  proof
    assume "authenticated res"
    from handleClient_proved[OF sample_memcmp res this] show False
      by (auto simp: proof_arrived_def proves_def frame_wire_def)
  qed
  then show thesis using res
    by (intro that[of res]) (simp_all add: demo_main_pass client_pass_def Let_def)
qed

lemma failed_pass:
  assumes "handled (main_pass E W ip ev L) = Some res" "\<not> authenticated res"
  obtains L' code r where "next_state (main_pass E W ip ev L) = Inr L'"
    "pairingExpires L' = pairingExpires L" "shown (main_pass E W ip ev L) = Some code"
    "rng_state L = Some code # r" "suffix (rng_state L') r"
proof -
  obtain code r L1 client peer where c: "shown (main_pass E W ip ev L) = Some code"
    "rng_state L = Some code # r" "rng_state L1 = r" "pairingExpires L1 = pairingExpires L"
    "main_pass E W ip ev L = client_pass E W code L1 client (client_address peer)"
    by (rule main_pass_handled[OF refl assms(1)])
  note h = client_pass_handled[OF assms(1)[unfolded c(5)]]
  have "ending res = Returned False"
    by (rule handleClient_cases[OF h(1)]) (use assms(2) in auto)
  then show thesis
    using h(2) assms(2) c handleClient_rng[OF h(1)]
    by (intro that[of "L1\<lparr>now := clock (client_sock res), rng_state := rng_left res\<rparr>" code r])
      (auto simp: Let_def)
qed

end
