(* ===== verification/Controller_Properties.thy ===== *)
theory Controller_Properties
  imports Controller_Run
begin

text \<open>
  The properties of the Linux controller: who gets a session, what the controller says and when,
  and what a pairing code is good for. Each rests on the facts of \<open>Controller\<close> and
  \<open>Controller_Run\<close>.
\<close>

section \<open>One connection\<close>



text \<open>
  C13: All that the controller ever writes to a client is the beginning of one transcript: its
  hello with the fresh nonce; after the right proof its own proof; after that the sealed
  activation. Beyond the hello nothing is written to a client that has not proved the secret,
  and the session after the activation writes nothing at all.
\<close>

theorem controller_writes:
  assumes "gcm_ok G" "memcmp_lawful (fst G)" "handleClient (fst G) W ip secret expires r s = Some res"
  defines "hello \<equiv> \<lambda>nonce. frame_wire \<lparr>ftype = SERVER_HELLO, payload = nonce\<rparr>"
  shows "\<exists>w. tx (client_sock res) = tx s @ w \<and>
    (w = [] \<or> (\<exists>nonce. randomSecret r = (Some nonce, rng_left res) \<and>
       (prefix w (hello nonce) \<or> (\<exists>clientNonce. proves (fst G) secret nonce clientNonce (rx s)
          \<and> prefix w (hello nonce @ transcript G secret nonce clientNonce)))))"
  using handleClient_writes[OF assms(1-3)] unfolding hello_def .

lemma controller_writes_witness:
  "\<exists>s res w. handleClient sample demo_world demo_ip demo_secret 1000 [Some (replicate 32 1)] s = Some res
     \<and> tx (client_sock res) = w \<and> w = tx (client_sock res)
     \<and> (w = [] \<or> prefix w (frame_wire \<lparr>ftype = SERVER_HELLO, payload = replicate 32 1\<rparr>)
        \<or> (\<exists>c. prefix w (frame_wire \<lparr>ftype = SERVER_HELLO, payload = replicate 32 1\<rparr>
             @ transcript sample_gcm demo_secret (replicate 32 1) c)))"
proof -
  obtain s res where run: "handleClient sample demo_world demo_ip demo_secret 1000
      [Some (replicate 32 1)] s = Some res" "tx s = []"
    by (rule demo_run[of 1000]) simp
  from controller_writes[of sample_gcm, simplified fst_sample_gcm, OF sample_gcm_ok sample_memcmp run(1)] run
  show ?thesis by (auto simp: randomSecret_def)
qed

text \<open>
  C14: A media session is only ever opened for a client that proved the secret and then sent,
  under the keys derived from that proof, a well-formed descriptor whose media address is the
  client's own, while the virtual camera was there and one of the probes of that address, with
  the credentials derived from the session key, found video.
\<close>

theorem session_needs_announcement:
  assumes "gcm_ok G" "memcmp_lawful (fst G)" "handleClient (fst G) W ip secret expires r s = Some res"
    and "ending res = Returned True \<or> ending res = In_session"
  shows "authenticated res \<and> (\<exists>nonce clientNonce K auth stream.
      randomSecret r = (Some nonce, rng_left res) \<and> rx s = auth @ stream
    \<and> proves (fst G) secret nonce clientNonce auth
    \<and> deriveSessionKey (fst G) secret nonce clientNonce = Some K \<and> announces G W ip K stream)"
  by (rule handleClient_announced[OF assms]) blast

lemma session_needs_announcement_witness:
  "\<exists>K stream. announces sample_gcm demo_world demo_ip K stream"
proof -
  obtain s res where run: "handleClient sample demo_world demo_ip demo_secret 1000
      [Some (replicate 32 1)] s = Some res" "ending res = Returned True \<or> ending res = In_session"
    by (rule demo_run[of 1000]) simp
  from session_needs_announcement[of sample_gcm, simplified fst_sample_gcm,
      OF sample_gcm_ok sample_memcmp run]
  show ?thesis by blast
qed

text \<open>
  While a session lasts the controller only listens: it writes nothing, and as long as the
  loop goes on all that it has taken from the stream are sealed error reports, each the next
  of its direction. Any other message, damage, or a hang-up ends the session.
\<close>

theorem session_hears_reports_only:
  assumes "gcm_ok G" "session_loop (fst G) ns p ch s = Some (ended, p', ch', s')"
  shows "tx s' = tx s \<and> (ended \<or>
    (\<exists>fs. list_all (\<lambda>m. ftype m = ERROR_REPORT) fs \<and> length fs \<le> length ns
       \<and> rx s = encode_from (channel_wire G) next_position (receive_position ch) fs @ rx s'))"
  using session_loop_tx[OF assms(2)] session_loop_reports[OF assms(1), of ns p ch s p' ch' s'] assms(2)
  by (cases ended) simp_all

lemma session_hears_reports_only_witness:
  "\<exists>(s' :: sock) fs. rx (quiet (Suc 199) (channel_wire sample_gcm (receive_position (demo_end True)) \<lparr>ftype = ERROR_REPORT, payload = []\<rparr>))
     = encode_from (channel_wire sample_gcm) next_position (receive_position (demo_end True)) fs @ rx s'
   \<and> list_all (\<lambda>m. ftype m = ERROR_REPORT) fs"
proof -
  let ?m = "\<lparr>ftype = ERROR_REPORT, payload = []\<rparr>"
  let ?s = "quiet (Suc 199) (channel_wire sample_gcm (receive_position (demo_end True)) ?m)"
  let ?s1 = "?s\<lparr>polls := replicate 199 (0, PollReady (POLLIN OR POLLOUT))\<rparr>"
  have p: "sys_poll 250 ?s = Some (PollReady (POLLIN OR POLLOUT), ?s1)"
    by (simp only: sys_poll_def quiet_def sock.simps replicate_Suc list.case prod.case) simp
  have calm: "smooth 100 ?s1" by (simp add: smooth_def quiet_def)
  obtain ch2 s2 where "channel_receive sample (demo_end True) 2000 ?s1 = Some (Some ?m, ch2, s2)"
    using channel_receive_delivers[of sample_gcm ?m "demo_end True" ?s1 "[]" 2000 100] calm sample_available
    by (auto simp: message_ok_def MAX_PAYLOAD_def ENCRYPTED_OVERHEAD_def GCM_TAG_SIZE_def HEADER_SIZE_def)
  then have "session_pass sample (demo_end True) ?s = Some (True, ch2, s2)"
    using p by (simp add: session_pass_def POLLIN_def POLLOUT_def POLLERR_def POLLHUP_def POLLNVAL_def)
  then have "session_loop sample [0] (new_pipeline\<lparr>pipeline_state := Running\<rparr>) (demo_end True) ?s
      = Some (False, new_pipeline\<lparr>pipeline_state := Running\<rparr>, ch2, s2)" by simp
  from session_hears_reports_only[of sample_gcm, simplified fst_sample_gcm, OF sample_gcm_ok this]
  show ?thesis by blast
qed



text \<open>
  C16: A client that does everything right is served. On a connection where the system calls
  go through, with the derivations and the sealing available, a client that proves the secret
  in time and then sends an acceptable descriptor (the camera being there and one of the ten
  probes of its address finding video) is authenticated and gets its session.
\<close>

theorem correct_client_is_served:
  assumes G: "gcm_ok G" "gcm_available (fst G) (snd (snd G))" "memcmp_lawful (fst G)"
    and sizes: "length nonce = 32" "length clientNonce = 32"
    and pf: "makeProof (fst G) secret CLIENT_PROOF_DOMAIN nonce clientNonce = Some proof"
    and sp: "makeProof (fst G) secret SERVER_PROOF_DOMAIN nonce clientNonce = Some serverProof"
    and key: "deriveSessionKey (fst G) secret nonce clientNonce = Some K"
    and chan: "makeChannel (fst G) K True = Some ch"
    and m: "message_ok m" "media_target (fst G) W ip K m = Some (url, cam)"
    and ready: "worker_ends W" "1 \<le> i" "i \<le> MAX_ATTEMPTS" "runProbe (probe W url i)"
    and rx: "rx s = frame_wire \<lparr>ftype = CLIENT_AUTH, payload = clientNonce @ proof\<rparr>
      @ channel_wire G (receive_position ch) m @ rest"
    and time: "clock s < expires" and calm: "smooth (266 + length (payload m)) s"
  shows "\<exists>res. handleClient (fst G) W ip secret expires (Some nonce # r) s = Some res
    \<and> authenticated res \<and> (ending res = Returned True \<or> ending res = In_session)"
  using handleClient_serves[OF assms] by blast

lemma correct_client_is_served_witness:
  "\<exists>s res. handleClient sample demo_world demo_ip demo_secret 1000 [Some (replicate 32 1)] s = Some res
     \<and> authenticated res \<and> (ending res = Returned True \<or> ending res = In_session)"
proof -
  let ?n = "replicate 32 (1 :: byte)" and ?c = "replicate 32 (2 :: byte)"
  obtain p q K ch where k: "makeProof sample demo_secret CLIENT_PROOF_DOMAIN ?n ?c = Some p"
    "makeProof sample demo_secret SERVER_PROOF_DOMAIN ?n ?c = Some q"
    "deriveSessionKey sample demo_secret ?n ?c = Some K" "makeChannel sample K True = Some ch"
    using sample_keys by meson
  obtain url where url: "media_target sample demo_world demo_ip K demo_announcement = Some (url, ''/dev/video9'')"
    using demo_target by blast
  let ?s = "quiet 400 (frame_wire \<lparr>ftype = CLIENT_AUTH, payload = ?c @ p\<rparr>
      @ channel_wire sample_gcm (receive_position ch) demo_announcement @ [])"
  have "runProbe (probe demo_world url 1)" by (simp add: demo_world_def runProbe_def)
  then show ?thesis
    using correct_client_is_served[of sample_gcm ?n ?c demo_secret p q K ch demo_announcement demo_world
        demo_ip url "''/dev/video9''" 1 ?s "[]" 1000 "[]"] k url sample_available sample_memcmp demo_announcement_ok demo_worker_ends
    by (auto simp: MAX_ATTEMPTS_def demo_announcement_size)
qed

section \<open>The pairing codes\<close>


text \<open>
  A code lives ten minutes at most. In every state the listener loop can reach, a client is
  authenticated in a pass only with the code of that pass, whose display (the payload reached
  the child and the child ended well) came before, and only if its proof arrived less than ten
  minutes after the pass began.
\<close>

theorem code_lifetime:
  assumes "memcmp_lawful E" "listens E W ip (start_listener t r) L"
    and "handled (main_pass E W ip ev L) = Some res" "authenticated res"
  shows "\<exists>code nonce deadline client. shown (main_pass E W ip ev L) = Some code
    \<and> showPairingQr ip code (qr_host ev) = Going (True, pairing_payload ip code)
    \<and> proof_arrived E code nonce deadline client \<and> now L \<le> clock client
    \<and> deadline \<le> now L + PAIRING_LIFETIME"
proof -
  obtain code L1 client peer where c: "shown (main_pass E W ip ev L) = Some code"
    "pairingExpires L1 = pairingExpires L" "now L \<le> now L1"
    "showPairingQr ip code (qr_host ev) = Going (True, pairing_payload ip code)"
    "main_pass E W ip ev L = client_pass E W code L1 client (client_address peer)"
    by (rule main_pass_handled[OF refl assms(3)])
  have "handleClient E W (client_address peer) code (pairingExpires L1) (rng_state L1) (client\<lparr>clock := now L1\<rparr>)
      = Some res"
    using client_pass_handled(1) assms(3) c(5) by metis
  then obtain nonce where "proof_arrived E code nonce (pairingExpires L) (client\<lparr>clock := now L1\<rparr>)"
    using handleClient_proved[OF assms(1) _ assms(4)] c(2) by metis
  moreover have "pairingExpires L \<le> now L + PAIRING_LIFETIME"
    using listens_facts(3)[OF assms(2)] deadline_ok_start by (auto simp: deadline_ok_def)
  ultimately show ?thesis using c(1,3,4) by (intro exI[of _ code] exI) auto
qed

text \<open>
  A client that is turned away costs the code on display but buys no time: the loop goes on
  with the old deadline and, when the draws differ, never with the old code.
\<close>

theorem failed_attempt_keeps_deadline:
  assumes "handled (main_pass E W ip ev L) = Some res" "\<not> authenticated res"
    and "distinct (filter (\<lambda>d. d \<noteq> None) (rng_state L))"
  shows "\<exists>L'. next_state (main_pass E W ip ev L) = Inr L' \<and> pairingExpires L' = pairingExpires L
    \<and> (\<forall>ev'. shown (main_pass E W ip ev' L') \<noteq> shown (main_pass E W ip ev L))"
proof -
  obtain L' code r where n: "next_state (main_pass E W ip ev L) = Inr L'" "pairingExpires L' = pairingExpires L"
    "shown (main_pass E W ip ev L) = Some code" "rng_state L = Some code # r" "suffix (rng_state L') r"
    by (rule failed_pass[OF assms(1,2)])
  have "shown (main_pass E W ip ev' L') \<noteq> Some code" for ev'
  proof
    assume "shown (main_pass E W ip ev' L') = Some code"
    then obtain r' where "rng_state L' = Some code # r'" by (rule main_pass_cases[OF refl])
    then have "Some code \<in> set r" using n(5) set_mono_suffix by fastforce
    then show False using assms(3) n(4) by simp
  qed
  with n(1-3) show ?thesis by auto
qed

lemma demo_draws: "distinct (filter (\<lambda>d. d \<noteq> None) (rng_state demo_listener))"
proof -
  have "demo_secret \<noteq> replicate 32 a" for a
    by (rule notI, drule arg_cong[of _ _ length]) (simp add: demo_secret_def)
  moreover have "replicate 32 (1 :: byte) \<noteq> replicate 32 2" by (simp add: replicate_eq_replicate)
  ultimately show ?thesis by (simp add: demo_listener_def start_listener_def)
qed


lemma code_lifetime_witness:
  "\<exists>nonce deadline client. proof_arrived sample demo_secret nonce deadline client
     \<and> deadline \<le> PAIRING_LIFETIME"
proof -
  obtain s res where run: "handled (main_pass sample demo_world demo_ip (demo_events s) demo_listener) = Some res"
    "authenticated res"
    by (rule demo_served)
  have l: "listens sample demo_world demo_ip
      (start_listener 0 [Some demo_secret, Some (replicate 32 1), Some (replicate 32 2)]) demo_listener"
    unfolding demo_listener_def by (rule listens.begins)
  have "shown (main_pass sample demo_world demo_ip (demo_events s) demo_listener) = Some demo_secret"
    using run(1) by (simp add: demo_main_pass client_pass_def Let_def split: option.splits)
  with code_lifetime[OF sample_memcmp l run] show ?thesis by auto
qed

lemma failed_attempt_keeps_deadline_witness:
  "\<exists>L'. next_state (main_pass sample demo_world demo_ip (demo_events (quiet 0 [])) demo_listener) = Inr L'
     \<and> pairingExpires L' = PAIRING_LIFETIME"
proof -
  obtain res where run: "handled (main_pass sample demo_world demo_ip (demo_events (quiet 0 [])) demo_listener) = Some res"
    "\<not> authenticated res"
    by (rule demo_turned_away)
  from failed_attempt_keeps_deadline[OF run demo_draws]
  show ?thesis by (auto simp: demo_listener_def start_listener_def)
qed

end
