(* ===== verification/Binary_Floats.thy ===== *)
theory Binary_Floats
  imports OC_Prelude Complex_Main "HOL-Library.Log_Nat"
begin

text \<open>
  IEEE binary floating point, as the code uses it, on rational numbers: a result is the rational
  number rounded to \<open>p\<close> binary digits, the tie to the even neighbour. \<open>rounded 53\<close> is \<open>double\<close>
  arithmetic for numbers of ordinary size (no overflow, no subnormal numbers, which do not occur
  where the code computes with \<open>double\<close>); a \<open>float\<close> is its 32 bits, with all special values.
\<close>

section \<open>Rounding\<close>

definition round_half_even :: "rat \<Rightarrow> int" where
  "round_half_even x =
     (let n = \<lfloor>x\<rfloor>; d = x - of_int n
      in if d < 1 / 2 then n else if d > 1 / 2 then n + 1 else if even n then n else n + 1)"

text \<open>The exponent of a positive number: \<open>2 powi e \<le> x < 2 powi (e + 1)\<close>.\<close>

definition binary_exponent :: "rat \<Rightarrow> int" where
  "binary_exponent x =
     (let (a, b) = quotient_of x;
          e = int (floorlog 2 (nat a)) - int (floorlog 2 (nat b))
      in if 2 powi e \<le> x then e else e - 1)"

definition rounded :: "nat \<Rightarrow> rat \<Rightarrow> rat" where
  "rounded p x =
     (if x = 0 then 0
      else let u = 2 powi (binary_exponent \<bar>x\<bar> - int p + 1)
           in sgn x * (of_int (round_half_even (\<bar>x\<bar> / u)) * u))"

lemma round_half_even_near: "\<bar>of_int (round_half_even x) - x\<bar> \<le> 1 / 2"
proof -
  have "of_int \<lfloor>x\<rfloor> \<le> x" "x < of_int \<lfloor>x\<rfloor> + 1" by linarith+
  then show ?thesis by (auto simp: round_half_even_def Let_def abs_le_iff)
qed

lemma round_half_even_int [simp]: "round_half_even (of_int n) = n"
  by (simp add: round_half_even_def)

lemma binary_exponent_bounds:
  assumes "x > 0"
  shows "2 powi binary_exponent x \<le> x" "x < 2 powi (binary_exponent x + 1)"
proof -
  obtain a b where q: "quotient_of x = (a, b)" by fastforce
  have b: "b > 0" using quotient_of_denom_pos[OF q] .
  have x: "x = of_int a / of_int b" using quotient_of_div[OF q] .
  have a: "a > 0" using assms b by (simp add: x zero_less_divide_iff)
  define la lb where "la = floorlog 2 (nat a)" and "lb = floorlog 2 (nat b)"
  have pos: "la > 0" "lb > 0"
    using a b by (auto simp: la_def lb_def floorlog_def)
  have ba: "2 ^ (la - 1) \<le> nat a \<and> nat a < 2 ^ la" and bb: "2 ^ (lb - 1) \<le> nat b \<and> nat b < 2 ^ lb"
    using a b floorlog_bounds[of "nat a" 2] floorlog_bounds[of "nat b" 2] by (simp_all add: la_def lb_def)
  have ca: "(2 :: rat) ^ (la - 1) \<le> of_int a" "of_int a < (2 :: rat) ^ la"
    using ba a by (metis nat_less_numeral_power_cancel_iff numeral_power_le_nat_cancel_iff of_int_le_iff of_int_less_iff of_int_numeral of_int_power)+
  have cb: "(2 :: rat) ^ (lb - 1) \<le> of_int b" "of_int b < (2 :: rat) ^ lb"
    using bb b by (metis nat_less_numeral_power_cancel_iff numeral_power_le_nat_cancel_iff of_int_le_iff of_int_less_iff of_int_numeral of_int_power)+
  let ?e = "int la - int lb"
  have p: "(2 :: rat) powi (?e + 1) = 2 ^ la / 2 ^ (lb - 1)" "(2 :: rat) powi (?e - 1) = 2 ^ (la - 1) / 2 ^ lb"
    using pos by (simp_all add: power_int_diff power_int_add power_diff)
  have up: "x < 2 powi (?e + 1)"
    unfolding x p using ca cb a b by (intro frac_less) auto
  have low: "2 powi (?e - 1) \<le> x"
    unfolding x p using ca cb a b by (intro frac_le) auto
  have e: "binary_exponent x = (if 2 powi ?e \<le> x then ?e else ?e - 1)"
    by (simp add: binary_exponent_def q la_def lb_def)
  show "2 powi binary_exponent x \<le> x" using low by (simp add: e)
  show "x < 2 powi (binary_exponent x + 1)" using up by (simp add: e)
qed

text \<open>The error is at most half a unit in the last place, so at most \<open>2 ^ p\<close> times below the number.\<close>

lemma rounded_near: "\<bar>rounded p x - x\<bar> \<le> \<bar>x\<bar> / 2 ^ p"
proof (cases "x = 0")
  case False
  let ?e = "binary_exponent \<bar>x\<bar>"
  let ?u = "2 powi (?e - int p + 1) :: rat"
  have u: "?u > 0" by simp
  have e: "2 powi ?e \<le> \<bar>x\<bar>" using False by (intro binary_exponent_bounds) simp
  have r: "rounded p x = sgn x * (of_int (round_half_even (\<bar>x\<bar> / ?u)) * ?u)"
    using False by (simp add: rounded_def Let_def)
  have "rounded p x - x = sgn x * ((of_int (round_half_even (\<bar>x\<bar> / ?u)) - \<bar>x\<bar> / ?u) * ?u)"
    using u by (simp add: r algebra_simps sgn_mult_abs abs_mult_sgn)
  then have "\<bar>rounded p x - x\<bar> = \<bar>of_int (round_half_even (\<bar>x\<bar> / ?u)) - \<bar>x\<bar> / ?u\<bar> * ?u"
    using False u by (simp add: abs_mult abs_sgn_eq)
  also have "\<dots> \<le> 1 / 2 * ?u"
    using u by (intro mult_right_mono round_half_even_near) auto
  also have "\<dots> = 2 powi ?e / 2 ^ p"
    by (simp add: power_int_diff power_int_add)
  also have "\<dots> \<le> \<bar>x\<bar> / 2 ^ p" using e by (simp add: divide_right_mono)
  finally show ?thesis .
qed (simp add: rounded_def)

lemma rounded_pos: "p > 0 \<Longrightarrow> x > 0 \<Longrightarrow> rounded p x > 0"
proof -
  assume a: "p > 0" "x > 0"
  have "x / 2 ^ p < x" using a by (simp add: divide_less_eq)
  then show ?thesis using rounded_near[of p x] a(2) by (simp add: abs_le_iff)
qed

lemma rounded_int:
  assumes "\<bar>n\<bar> < 2 ^ p"
  shows "rounded p (of_int n) = of_int n"
proof (cases "n = 0")
  case False
  let ?x = "of_int n :: rat"
  let ?e = "binary_exponent \<bar>?x\<bar>"
  have pos: "\<bar>?x\<bar> > 0" using False by simp
  have small: "\<bar>?x\<bar> < 2 ^ p" using assms by (metis of_int_abs of_int_less_iff of_int_numeral of_int_power)
  have "(2 :: rat) powi ?e < 2 powi int p"
    using binary_exponent_bounds(1)[OF pos] small by simp
  then have e: "?e < int p" by (meson not_le one_less_numeral_iff power_int_increasing semiring_norm(76) less_imp_le one_le_numeral)
  have "?e \<ge> 0"
  proof (rule ccontr)
    assume "\<not> ?e \<ge> 0"
    then have "(2 :: rat) powi (?e + 1) \<le> 2 powi 0" by (intro power_int_increasing) auto
    then have "\<bar>?x\<bar> < 1" using binary_exponent_bounds(2)[OF pos] by simp
    then show False using False by linarith
  qed
  define k where "k = nat (int p - 1 - ?e)"
  have u: "(2 :: rat) powi (?e - int p + 1) = 1 / 2 ^ k"
    using e by (simp add: k_def power_int_def field_simps)
  have "\<bar>?x\<bar> / (1 / 2 ^ k) = of_int (\<bar>n\<bar> * 2 ^ k)" by simp
  then have "round_half_even (\<bar>?x\<bar> / (1 / 2 ^ k)) = \<bar>n\<bar> * 2 ^ k"
    by (simp only: round_half_even_int)
  then have "rounded p ?x = sgn ?x * (of_int (\<bar>n\<bar> * 2 ^ k) * (1 / 2 ^ k))"
    using False by (simp only: rounded_def Let_def u) simp
  then show ?thesis by (simp add: sgn_mult_abs)
qed (simp add: rounded_def)

text \<open>What a number is rounded to can be checked.\<close>

lemma binary_exponent_unique:
  assumes "2 powi e \<le> x" "x < 2 powi (e + 1)"
  shows "binary_exponent x = e"
proof -
  have "(0::rat) < 2 powi e" by simp
  then have x: "x > 0" using assms(1) by linarith
  have "(2::rat) powi e < 2 powi (binary_exponent x + 1)" "(2::rat) powi binary_exponent x < 2 powi (e + 1)"
    using binary_exponent_bounds[OF x] assms by linarith+
  then have "e < binary_exponent x + 1" "binary_exponent x < e + 1"
    by (meson not_le power_int_increasing one_le_numeral)+
  then show ?thesis by simp
qed

lemma rounded_by:
  assumes "2 powi e \<le> x" "x < 2 powi (e + 1)"
  shows "rounded p x = of_int (round_half_even (x / 2 powi (e - int p + 1))) * 2 powi (e - int p + 1)"
proof -
  have "(0::rat) < 2 powi e" by simp
  then have x: "x > 0" using assms(1) by linarith
  then show ?thesis using binary_exponent_unique[OF assms] by (simp add: rounded_def Let_def)
qed

lemma round_half_even_unique: "\<bar>x - of_int n\<bar> < 1 / 2 \<Longrightarrow> round_half_even x = n"
proof -
  assume a: "\<bar>x - of_int n\<bar> < 1 / 2"
  have "\<bar>of_int (round_half_even x) - x\<bar> \<le> 1 / 2" by (rule round_half_even_near)
  then have "\<bar>of_int (round_half_even x) - of_int n :: rat\<bar> < 1" using a by linarith
  then show ?thesis by linarith
qed

lemma rounded_eqI:
  assumes "2 powi e \<le> x" "x < 2 powi (e + 1)" "\<bar>x / 2 powi (e - int p + 1) - of_int n\<bar> < 1 / 2"
    and "y = of_int n * 2 powi (e - int p + 1)"
  shows "rounded p x = y"
  using rounded_by[OF assms(1,2)] round_half_even_unique[OF assms(3)] assms(4) by simp

section \<open>The bits of a float\<close>

datatype f32 = Finite rat | Infinite bool | Not_a_number

definition f32_value :: "32 word \<Rightarrow> f32" where
  "f32_value w =
     (let n = unat w; negative = (2 ^ 31 \<le> n); e = n div 2 ^ 23 mod 256; m = n mod 2 ^ 23
      in if e = 255 then (if m = 0 then Infinite negative else Not_a_number)
         else Finite ((if negative then -1 else 1)
           * (if e = 0 then of_nat m * 2 powi (-149) else of_nat (2 ^ 23 + m) * 2 powi (int e - 150))))"

definition f32_of :: "rat \<Rightarrow> 32 word" where
  "f32_of x =
     (if x = 0 then 0
      else let e = max (binary_exponent \<bar>x\<bar>) (-126);
               m = round_half_even (\<bar>x\<bar> / 2 powi (e - 23));
               n = min ((e + 126) * 2 ^ 23 + m) (255 * 2 ^ 23)
           in word_of_int ((if x < 0 then 2 ^ 31 else 0) + n))"

fun f32_less :: "f32 \<Rightarrow> f32 \<Rightarrow> bool" where
  "f32_less (Finite x) (Finite y) = (x < y)"
| "f32_less (Infinite negative) (Finite y) = negative"
| "f32_less (Finite x) (Infinite negative) = (\<not> negative)"
| "f32_less (Infinite negative) (Infinite negative') = (negative \<and> \<not> negative')"
| "f32_less _ _ = False"

text \<open>The sum of a float and a finite one, and the smaller and the larger of two.\<close>

definition f32_plus :: "32 word \<Rightarrow> rat \<Rightarrow> 32 word" where
  "f32_plus a y = (case f32_value a of Finite x \<Rightarrow> f32_of (x + y) | _ \<Rightarrow> a)"

definition f32_min :: "32 word \<Rightarrow> 32 word \<Rightarrow> 32 word" where
  "f32_min a b = (if f32_less (f32_value b) (f32_value a) then b else a)"

definition f32_max :: "32 word \<Rightarrow> 32 word \<Rightarrow> 32 word" where
  "f32_max a b = (if f32_less (f32_value a) (f32_value b) then b else a)"

text \<open>Numbers that fit are kept exactly.\<close>

lemma f32_of_exact:
  assumes "2 powi e \<le> x" "x < 2 powi (e + 1)" "-126 \<le> e" "e \<le> 127" "x / 2 powi (e - 23) = of_int m"
    and "n = (e + 126) * 2 ^ 23 + m" "n \<le> 255 * 2 ^ 23"
  shows "f32_of x = word_of_int n"
proof -
  have "(0::rat) < 2 powi e" by simp
  then have x: "x > 0" using assms(1) by linarith
  moreover have "binary_exponent x = e" by (rule binary_exponent_unique[OF assms(1,2)])
  ultimately show ?thesis using assms(3,5-7) by (simp add: f32_of_def Let_def)
qed

end
