(* ===== verification/Windows_Scaler.thy ===== *)
theory Windows_Scaler
  imports Binary_Floats
begin

text \<open>
  The frame scalers of the Windows client (\<open>windows/src/video\<close>): \<open>FrameScaler\<close> with its cached
  context and buffer, and the three subclasses that choose the size of the picture. libswscale is
  a record of functions; what the code relies on is \<open>lawful_swscale\<close>: a context writes as many
  rows as the picture has, of as many bytes as a row has.
\<close>

section \<open>Target dimensions\<close>

record target_dimensions =
  dim_width :: int
  dim_height :: int
  containerWidth :: int
  containerHeight :: int
  xOffset :: int
  yOffset :: int
  hasPadding :: bool

datatype scaler_kind = One_to_one | Direct_show int int | Gui_preview int int

text \<open>\<open>static_cast<double>\<close>, division and multiplication of doubles, and \<open>static_cast<int>\<close>.\<close>

definition as_double :: "int \<Rightarrow> rat" where
  "as_double n = rounded 53 (of_int n)"

definition as_int :: "rat \<Rightarrow> int" where
  "as_int x = (if x < 0 then \<lceil>x\<rceil> else \<lfloor>x\<rfloor>)"

text \<open>The size of the picture that fits into a box of \<open>W\<close> by \<open>H\<close>.\<close>

definition fit :: "int \<Rightarrow> int \<Rightarrow> int \<Rightarrow> int \<Rightarrow> int \<times> int" where
  "fit W H w h =
     (let containerRatio = rounded 53 (as_double W / as_double H);
          srcRatio = rounded 53 (as_double w / as_double h)
      in if srcRatio > containerRatio then (W, as_int (rounded 53 (as_double W / srcRatio)))
         else (as_int (rounded 53 (as_double H * srcRatio)), H))"

text \<open>\<open>(W - dims.width) / 2\<close> truncates towards zero.\<close>

definition c_half :: "int \<Rightarrow> int" where
  "c_half n = (if n < 0 then - (- n div 2) else n div 2)"

definition CalculateTargetDimensions :: "scaler_kind \<Rightarrow> int \<Rightarrow> int \<Rightarrow> target_dimensions" where
  "CalculateTargetDimensions k w h =
     (case k of
        One_to_one \<Rightarrow>
          \<lparr>dim_width = w, dim_height = h, containerWidth = w, containerHeight = h,
           xOffset = 0, yOffset = 0, hasPadding = False\<rparr>
      | Direct_show W H \<Rightarrow>
          let (a, b) = fit W H w h
          in \<lparr>dim_width = a, dim_height = b, containerWidth = W, containerHeight = H,
              xOffset = c_half (W - a), yOffset = c_half (H - b), hasPadding = True\<rparr>
      | Gui_preview W H \<Rightarrow>
          let (a, b) = fit W H w h
          in \<lparr>dim_width = a, dim_height = b, containerWidth = a, containerHeight = b,
              xOffset = 0, yOffset = 0, hasPadding = False\<rparr>)"

section \<open>The scaler\<close>

datatype pix_fmt =
  RGB24 | BGR24 | RGBA | BGRA | ARGB | ABGR | RGB0 | BGR0 | Other_format int

record 'd av_frame =
  fr_width :: int
  fr_height :: int
  fr_format :: pix_fmt
  fr_data :: 'd

type_synonym sws_key = "int \<times> int \<times> pix_fmt \<times> int \<times> int \<times> pix_fmt"

record 'd swscale =
  get_context :: "sws_key \<Rightarrow> bool"
  sws_scale :: "sws_key \<Rightarrow> 'd \<Rightarrow> int \<times> bytes list"
  bits_per_pixel :: "int \<Rightarrow> int option"
  INPUT_BUFFER_PADDING_SIZE :: nat

text \<open>
  The three members \<open>lastSrc...\<close> are not initialised; they are read only while there is a context.
\<close>

record scaler =
  sc_kind :: scaler_kind
  sc_format :: pix_fmt
  sws_ctx :: "sws_key option"
  pixels :: bytes
  cachedTargetDims :: target_dimensions
  lastSrc :: "int \<times> int \<times> pix_fmt"

definition GetBytesPerPixel :: "'d swscale \<Rightarrow> pix_fmt \<Rightarrow> int" where
  "GetBytesPerPixel lib fmt =
     (case fmt of
        RGB24 \<Rightarrow> 3 | BGR24 \<Rightarrow> 3
      | RGBA \<Rightarrow> 4 | BGRA \<Rightarrow> 4 | ARGB \<Rightarrow> 4 | ABGR \<Rightarrow> 4 | RGB0 \<Rightarrow> 4 | BGR0 \<Rightarrow> 4
      | Other_format n \<Rightarrow> (case bits_per_pixel lib n of Some b \<Rightarrow> b div 8 | None \<Rightarrow> 4))"

definition new_scaler :: "scaler_kind \<Rightarrow> pix_fmt \<Rightarrow> scaler" where
  "new_scaler k fmt = \<lparr>sc_kind = k, sc_format = fmt, sws_ctx = None, pixels = [],
     cachedTargetDims = CalculateTargetDimensions One_to_one 0 0, lastSrc = (0, 0, Other_format 0)\<rparr>"

definition needed_size :: "'d swscale \<Rightarrow> pix_fmt \<Rightarrow> target_dimensions \<Rightarrow> int" where
  "needed_size lib fmt dims =
     (let stride = (containerWidth dims * GetBytesPerPixel lib fmt + 31) AND NOT 31
      in containerHeight dims * stride + int (INPUT_BUFFER_PADDING_SIZE lib))"

definition PrepareContext :: "'d swscale \<Rightarrow> int \<times> int \<times> pix_fmt \<Rightarrow> scaler \<Rightarrow> bool \<times> scaler" where
  "PrepareContext lib src sc =
     (let (srcWidth, srcHeight, srcFormat) = src
      in if sws_ctx sc \<noteq> None \<and> lastSrc sc = src then (True, sc)
         else
           let dims = CalculateTargetDimensions (sc_kind sc) srcWidth srcHeight;
               key = (srcWidth, srcHeight, srcFormat, dim_width dims, dim_height dims, sc_format sc)
           in if \<not> get_context lib key then (False, sc\<lparr>cachedTargetDims := dims, sws_ctx := None\<rparr>)
              else
                let neededSize = nat (needed_size lib (sc_format sc) dims);
                    buffer = pixels sc;
                    buffer = (if length buffer < neededSize then replicate neededSize 0 else buffer);
                    buffer = (if hasPadding dims then replicate (length buffer) 0 else buffer)
                in (True, sc\<lparr>cachedTargetDims := dims, sws_ctx := Some key, pixels := buffer, lastSrc := src\<rparr>))"

text \<open>\<open>sws_scale\<close> stores the rows from \<open>off\<close> on, \<open>stride\<close> bytes apart.\<close>

fun put_rows :: "nat \<Rightarrow> nat \<Rightarrow> bytes list \<Rightarrow> bytes \<Rightarrow> bytes" where
  "put_rows off stride [] buf = buf"
| "put_rows off stride (row # rows) buf = put_rows (off + stride) stride rows (write_at off row buf)"

definition first_byte :: "int \<Rightarrow> target_dimensions \<Rightarrow> int" where
  "first_byte bpp dims = yOffset dims * (containerWidth dims * bpp) + xOffset dims * bpp"

text \<open>The result: the size of the picture that is now in the buffer, if there is one.\<close>

definition Process :: "'d swscale \<Rightarrow> 'd av_frame option \<Rightarrow> scaler \<Rightarrow> (int \<times> int) option \<times> scaler" where
  "Process lib srcFrame sc =
     (case srcFrame of
        None \<Rightarrow> (None, sc)
      | Some fr \<Rightarrow>
          if fr_width fr \<le> 0 \<or> fr_height fr \<le> 0 then (None, sc)
          else case PrepareContext lib (fr_width fr, fr_height fr, fr_format fr) sc of
              (False, sc) \<Rightarrow> (None, sc)
            | (True, sc) \<Rightarrow>
                let bpp = GetBytesPerPixel lib (sc_format sc);
                    dims = cachedTargetDims sc;
                    (res, rows) = sws_scale lib (the (sws_ctx sc)) (fr_data fr);
                    sc = sc\<lparr>pixels := put_rows (nat (first_byte bpp dims)) (nat (containerWidth dims * bpp)) rows (pixels sc)\<rparr>
                in if res \<le> 0 then (None, sc)
                   else (Some (containerWidth dims, containerHeight dims), sc))"

section \<open>The picture fits\<close>

lemma rounded_relative: "\<exists>d. \<bar>d\<bar> \<le> 1 / 2 ^ p \<and> rounded p x = x * (1 + d)"
proof (cases "x = 0")
  case True
  then show ?thesis by (intro exI[of _ 0]) (simp add: rounded_def)
next
  case False
  have "\<bar>rounded p x - x\<bar> / \<bar>x\<bar> \<le> 1 / 2 ^ p"
    using rounded_near[of p x] False by (simp add: field_simps)
  then show ?thesis using False
    by (intro exI[of _ "(rounded p x - x) / x"]) (simp add: field_simps abs_divide)
qed

definition frame_size :: "int \<Rightarrow> bool" where
  "frame_size n \<longleftrightarrow> 1 \<le> n \<and> n < 2 ^ 31"

definition box_size :: "int \<Rightarrow> bool" where
  "box_size n \<longleftrightarrow> 1 \<le> n \<and> n \<le> 16384"

lemma as_double_int: "frame_size n \<or> box_size n \<Longrightarrow> as_double n = of_int n"
  unfolding as_double_def frame_size_def box_size_def by (rule rounded_int) auto

lemma as_int_bounds:
  "0 \<le> x \<Longrightarrow> 0 \<le> as_int x \<and> of_int (as_int x) \<le> x \<and> x < of_int (as_int x) + 1"
  by (simp add: as_int_def) linarith

text \<open>
  The computed length of the other side lies within the rounding errors of three operations of
  the exact one, \<open>W * h / w\<close> or \<open>H * w / h\<close>; cut to an integer it is at most one less.
\<close>

definition tiny :: rat where "tiny = 1 / 2 ^ 53"

lemma wide_side:
  fixes W H w h :: rat
  assumes "1 \<le> W" "1 \<le> H" "H \<le> 16384" "1 \<le> w" "1 \<le> h"
    and r: "\<bar>d1\<bar> \<le> tiny" "r = w / h * (1 + d1)" and R: "\<bar>d2\<bar> \<le> tiny" "R = W / H * (1 + d2)"
    and q: "\<bar>d3\<bar> \<le> tiny" "q = W / r * (1 + d3)" and wide: "R < r"
  shows "0 < q" "q < H + 1" "\<bar>q - W * h / w\<bar> \<le> 1 / 2 ^ 20"
proof -
  have d: "0 < 1 + d1" "0 < 1 + d2" "0 < 1 + d3" using r q R by (auto simp: tiny_def abs_le_iff)
  have pos: "0 < w / h" "0 < W / H" using assms(1,2,4,5) by simp_all
  have rp: "0 < r" "0 < R" using d pos by (simp_all only: r(2) R(2) mult_pos_pos)
  show "0 < q" using rp d assms(1) by (simp add: q(2))
  define t where "t = W * h / w"
  have t: "W / r = t / (1 + d1)" "0 < t"
    using d(1) assms by (simp_all add: r(2) t_def field_simps)
  have "W / r < W / R" using wide rp assms(1) by (simp add: divide_strict_left_mono)
  also have "W / R = H / (1 + d2)"
  proof -
    have "W = H / (1 + d2) * R" using d(2) assms(2) by (simp add: R(2))
    then show ?thesis using rp(2) by (simp add: nonzero_divide_eq_eq)
  qed
  also have "\<dots> \<le> H / (1 - tiny)"
    using R(1) assms(2) by (intro divide_left_mono mult_pos_pos) (auto simp: tiny_def abs_le_iff)
  finally have wr: "W / r < H / (1 - tiny)" .
  moreover have "H / (1 - tiny) \<le> 16384 / (1 - tiny)"
    using assms(3) by (intro divide_right_mono) (auto simp: tiny_def)
  ultimately have wr2: "W / r < 16384 / (1 - tiny)" by linarith
  have "q \<le> W / r * (1 + tiny)"
    unfolding q(2) using q(1) rp assms(1) by (intro mult_left_mono) (auto simp: abs_le_iff)
  also have "\<dots> < H / (1 - tiny) * (1 + tiny)"
    using wr by (intro mult_strict_right_mono) (auto simp: tiny_def)
  also have "\<dots> \<le> H + 1"
    using assms(3) by (simp add: tiny_def field_simps)
  finally show "q < H + 1" .
  have alg: "a * (1 + d3) - a * (1 + d1) = a * (d3 - d1)" for a by (simp add: algebra_simps)
  have tt: "t = W / r * (1 + d1)" using d(1) t by simp
  have "q - t = W / r * (d3 - d1)" by (simp only: q(2) tt alg)
  then have "\<bar>q - t\<bar> = W / r * \<bar>d3 - d1\<bar>" using rp assms(1) by (simp add: abs_mult)
  also have "\<dots> \<le> (16384 / (1 - tiny)) * (2 * tiny)"
  proof (rule mult_mono)
    show "\<bar>d3 - d1\<bar> \<le> 2 * tiny" using r(1) q(1) by linarith
  qed (use wr2 in \<open>auto simp: tiny_def\<close>)
  also have "\<dots> \<le> 1 / 2 ^ 20" by (simp add: tiny_def)
  finally show "\<bar>q - W * h / w\<bar> \<le> 1 / 2 ^ 20" by (simp add: t_def)
qed

lemma tall_side:
  fixes W H w h :: rat
  assumes "1 \<le> W" "W \<le> 16384" "1 \<le> H" "1 \<le> w" "1 \<le> h"
    and r: "\<bar>d1\<bar> \<le> tiny" "r = w / h * (1 + d1)" and R: "\<bar>d2\<bar> \<le> tiny" "R = W / H * (1 + d2)"
    and q: "\<bar>d3\<bar> \<le> tiny" "q = H * r * (1 + d3)" and tall: "r \<le> R"
  shows "0 < q" "q < W + 1" "\<bar>q - H * w / h\<bar> \<le> 1 / 2 ^ 20"
proof -
  have d: "0 < 1 + d1" "0 < 1 + d2" "0 < 1 + d3" using r q R by (auto simp: tiny_def abs_le_iff)
  have pos: "0 < w / h" "0 < W / H" using assms(1,3-5) by simp_all
  have rp: "0 < r" using d pos by (simp only: r(2) mult_pos_pos)
  show "0 < q" using rp d assms(3) by (simp add: q(2))
  have "H * r \<le> H * R" using tall assms(3) by simp
  also have "\<dots> = W * (1 + d2)" using assms(3) by (simp add: R(2))
  also have "\<dots> \<le> W * (1 + tiny)" using R(1) assms(1) by (auto simp: abs_le_iff)
  finally have hr: "H * r \<le> W * (1 + tiny)" .
  have "q \<le> H * r * (1 + tiny)"
    using q rp assms(3) by (auto simp: abs_le_iff intro!: mult_left_mono)
  also have "\<dots> \<le> W * (1 + tiny) * (1 + tiny)"
    using hr by (intro mult_right_mono) (auto simp: tiny_def)
  also have "\<dots> < W + 1" using assms(2) by (simp add: tiny_def field_simps)
  finally show "q < W + 1" .
  have alg: "H * (a * (1 + d1)) * (1 + d3) - H * a = H * a * ((1 + d1) * (1 + d3) - 1)" for a
    by (simp add: algebra_simps)
  have "H * w / h = H * (w / h)" by simp
  then have "q - H * w / h = H * (w / h) * ((1 + d1) * (1 + d3) - 1)"
    by (simp only: q(2) r(2) alg)
  moreover have "\<bar>(1 + d1) * (1 + d3) - 1\<bar> \<le> 3 * tiny"
  proof -
    have "\<bar>d1 * d3\<bar> \<le> tiny * tiny" unfolding abs_mult using r(1) q(1) by (intro mult_mono) auto
    then have "\<bar>d1 * d3\<bar> \<le> tiny" by (simp add: tiny_def)
    then show ?thesis using r(1) q(1) by (simp add: algebra_simps abs_le_iff)
  qed
  moreover have "0 < H * (w / h)" "H * (w / h) \<le> 16384 * (1 + tiny) / (1 - tiny)"
  proof -
    have "W * (1 + tiny) \<le> 16384 * (1 + tiny)"
      using assms(2) by (intro mult_right_mono) (auto simp: tiny_def)
    then have "H * (w / h) * (1 + d1) \<le> 16384 * (1 + tiny)"
      using hr by (simp only: r(2) mult.assoc)
    moreover show "0 < H * (w / h)" using pos assms(3) by (intro mult_pos_pos) auto
    moreover from this have "H * (w / h) * (1 - tiny) \<le> H * (w / h) * (1 + d1)"
      using r(1) by (intro mult_left_mono) (auto simp: abs_le_iff)
    ultimately have "H * (w / h) * (1 - tiny) \<le> 16384 * (1 + tiny)" by linarith
    moreover have "0 < 1 - tiny" by (simp add: tiny_def)
    ultimately show "H * (w / h) \<le> 16384 * (1 + tiny) / (1 - tiny)" by (simp only: pos_le_divide_eq)
  qed
  ultimately have "\<bar>q - H * w / h\<bar> \<le> (16384 * (1 + tiny) / (1 - tiny)) * (3 * tiny)"
    by (simp only: abs_mult) (intro mult_mono, auto simp: tiny_def)
  also have "\<dots> \<le> 1 / 2 ^ 20" by (simp add: tiny_def)
  finally show "\<bar>q - H * w / h\<bar> \<le> 1 / 2 ^ 20" .
qed

text \<open>What \<open>fit\<close> computes: the picture fills the box in one direction and keeps its shape in the other.\<close>

definition keeps_shape :: "int \<Rightarrow> int \<Rightarrow> int \<Rightarrow> int \<Rightarrow> int \<Rightarrow> bool" where
  "keeps_shape a b W w h \<longleftrightarrow> a = W \<and>
     of_int W * of_int h / of_int w - 1 - 1 / 2 ^ 20 < (of_int b :: rat)
     \<and> (of_int b :: rat) \<le> of_int W * of_int h / of_int w + 1 / 2 ^ 20"

lemma cut_side:
  assumes "0 < q" "q < of_int N + 1" "\<bar>q - t\<bar> \<le> 1 / 2 ^ 20"
  shows "0 \<le> as_int q" "as_int q \<le> N"
    "t - 1 - 1 / 2 ^ 20 < of_int (as_int q)" "of_int (as_int q) \<le> t + 1 / 2 ^ 20"
proof -
  note b = as_int_bounds[of q]
  show "0 \<le> as_int q" using b assms(1) by simp
  have "of_int (as_int q) < (of_int N + 1 :: rat)" using b assms(1,2) by simp
  then show "as_int q \<le> N" by linarith
  show "t - 1 - 1 / 2 ^ 20 < of_int (as_int q)" "of_int (as_int q) \<le> t + 1 / 2 ^ 20"
    using b assms by linarith+
qed

lemma fit_facts:
  assumes "box_size W" "box_size H" "frame_size w" "frame_size h" and "fit W H w h = (a, b)"
  shows "0 \<le> a" "a \<le> W" "0 \<le> b" "b \<le> H" "keeps_shape a b W w h \<or> keeps_shape b a H h w"
proof -
  let ?W = "of_int W :: rat" and ?H = "of_int H :: rat" and ?w = "of_int w :: rat" and ?h = "of_int h :: rat"
  have n: "1 \<le> ?W" "?W \<le> 16384" "1 \<le> ?H" "?H \<le> 16384" "1 \<le> ?w" "1 \<le> ?h"
    using assms(1-4) by (simp_all add: box_size_def frame_size_def)
  let ?r = "rounded 53 (?w / ?h)" and ?R = "rounded 53 (?W / ?H)"
  have f: "fit W H w h = (if ?R < ?r then (W, as_int (rounded 53 (?W / ?r))) else (as_int (rounded 53 (?H * ?r)), H))"
    using assms(1-4) by (simp add: fit_def Let_def as_double_int)
  obtain d1 where d1: "\<bar>d1\<bar> \<le> tiny" "?r = ?w / ?h * (1 + d1)" unfolding tiny_def using rounded_relative by blast
  obtain d2 where d2: "\<bar>d2\<bar> \<le> tiny" "?R = ?W / ?H * (1 + d2)" unfolding tiny_def using rounded_relative by blast
  have "0 \<le> a \<and> a \<le> W \<and> 0 \<le> b \<and> b \<le> H \<and> (keeps_shape a b W w h \<or> keeps_shape b a H h w)"
  proof (cases "?R < ?r")
    case True
    obtain d3 where d3: "\<bar>d3\<bar> \<le> tiny" "rounded 53 (?W / ?r) = ?W / ?r * (1 + d3)"
      unfolding tiny_def using rounded_relative by blast
    note q = cut_side[OF wide_side[OF n(1,3,4,5,6) d1 d2 d3 True]]
    have ab: "a = W" "as_int (rounded 53 (?W / ?r)) = b" using f True assms(5) by simp_all
    show ?thesis using q assms(1) unfolding ab by (simp add: ab(1) keeps_shape_def box_size_def)
  next
    case False
    then have le: "?r \<le> ?R" by simp
    obtain d3 where d3: "\<bar>d3\<bar> \<le> tiny" "rounded 53 (?H * ?r) = ?H * ?r * (1 + d3)"
      unfolding tiny_def using rounded_relative by blast
    note q = cut_side[OF tall_side[OF n(1,2,3,5,6) d1 d2 d3 le]]
    have ab: "b = H" "as_int (rounded 53 (?H * ?r)) = a" using f False assms(5) by simp_all
    show ?thesis using q assms(2) unfolding ab by (simp add: ab(1) keeps_shape_def box_size_def)
  qed
  then show "0 \<le> a" "a \<le> W" "0 \<le> b" "b \<le> H" "keeps_shape a b W w h \<or> keeps_shape b a H h w" by simp_all
qed

text \<open>A source of the size of one of the four boxes of the program fills it.\<close>

lemma fit_fills:
  assumes "as_double W / as_double H = c" "rounded 53 c = r" "as_double H = h" "rounded 53 (h * r) = of_int W"
  shows "fit W H W H = (W, H)"
proof -
  have "fit W H W H = (as_int (rounded 53 (as_double H * rounded 53 (as_double W / as_double H))), H)"
    by (simp add: fit_def Let_def)
  also have "\<dots> = (as_int (of_int W), H)"
    unfolding assms(1) unfolding assms(2) unfolding assms(3) unfolding assms(4) ..
  finally show ?thesis by (simp add: as_int_def)
qed

lemma rounded_ratio_4_3: "rounded 53 (4 / 3) = 6004799503160661 / 4503599627370496"
  by (rule rounded_eqI[of 0 _ _ 6004799503160661]) simp_all

lemma rounded_ratio_16_9: "rounded 53 (16 / 9) = 2001599834386887 / 1125899906842624"
  by (rule rounded_eqI[of 0 _ _ 8006399337547548]) simp_all

lemma fit_same:
  shows "fit 640 480 640 480 = (640, 480)" and "fit 1280 720 1280 720 = (1280, 720)"
    and "fit 1920 1080 1920 1080 = (1920, 1080)" and "fit 3840 2160 3840 2160 = (3840, 2160)"
proof -
  have double: "as_double 640 = 640" "as_double 480 = 480" "as_double 1280 = 1280" "as_double 720 = 720"
    "as_double 1920 = 1920" "as_double 1080 = 1080" "as_double 3840 = 3840" "as_double 2160 = 2160"
    by (simp_all add: as_double_int box_size_def)
  show "fit 640 480 640 480 = (640, 480)"
  proof (rule fit_fills[OF _ rounded_ratio_4_3])
    show "rounded 53 (480 * (6004799503160661 / 4503599627370496)) = of_int 640"
      by (rule rounded_eqI[of 9 _ _ "640 * 2 ^ 43"]) simp_all
  qed (simp_all add: double)
  show "fit 1280 720 1280 720 = (1280, 720)"
  proof (rule fit_fills[OF _ rounded_ratio_16_9])
    show "rounded 53 (720 * (2001599834386887 / 1125899906842624)) = of_int 1280"
      by (rule rounded_eqI[of 10 _ _ "1280 * 2 ^ 42"]) simp_all
  qed (simp_all add: double)
  show "fit 1920 1080 1920 1080 = (1920, 1080)"
  proof (rule fit_fills[OF _ rounded_ratio_16_9])
    show "rounded 53 (1080 * (2001599834386887 / 1125899906842624)) = of_int 1920"
      by (rule rounded_eqI[of 10 _ _ "1920 * 2 ^ 42"]) simp_all
  qed (simp_all add: double)
  show "fit 3840 2160 3840 2160 = (3840, 2160)"
  proof (rule fit_fills[OF _ rounded_ratio_16_9])
    show "rounded 53 (2160 * (2001599834386887 / 1125899906842624)) = of_int 3840"
      by (rule rounded_eqI[of 11 _ _ "3840 * 2 ^ 41"]) simp_all
  qed (simp_all add: double)
qed

definition kind_ok :: "scaler_kind \<Rightarrow> int \<Rightarrow> int \<Rightarrow> bool" where
  "kind_ok k w h \<longleftrightarrow> (case k of
      One_to_one \<Rightarrow> box_size w \<and> box_size h
    | Direct_show W H \<Rightarrow> box_size W \<and> box_size H \<and> frame_size w \<and> frame_size h
    | Gui_preview W H \<Rightarrow> box_size W \<and> box_size H \<and> frame_size w \<and> frame_size h)"

definition dims_ok :: "target_dimensions \<Rightarrow> bool" where
  "dims_ok d \<longleftrightarrow> 0 \<le> xOffset d \<and> 0 \<le> dim_width d \<and> xOffset d + dim_width d \<le> containerWidth d
     \<and> 0 \<le> yOffset d \<and> 0 \<le> dim_height d \<and> yOffset d + dim_height d \<le> containerHeight d
     \<and> containerWidth d \<le> 16384 \<and> containerHeight d \<le> 16384"

lemma target_dims_ok:
  assumes "kind_ok k w h"
  shows "dims_ok (CalculateTargetDimensions k w h)"
proof (cases k)
  case One_to_one
  then show ?thesis using assms by (simp add: kind_ok_def dims_ok_def CalculateTargetDimensions_def box_size_def)
next
  case (Direct_show W H)
  obtain a b where f: "fit W H w h = (a, b)" by fastforce
  have ok: "box_size W" "box_size H" "frame_size w" "frame_size h"
    using assms Direct_show by (simp_all add: kind_ok_def)
  note facts = fit_facts(1-4)[OF ok f]
  then have "0 \<le> c_half (W - a) \<and> c_half (W - a) + a \<le> W" "0 \<le> c_half (H - b) \<and> c_half (H - b) + b \<le> H"
    by (auto simp: c_half_def)
  then show ?thesis using facts ok
    by (simp add: Direct_show f dims_ok_def CalculateTargetDimensions_def box_size_def)
next
  case (Gui_preview W H)
  obtain a b where f: "fit W H w h = (a, b)" by fastforce
  have ok: "box_size W" "box_size H" "frame_size w" "frame_size h"
    using assms Gui_preview by (simp_all add: kind_ok_def)
  show ?thesis using fit_facts(1-4)[OF ok f] ok
    by (simp add: Gui_preview f dims_ok_def CalculateTargetDimensions_def box_size_def)
qed

section \<open>Rows in the buffer\<close>

lemma write_at_nth:
  "off + length xs \<le> length buf \<Longrightarrow> i < length buf \<Longrightarrow>
     write_at off xs buf ! i = (if off \<le> i \<and> i < off + length xs then xs ! (i - off) else buf ! i)"
  by (auto simp: write_at_def nth_append)

lemma row_place:
  assumes "x < st" "xo + n \<le> (st :: nat)"
  shows "(yo * st + xo \<le> y * st + x \<and> y * st + x < yo * st + xo + n) \<longleftrightarrow> (y = yo \<and> xo \<le> x \<and> x < xo + n)"
proof -
  consider "y < yo" | "y = yo" | "yo < y" by linarith
  then show ?thesis
  proof cases
    case 1
    then have "Suc y * st \<le> yo * st" by (intro mult_le_mono1) simp
    then show ?thesis using 1 assms by simp
  next
    case 3
    then have "Suc yo * st \<le> y * st" by (intro mult_le_mono1) simp
    then show ?thesis using 3 assms by simp
  qed simp
qed

lemma length_put_rows:
  "\<forall>r \<in> set rows. length r = n \<Longrightarrow> xo + n \<le> st \<Longrightarrow> (yo + length rows) * st \<le> length buf \<Longrightarrow>
     length (put_rows (yo * st + xo) st rows buf) = length buf"
proof (induction rows arbitrary: yo buf)
  case (Cons r rows)
  have "(yo + 1) * st \<le> length buf" using Cons.prems(3) by (simp add: algebra_simps)
  then have fits: "yo * st + xo + length r \<le> length buf" using Cons.prems by simp
  have "length (put_rows ((yo + 1) * st + xo) st rows (write_at (yo * st + xo) r buf)) = length buf"
    using Cons.prems fits by (subst Cons.IH) auto
  then show ?case by (simp add: algebra_simps)
qed simp

lemma put_rows_nth:
  "\<forall>r \<in> set rows. length r = n \<Longrightarrow> xo + n \<le> st \<Longrightarrow> (yo + length rows) * st \<le> length buf \<Longrightarrow>
     x < st \<Longrightarrow> y * st + x < length buf \<Longrightarrow>
     put_rows (yo * st + xo) st rows buf ! (y * st + x)
     = (if yo \<le> y \<and> y < yo + length rows \<and> xo \<le> x \<and> x < xo + n then rows ! (y - yo) ! (x - xo)
        else buf ! (y * st + x))"
proof (induction rows arbitrary: yo buf)
  case (Cons r rows)
  let ?b = "write_at (yo * st + xo) r buf"
  have "(yo + 1) * st \<le> length buf" using Cons.prems(3) by (simp add: algebra_simps)
  then have fits: "yo * st + xo + length r \<le> length buf" using Cons.prems by simp
  have bn: "?b ! (y * st + x) = (if y = yo \<and> xo \<le> x \<and> x < xo + n then r ! (x - xo) else buf ! (y * st + x))"
    using write_at_nth[OF fits Cons.prems(5)] row_place[OF Cons.prems(4,2), of yo y] Cons.prems(1) by simp
  have "put_rows ((yo + 1) * st + xo) st rows ?b ! (y * st + x)
    = (if yo + 1 \<le> y \<and> y < yo + 1 + length rows \<and> xo \<le> x \<and> x < xo + n then rows ! (y - (yo + 1)) ! (x - xo)
       else ?b ! (y * st + x))"
    using Cons.prems fits by (intro Cons.IH) auto
  then show ?case unfolding bn
    by (auto simp: algebra_simps nth_Cons split: nat.splits) (metis Suc_diff_Suc Suc_le_lessD diff_Suc_Suc nat.inject)?
qed auto

lemma aligned: "n \<le> (n + 31) AND NOT (31 :: int)" "(n + 31) AND NOT (31 :: int) \<le> n + 31"
proof -
  let ?x = "n + 31"
  have "?x AND NOT 31 = ?x AND NOT (take_bit 5 ?x)"
  proof (rule bit_eqI)
    fix k
    have m: "(31 :: int) = mask 5" by (simp add: mask_eq_exp_minus_1)
    show "bit (?x AND NOT 31) k = bit (?x AND NOT (take_bit 5 ?x)) k"
      by (simp only: m bit_and_iff bit_not_iff bit_mask_iff bit_take_bit_iff) auto
  qed
  also have "\<dots> = ?x - take_bit 5 ?x"
    by (rule disjunctive_diff_eq_and_not[symmetric]) (rule bit_eqI, auto simp: bit_simps)
  finally have e: "?x AND NOT 31 = ?x - ?x mod 32" by (simp add: take_bit_eq_mod)
  have "0 \<le> ?x mod 32" "?x mod 32 < 32" by simp_all
  then show "n \<le> ?x AND NOT 31" "?x AND NOT 31 \<le> ?x" unfolding e by linarith+
qed

section \<open>Frame after frame\<close>

definition three_bytes :: "pix_fmt \<Rightarrow> bool" where
  "three_bytes f \<longleftrightarrow> f = RGB24 \<or> f = BGR24"

definition lawful_swscale :: "'d swscale \<Rightarrow> bool" where
  "lawful_swscale lib \<longleftrightarrow>
     (\<forall>w h f a b fmt d res rows. 0 \<le> a \<longrightarrow> 0 \<le> b \<longrightarrow> three_bytes fmt \<longrightarrow>
        sws_scale lib (w, h, f, a, b, fmt) d = (res, rows) \<longrightarrow>
        (\<forall>r \<in> set rows. int (length r) = a * 3)
        \<and> (if res > 0 then int (length rows) = b else int (length rows) \<le> b))"

lemma three_bytes_pixel [simp]: "three_bytes f \<Longrightarrow> GetBytesPerPixel lib f = 3"
  by (auto simp: three_bytes_def GetBytesPerPixel_def)

text \<open>The place of byte \<open>x\<close> of row \<open>y\<close> in the buffer, and whether it belongs to the picture.\<close>

definition in_picture :: "target_dimensions \<Rightarrow> nat \<Rightarrow> nat \<Rightarrow> bool" where
  "in_picture d y x \<longleftrightarrow> yOffset d \<le> int y \<and> int y < yOffset d + dim_height d
     \<and> xOffset d * 3 \<le> int x \<and> int x < (xOffset d + dim_width d) * 3"

definition byte_at :: "target_dimensions \<Rightarrow> bytes \<Rightarrow> nat \<Rightarrow> nat \<Rightarrow> byte" where
  "byte_at d buf y x = buf ! (y * nat (containerWidth d * 3) + x)"

definition in_container :: "target_dimensions \<Rightarrow> nat \<Rightarrow> nat \<Rightarrow> bool" where
  "in_container d y x \<longleftrightarrow> int y < containerHeight d \<and> int x < containerWidth d * 3"

definition black_outside :: "target_dimensions \<Rightarrow> bytes \<Rightarrow> bool" where
  "black_outside d buf \<longleftrightarrow>
     (\<forall>y x. in_container d y x \<longrightarrow> \<not> in_picture d y x \<longrightarrow> byte_at d buf y x = 0)"

definition scaler_inv :: "'d swscale \<Rightarrow> scaler \<Rightarrow> bool" where
  "scaler_inv lib sc \<longleftrightarrow> sws_ctx sc = None \<or>
     (\<exists>w h f. let d = CalculateTargetDimensions (sc_kind sc) w h
        in lastSrc sc = (w, h, f) \<and> kind_ok (sc_kind sc) w h \<and> cachedTargetDims sc = d
         \<and> sws_ctx sc = Some (w, h, f, dim_width d, dim_height d, sc_format sc)
         \<and> needed_size lib (sc_format sc) d \<le> int (length (pixels sc))
         \<and> (hasPadding d \<longrightarrow> black_outside d (pixels sc)))"

text \<open>The buffer holds the container.\<close>

lemma needed_holds:
  assumes "dims_ok d" "three_bytes fmt" "needed_size lib fmt d \<le> int (length buf)"
  shows "nat (containerHeight d) * nat (containerWidth d * 3) \<le> length buf"
proof -
  have w: "0 \<le> containerWidth d" "0 \<le> containerHeight d" using assms(1) by (auto simp: dims_ok_def)
  have "containerHeight d * (containerWidth d * 3) \<le> containerHeight d * ((containerWidth d * 3 + 31) AND NOT 31)"
    using w by (intro mult_left_mono aligned(1)) auto
  also have "\<dots> \<le> int (length buf)" using assms(2,3) by (simp add: needed_size_def Let_def)
  finally show ?thesis using w by (simp add: nat_mult_distrib le_nat_iff flip: nat_mult_distrib)
qed

lemma place_in_buffer:
  assumes "nat (containerHeight d) * nat (containerWidth d * 3) \<le> length buf" "in_container d y x"
  shows "y * nat (containerWidth d * 3) + x < length buf" "x < nat (containerWidth d * 3)"
proof -
  show x: "x < nat (containerWidth d * 3)" using assms(2) by (simp add: in_container_def zless_nat_eq_int_zless)
  have "(y + 1) * nat (containerWidth d * 3) \<le> nat (containerHeight d) * nat (containerWidth d * 3)"
    using assms(2) by (intro mult_le_mono1) (simp add: in_container_def Suc_le_eq zless_nat_eq_int_zless)
  then show "y * nat (containerWidth d * 3) + x < length buf" using x assms(1) by simp
qed

lemma prepare_inv:
  assumes "scaler_inv lib sc" "kind_ok (sc_kind sc) w h" "three_bytes (sc_format sc)"
    and "PrepareContext lib (w, h, f) sc = (ok, sc')"
  shows "scaler_inv lib sc'" "sc_kind sc' = sc_kind sc" "sc_format sc' = sc_format sc"
    "ok \<Longrightarrow> lastSrc sc' = (w, h, f) \<and> cachedTargetDims sc' = CalculateTargetDimensions (sc_kind sc) w h
       \<and> sws_ctx sc' = Some (w, h, f, dim_width (cachedTargetDims sc'), dim_height (cachedTargetDims sc'), sc_format sc)"
proof -
  let ?d = "CalculateTargetDimensions (sc_kind sc) w h"
  let ?key = "(w, h, f, dim_width ?d, dim_height ?d, sc_format sc)"
  have "scaler_inv lib sc' \<and> sc_kind sc' = sc_kind sc \<and> sc_format sc' = sc_format sc \<and> (ok \<longrightarrow>
    lastSrc sc' = (w, h, f) \<and> cachedTargetDims sc' = ?d \<and> sws_ctx sc' = Some ?key)"
  proof (cases "sws_ctx sc \<noteq> None \<and> lastSrc sc = (w, h, f)")
    case True
    then have "sc' = sc" "ok" using assms(4) by (simp_all add: PrepareContext_def)
    then show ?thesis using assms(1) True by (auto simp: scaler_inv_def Let_def)
  next
    case False
    show ?thesis
    proof (cases "get_context lib ?key")
      case False
      with \<open>\<not> (sws_ctx sc \<noteq> None \<and> lastSrc sc = (w, h, f))\<close> show ?thesis
        using assms(4) by (auto simp: PrepareContext_def Let_def scaler_inv_def)
    next
      case True
      let ?n = "nat (needed_size lib (sc_format sc) ?d)"
      let ?b1 = "if length (pixels sc) < ?n then replicate ?n 0 else pixels sc"
      let ?b = "if hasPadding ?d then replicate (length ?b1) 0 else ?b1"
      have r: "ok" "sc' = sc\<lparr>cachedTargetDims := ?d, sws_ctx := Some ?key, pixels := ?b, lastSrc := (w, h, f)\<rparr>"
        using assms(4) True False by (auto simp: PrepareContext_def Let_def)
      have len: "needed_size lib (sc_format sc) ?d \<le> int (length ?b)" by auto
      have "black_outside ?d ?b" if "hasPadding ?d"
        using place_in_buffer(1)[OF needed_holds[OF target_dims_ok[OF assms(2)] assms(3) len]] that
        by (auto simp: black_outside_def byte_at_def)
      then show ?thesis using r(1) len assms(2)
        by (simp add: r(2) scaler_inv_def Let_def)
    qed
  qed
  then show "scaler_inv lib sc'" "sc_kind sc' = sc_kind sc" "sc_format sc' = sc_format sc"
    "ok \<Longrightarrow> lastSrc sc' = (w, h, f) \<and> cachedTargetDims sc' = ?d
       \<and> sws_ctx sc' = Some (w, h, f, dim_width (cachedTargetDims sc'), dim_height (cachedTargetDims sc'), sc_format sc)"
    by simp_all
qed

text \<open>What \<open>sws_scale\<close> leaves in the buffer.\<close>

lemma stored_rows:
  assumes "dims_ok d" and hold: "nat (containerHeight d) * nat (containerWidth d * 3) \<le> length buf"
    and rows: "\<forall>r \<in> set rows. int (length r) = dim_width d * 3" "int (length rows) \<le> dim_height d"
  shows "length (put_rows (nat (first_byte 3 d)) (nat (containerWidth d * 3)) rows buf) = length buf"
    and "in_container d y x \<Longrightarrow>
      byte_at d (put_rows (nat (first_byte 3 d)) (nat (containerWidth d * 3)) rows buf) y x
      = (if in_picture d y x \<and> int y < yOffset d + int (length rows)
         then rows ! (y - nat (yOffset d)) ! (x - nat (xOffset d * 3)) else byte_at d buf y x)"
proof -
  let ?st = "nat (containerWidth d * 3)" and ?yo = "nat (yOffset d)" and ?xo = "nat (xOffset d * 3)"
    and ?n = "nat (dim_width d * 3)"
  have d: "0 \<le> xOffset d" "0 \<le> dim_width d" "xOffset d + dim_width d \<le> containerWidth d"
    "0 \<le> yOffset d" "0 \<le> dim_height d" "yOffset d + dim_height d \<le> containerHeight d"
    using assms(1) by (auto simp: dims_ok_def)
  have off: "nat (first_byte 3 d) = ?yo * ?st + ?xo"
    using d by (simp add: first_byte_def nat_add_distrib nat_mult_distrib)
  have n: "\<forall>r \<in> set rows. length r = ?n" using rows(1) by force
  have fit: "?xo + ?n \<le> ?st" using d by (simp add: nat_le_iff flip: nat_add_distrib)
  have "?yo + length rows \<le> nat (containerHeight d)" using d rows(2) by linarith
  then have "(?yo + length rows) * ?st \<le> nat (containerHeight d) * ?st" by (rule mult_le_mono1)
  then have all: "(?yo + length rows) * ?st \<le> length buf" using hold by linarith
  show "length (put_rows (nat (first_byte 3 d)) ?st rows buf) = length buf"
    unfolding off by (rule length_put_rows[OF n fit all])
  assume c: "in_container d y x"
  note place = place_in_buffer[OF hold c]
  have "byte_at d (put_rows (nat (first_byte 3 d)) ?st rows buf) y x
    = (if ?yo \<le> y \<and> y < ?yo + length rows \<and> ?xo \<le> x \<and> x < ?xo + ?n then rows ! (y - ?yo) ! (x - ?xo)
       else byte_at d buf y x)"
    unfolding off byte_at_def by (rule put_rows_nth[OF n fit all place(2,1)])
  moreover have "(?yo \<le> y \<and> y < ?yo + length rows \<and> ?xo \<le> x \<and> x < ?xo + ?n)
      \<longleftrightarrow> in_picture d y x \<and> int y < yOffset d + int (length rows)"
    using d rows(2) unfolding in_picture_def by (auto simp: algebra_simps nat_le_iff)
  ultimately show "byte_at d (put_rows (nat (first_byte 3 d)) ?st rows buf) y x
      = (if in_picture d y x \<and> int y < yOffset d + int (length rows)
         then rows ! (y - ?yo) ! (x - ?xo) else byte_at d buf y x)" by simp
qed

text \<open>A frame the scaler may get: \<open>Process\<close> turns away frames without pixels itself.\<close>

definition usable_frame :: "scaler_kind \<Rightarrow> 'd av_frame option \<Rightarrow> bool" where
  "usable_frame k fr \<longleftrightarrow>
     (case fr of None \<Rightarrow> True
      | Some fr \<Rightarrow> fr_width fr \<le> 0 \<or> fr_height fr \<le> 0 \<or> kind_ok k (fr_width fr) (fr_height fr))"

definition frame_dims :: "scaler_kind \<Rightarrow> 'd av_frame \<Rightarrow> target_dimensions" where
  "frame_dims k fr = CalculateTargetDimensions k (fr_width fr) (fr_height fr)"

definition frame_key :: "scaler_kind \<Rightarrow> pix_fmt \<Rightarrow> 'd av_frame \<Rightarrow> sws_key" where
  "frame_key k fmt fr = (fr_width fr, fr_height fr, fr_format fr,
     dim_width (frame_dims k fr), dim_height (frame_dims k fr), fmt)"

text \<open>One frame through a scaler whose context is ready.\<close>

lemma Process_cases:
  assumes "scaler_inv lib sc" "three_bytes (sc_format sc)" "usable_frame (sc_kind sc) fo"
    and "Process lib fo sc = (shown, sc')"
  shows "shown = None \<and> (sc' = sc \<or> scaler_inv lib sc' \<and> sc_kind sc' = sc_kind sc \<and> sc_format sc' = sc_format sc)
    \<or> (\<exists>fr sc1 res rows. fo = Some fr \<and> kind_ok (sc_kind sc) (fr_width fr) (fr_height fr) \<and> scaler_inv lib sc1
         \<and> sc_kind sc1 = sc_kind sc \<and> sc_format sc1 = sc_format sc
         \<and> cachedTargetDims sc1 = frame_dims (sc_kind sc) fr
         \<and> sws_ctx sc1 = Some (frame_key (sc_kind sc) (sc_format sc) fr)
         \<and> lastSrc sc1 = (fr_width fr, fr_height fr, fr_format fr)
         \<and> sws_scale lib (frame_key (sc_kind sc) (sc_format sc) fr) (fr_data fr) = (res, rows)
         \<and> sc' = sc1\<lparr>pixels := put_rows (nat (first_byte 3 (frame_dims (sc_kind sc) fr)))
              (nat (containerWidth (frame_dims (sc_kind sc) fr) * 3)) rows (pixels sc1)\<rparr>
         \<and> shown = (if res \<le> 0 then None
              else Some (containerWidth (frame_dims (sc_kind sc) fr), containerHeight (frame_dims (sc_kind sc) fr))))"
proof (cases "\<exists>fr. fo = Some fr \<and> \<not> (fr_width fr \<le> 0 \<or> fr_height fr \<le> 0)")
  case False
  then have "(shown, sc') = (None, sc)"
    using assms(4) by (cases fo) (auto simp: Process_def)
  then show ?thesis by simp
next
  case True
  then obtain fr where fr: "fo = Some fr" "\<not> (fr_width fr \<le> 0 \<or> fr_height fr \<le> 0)" by blast
  then have k: "kind_ok (sc_kind sc) (fr_width fr) (fr_height fr)"
    using assms(3) by (simp add: usable_frame_def)
  obtain ok sc1 where p: "PrepareContext lib (fr_width fr, fr_height fr, fr_format fr) sc = (ok, sc1)" by fastforce
  note inv = prepare_inv[OF assms(1) k assms(2) p]
  show ?thesis
  proof (cases ok)
    case False
    then have "(shown, sc') = (None, sc1)"
      using assms(4) fr p by (simp add: Process_def)
    then show ?thesis using inv(1-3) by simp
  next
    case True
    note ready = inv(4)[OF True]
    obtain res rows where r: "sws_scale lib (frame_key (sc_kind sc) (sc_format sc) fr) (fr_data fr) = (res, rows)" by fastforce
    have ctx: "sws_ctx sc1 = Some (frame_key (sc_kind sc) (sc_format sc) fr)"
      "cachedTargetDims sc1 = frame_dims (sc_kind sc) fr"
      using ready by (simp_all add: frame_key_def frame_dims_def)
    have "Process lib fo sc = (let sc' = sc1\<lparr>pixels := put_rows (nat (first_byte 3 (frame_dims (sc_kind sc) fr)))
              (nat (containerWidth (frame_dims (sc_kind sc) fr) * 3)) rows (pixels sc1)\<rparr>
       in (if res \<le> 0 then None
              else Some (containerWidth (frame_dims (sc_kind sc) fr), containerHeight (frame_dims (sc_kind sc) fr)), sc'))"
      using fr p True r ctx inv(3) assms(2) by (simp add: Process_def Let_def)
    then show ?thesis
      using assms(4) k fr(1) inv(1-3) ctx r ready by (auto simp: Let_def)
  qed
qed

text \<open>The rows of one frame, and the invariant.\<close>

lemma frame_rows:
  assumes "lawful_swscale lib" "three_bytes fmt" "dims_ok (frame_dims k fr)"
    "sws_scale lib (frame_key k fmt fr) d = (res, rows)"
  shows "\<forall>r \<in> set rows. int (length r) = dim_width (frame_dims k fr) * 3"
    "int (length rows) \<le> dim_height (frame_dims k fr)"
    "res > 0 \<Longrightarrow> int (length rows) = dim_height (frame_dims k fr)"
proof -
  have "0 \<le> dim_width (frame_dims k fr)" "0 \<le> dim_height (frame_dims k fr)"
    using assms(3) by (auto simp: dims_ok_def)
  then have "(\<forall>r \<in> set rows. int (length r) = dim_width (frame_dims k fr) * 3)
      \<and> (if res > 0 then int (length rows) = dim_height (frame_dims k fr) else int (length rows) \<le> dim_height (frame_dims k fr))"
    using assms(1,2,4) unfolding lawful_swscale_def frame_key_def by blast
  then show "\<forall>r \<in> set rows. int (length r) = dim_width (frame_dims k fr) * 3"
    "int (length rows) \<le> dim_height (frame_dims k fr)"
    "res > 0 \<Longrightarrow> int (length rows) = dim_height (frame_dims k fr)"
    by (auto split: if_splits)
qed

lemma inv_pixels:
  assumes "scaler_inv lib sc" "sws_ctx sc = Some (frame_key (sc_kind sc) (sc_format sc) fr)"
    "lastSrc sc = (fr_width fr, fr_height fr, fr_format fr)"
  shows "needed_size lib (sc_format sc) (frame_dims (sc_kind sc) fr) \<le> int (length (pixels sc))"
    and "hasPadding (frame_dims (sc_kind sc) fr) \<Longrightarrow> black_outside (frame_dims (sc_kind sc) fr) (pixels sc)"
  using assms by (auto simp: scaler_inv_def Let_def frame_dims_def)

lemma Process_inv:
  assumes "scaler_inv lib sc" "three_bytes (sc_format sc)" "usable_frame (sc_kind sc) fo" "lawful_swscale lib"
    and "Process lib fo sc = (shown, sc')"
  shows "scaler_inv lib sc' \<and> sc_kind sc' = sc_kind sc \<and> sc_format sc' = sc_format sc"
  using Process_cases[OF assms(1-3,5)]
proof (elim disjE exE conjE)
  fix fr :: "'a av_frame" and sc1 :: scaler and res rows
  let ?d = "frame_dims (sc_kind sc) fr"
  let ?b = "put_rows (nat (first_byte 3 ?d)) (nat (containerWidth ?d * 3)) rows (pixels sc1)"
  assume a: "kind_ok (sc_kind sc) (fr_width fr) (fr_height fr)" "scaler_inv lib sc1" "sc_kind sc1 = sc_kind sc"
    "sc_format sc1 = sc_format sc" "cachedTargetDims sc1 = ?d"
    "sws_ctx sc1 = Some (frame_key (sc_kind sc) (sc_format sc) fr)"
    "lastSrc sc1 = (fr_width fr, fr_height fr, fr_format fr)"
    "sws_scale lib (frame_key (sc_kind sc) (sc_format sc) fr) (fr_data fr) = (res, rows)"
    "sc' = sc1\<lparr>pixels := ?b\<rparr>"
  have ok: "dims_ok ?d" unfolding frame_dims_def by (rule target_dims_ok[OF a(1)])
  note rows = frame_rows[OF assms(4,2) ok a(8)]
  note pix = inv_pixels[of lib sc1 fr, unfolded a(3,4), OF a(2,6,7)]
  note st = stored_rows[OF ok needed_holds[OF ok assms(2) pix(1)] rows(1,2)]
  have "black_outside ?d ?b" if "hasPadding ?d"
    using st(2) pix(2)[OF that] by (simp add: black_outside_def)
  then have "scaler_inv lib sc'"
    unfolding scaler_inv_def Let_def
    by (intro disjI2 exI[of _ "fr_width fr"] exI[of _ "fr_height fr"] exI[of _ "fr_format fr"])
      (use a pix(1) st(1) in \<open>simp add: frame_dims_def frame_key_def\<close>)
  then show ?thesis using a by simp
qed (use assms in simp_all)

definition process_all :: "'d swscale \<Rightarrow> 'd av_frame option list \<Rightarrow> scaler \<Rightarrow> scaler" where
  "process_all lib frames sc = fold (\<lambda>fo sc. snd (Process lib fo sc)) frames sc"

lemma process_all_inv:
  assumes "lawful_swscale lib" "three_bytes (sc_format sc)" "scaler_inv lib sc"
    and "\<forall>fo \<in> set frames. usable_frame (sc_kind sc) fo"
  shows "scaler_inv lib (process_all lib frames sc) \<and> sc_kind (process_all lib frames sc) = sc_kind sc
    \<and> sc_format (process_all lib frames sc) = sc_format sc"
  using assms
proof (induction frames arbitrary: sc)
  case (Cons fo frames)
  obtain shown sc' where p: "Process lib fo sc = (shown, sc')" by fastforce
  have "scaler_inv lib sc' \<and> sc_kind sc' = sc_kind sc \<and> sc_format sc' = sc_format sc"
    using Cons.prems by (intro Process_inv[OF _ _ _ _ p]) auto
  then show ?case using Cons by (simp add: process_all_def p)
qed (simp add: process_all_def)

text \<open>What the buffer holds when a frame is delivered.\<close>

lemma put_rows_whole:
  "\<forall>r \<in> set rows. length r = s \<Longrightarrow> off + s * length rows \<le> length buf \<Longrightarrow>
     put_rows off s rows buf = take off buf @ concat rows @ drop (off + s * length rows) buf"
proof (induction rows arbitrary: off buf)
  case (Cons r rows)
  have "put_rows (off + s) s rows (write_at off r buf)
      = take (off + s) (write_at off r buf) @ concat rows @ drop (off + s + s * length rows) (write_at off r buf)"
    using Cons.prems by (intro Cons.IH) (simp_all add: write_at_def)
  also have "take (off + s) (write_at off r buf) = take off buf @ r"
    using Cons.prems by (simp add: write_at_def)
  also have "drop (off + s + s * length rows) (write_at off r buf) = drop (off + s * length (r # rows)) buf"
    using Cons.prems by (simp add: write_at_def algebra_simps)
  finally show ?case by simp
qed simp

lemma Process_shows:
  assumes "lawful_swscale lib" "three_bytes (sc_format sc0)" "usable_frame (sc_kind sc0) (Some fr)" "scaler_inv lib sc0"
    and "Process lib (Some fr) sc0 = (Some (W, H), sc)"
  defines "d \<equiv> frame_dims (sc_kind sc0) fr"
  shows "W = containerWidth d \<and> H = containerHeight d \<and> dims_ok d"
    and "nat H * nat (W * 3) \<le> length (pixels sc)"
    and "y < nat H \<Longrightarrow> x < nat (W * 3) \<Longrightarrow> y * nat (W * 3) + x < length (pixels sc)"
    and "y < nat H \<Longrightarrow> x < nat (W * 3) \<Longrightarrow>
      byte_at d (pixels sc) y x =
        (if in_picture d y x
         then snd (sws_scale lib (frame_key (sc_kind sc0) (sc_format sc0) fr) (fr_data fr)) ! (y - nat (yOffset d)) ! (x - nat (xOffset d * 3))
         else 0)"
    and "\<not> hasPadding d \<Longrightarrow>
      take (nat (W * H * 3)) (pixels sc) = concat (snd (sws_scale lib (frame_key (sc_kind sc0) (sc_format sc0) fr) (fr_data fr)))"
proof -
  let ?k = "sc_kind sc0" and ?fmt = "sc_format sc0"
  obtain sc1 :: scaler and res rows where a: "kind_ok ?k (fr_width fr) (fr_height fr)" "scaler_inv lib sc1"
    "sc_kind sc1 = ?k" "sc_format sc1 = ?fmt" "sws_ctx sc1 = Some (frame_key ?k ?fmt fr)"
    "lastSrc sc1 = (fr_width fr, fr_height fr, fr_format fr)"
    "sws_scale lib (frame_key ?k ?fmt fr) (fr_data fr) = (res, rows)"
    "sc = sc1\<lparr>pixels := put_rows (nat (first_byte 3 d)) (nat (containerWidth d * 3)) rows (pixels sc1)\<rparr>"
    and shown: "Some (W, H) = (if res \<le> 0 then None else Some (containerWidth d, containerHeight d))"
    using Process_cases[OF assms(4,2,3,5)] unfolding d_def by auto
  have res: "res > 0" "W = containerWidth d" "H = containerHeight d" using shown by (auto split: if_splits)
  have ok: "dims_ok d" unfolding d_def frame_dims_def by (rule target_dims_ok[OF a(1)])
  then show "W = containerWidth d \<and> H = containerHeight d \<and> dims_ok d" using res by simp
  note rows = frame_rows[OF assms(1,2) ok[unfolded d_def] a(7), folded d_def]
  note pix = inv_pixels[of lib sc1 fr, unfolded a(3,4), OF a(2,5,6), folded d_def]
  note hold = needed_holds[OF ok assms(2) pix(1)]
  note st = stored_rows[OF ok hold rows(1,2)]
  have len: "length (pixels sc) = length (pixels sc1)" using st(1) by (simp add: a(8))
  show "nat H * nat (W * 3) \<le> length (pixels sc)" using hold by (simp add: res len)
  have nopad: "xOffset d = 0 \<and> yOffset d = 0 \<and> dim_width d = W \<and> dim_height d = H" if "\<not> hasPadding d"
    using that unfolding res
    by (auto simp: d_def frame_dims_def CalculateTargetDimensions_def split: scaler_kind.splits prod.splits)
  show "y * nat (W * 3) + x < length (pixels sc)" if "y < nat H" "x < nat (W * 3)"
    using place_in_buffer(1)[OF hold, of y x] that by (simp add: in_container_def res zless_nat_eq_int_zless len)
  show "byte_at d (pixels sc) y x = (if in_picture d y x
      then snd (sws_scale lib (frame_key ?k ?fmt fr) (fr_data fr)) ! (y - nat (yOffset d)) ! (x - nat (xOffset d * 3)) else 0)"
    if "y < nat H" "x < nat (W * 3)"
  proof -
    have c: "in_container d y x" using that by (simp add: in_container_def res zless_nat_eq_int_zless)
    have "byte_at d (pixels sc) y x
        = (if in_picture d y x then rows ! (y - nat (yOffset d)) ! (x - nat (xOffset d * 3)) else byte_at d (pixels sc1) y x)"
      using st(2)[OF c] rows(3)[OF res(1)] by (simp add: a(8) in_picture_def)
    moreover have "byte_at d (pixels sc1) y x = 0" if "\<not> in_picture d y x"
    proof (cases "hasPadding d")
      case True
      then show ?thesis using pix(2) that c by (simp add: black_outside_def)
    next
      case False
      then have "in_picture d y x" using c nopad res by (auto simp: in_picture_def in_container_def)
      then show ?thesis using that by simp
    qed
    ultimately show ?thesis by (simp add: a(7))
  qed
  show "take (nat (W * H * 3)) (pixels sc) = concat (snd (sws_scale lib (frame_key ?k ?fmt fr) (fr_data fr)))"
    if "\<not> hasPadding d"
  proof -
    note n = nopad[OF that]
    have w: "0 \<le> W" "0 \<le> H" using ok n by (auto simp: dims_ok_def)
    have lens: "\<forall>r \<in> set rows. length r = nat (W * 3)" "length rows = nat H"
      using rows(1) rows(3)[OF res(1)] n by auto
    have size: "nat (W * 3) * length rows = nat (W * H * 3)"
      using w by (simp add: lens(2) ac_simps flip: nat_mult_distrib)
    have fits: "0 + nat (W * 3) * length rows \<le> length (pixels sc1)"
      using hold by (simp add: lens(2) res mult.commute)
    have "first_byte 3 d = 0" using n by (simp add: first_byte_def)
    then have "pixels sc = concat rows @ drop (nat (W * 3) * length rows) (pixels sc1)"
      using put_rows_whole[OF lens(1) fits] by (simp add: a(8) res)
    moreover have "length (concat rows) = nat (W * 3) * length rows"
      using lens(1) by (induction rows) simp_all
    ultimately show ?thesis by (simp add: a(7) size)
  qed
qed

section \<open>Properties\<close>



text \<open>
  C33: Whatever frames a scaler has processed, of whatever sizes and formats and with whatever
  failures of libswscale in between: when \<open>Process\<close> delivers a frame, the buffer holds the
  container, its bytes inside the picture are those libswscale made of this frame, and all others
  are zero. So the virtual camera shows the picture centred on black, without remains of earlier
  ones; a scaler without padding shows nothing but the picture.
\<close>

theorem picture_on_black:
  assumes "lawful_swscale lib" and "three_bytes fmt"
    and "\<forall>fo \<in> set frames. usable_frame k fo" and "usable_frame k (Some fr)"
    and "Process lib (Some fr) (process_all lib frames (new_scaler k fmt)) = (Some (W, H), sc)"
    and "y < nat H" and "x < nat (W * 3)"
  shows "let d = CalculateTargetDimensions k (fr_width fr) (fr_height fr);
      (res, rows) = sws_scale lib (fr_width fr, fr_height fr, fr_format fr, dim_width d, dim_height d, fmt) (fr_data fr)
    in W = containerWidth d \<and> H = containerHeight d \<and> y * nat (W * 3) + x < length (pixels sc)
     \<and> pixels sc ! (y * nat (W * 3) + x)
       = (if yOffset d \<le> int y \<and> int y < yOffset d + dim_height d
            \<and> xOffset d * 3 \<le> int x \<and> int x < (xOffset d + dim_width d) * 3
          then rows ! (y - nat (yOffset d)) ! (x - nat (xOffset d * 3)) else 0)"
proof -
  let ?sc = "process_all lib frames (new_scaler k fmt)"
  have new: "scaler_inv lib (new_scaler k fmt)" "sc_kind (new_scaler k fmt) = k" "sc_format (new_scaler k fmt) = fmt"
    by (simp_all add: scaler_inv_def new_scaler_def)
  have inv: "scaler_inv lib ?sc" "sc_kind ?sc = k" "sc_format ?sc = fmt"
    using process_all_inv[OF assms(1) _ new(1), of frames] assms(2,3) new(2,3) by simp_all
  note delivered = Process_shows[OF assms(1) _ _ _ assms(5), unfolded inv(2,3), OF assms(2,4) inv(1)]
  obtain res rows where "sws_scale lib (frame_key k fmt fr) (fr_data fr) = (res, rows)" by fastforce
  with delivered(1,2) delivered(3)[OF assms(6,7)] delivered(4)[OF assms(6,7)] show ?thesis
    by (simp add: Let_def frame_dims_def frame_key_def in_picture_def byte_at_def)
qed

text \<open>A libswscale that paints every picture white.\<close>

definition white_swscale :: "unit swscale" where
  "white_swscale = \<lparr>get_context = (\<lambda>_. True),
     sws_scale = (\<lambda>(w, h, f, a, b, fmt) d. (if b > 0 \<and> a > 0 then b else 0,
        if three_bytes fmt \<and> a > 0 then replicate (nat b) (replicate (nat (a * 3)) 255) else [])),
     bits_per_pixel = (\<lambda>_. None), INPUT_BUFFER_PADDING_SIZE = 64\<rparr>"

definition small_frame :: "unit av_frame" where
  "small_frame = \<lparr>fr_width = 2, fr_height = 2, fr_format = Other_format 0, fr_data = ()\<rparr>"

lemma small_dims:
  "CalculateTargetDimensions (Direct_show 4 2) 2 2
    = \<lparr>dim_width = 2, dim_height = 2, containerWidth = 4, containerHeight = 2,
       xOffset = 1, yOffset = 0, hasPadding = True\<rparr>"
proof -
  have "rounded 53 1 = 1" "rounded 53 2 = 2"
    using rounded_int[of 1 53] rounded_int[of 2 53] by simp_all
  then have "fit 4 2 2 2 = (2, 2)"
    by (simp add: fit_def Let_def as_double_int box_size_def as_int_def)
  then show ?thesis by (simp add: CalculateTargetDimensions_def c_half_def)
qed

lemma picture_on_black_witness:
  "let sc = snd (Process white_swscale (Some small_frame) (new_scaler (Direct_show 4 2) BGR24))
   in pixels sc ! 12 = 0 \<and> pixels sc ! 15 = 255"
proof -
  have law: "lawful_swscale white_swscale"
    by (auto simp: lawful_swscale_def white_swscale_def split: if_splits)
  have use: "usable_frame (Direct_show 4 2) (Some small_frame)"
    by (simp add: usable_frame_def small_frame_def kind_ok_def box_size_def frame_size_def)
  obtain sc where p: "Process white_swscale (Some small_frame) (process_all white_swscale [] (new_scaler (Direct_show 4 2) BGR24)) = (Some (4, 2), sc)"
    by (simp add: Process_def small_frame_def PrepareContext_def process_all_def new_scaler_def Let_def
        small_dims white_swscale_def three_bytes_def)
  have b: "three_bytes BGR24" by (simp add: three_bytes_def)
  have "pixels sc ! 12 = 0"
    using picture_on_black[OF law b _ use p, of 1 0]
    by (simp add: small_frame_def small_dims white_swscale_def three_bytes_def split: prod.splits)
  moreover have "pixels sc ! 15 = 255"
    using picture_on_black[OF law b _ use p, of 1 3]
    by (simp add: small_frame_def small_dims white_swscale_def three_bytes_def split: prod.splits)
  ultimately show ?thesis using p by (simp add: process_all_def)
qed

end
