(* ===== verification/Windows_Receiver.thy ===== *)
theory Windows_Receiver
  imports Windows_Scaler
begin

text \<open>
  The receiver of the video stream, \<open>windows/src/rtsp/receiver.cpp\<close> with its interrupt callback
  \<open>ffmpeginterrupt.h\<close>: one connection attempt with the decode loop and its statistics, the
  repetition of attempts, and \<open>Start\<close> and \<open>Stop\<close> against the worker thread as a step relation.
  What FFmpeg answers is an argument.
\<close>

section \<open>One connection\<close>

record stats =
  stat_width :: int
  stat_height :: int
  stat_fps :: int
  stat_bitrate :: rat

text \<open>
  One pass of the decode loop: \<open>isRunning\<close> is found false, reading fails, or a packet comes, with
  its stream, its size, whether the decoder takes it, the frames it then delivers, and the clock
  (nanoseconds) after them.
\<close>

datatype 'd pass = Stopped | Read_failed | Packet nat int bool "'d av_frame list" int

datatype 'd delivery = Frame "'d av_frame" | Report stats

record meter =
  m_stats :: stats
  lastStatsTime :: int
  byteAccumulator :: int
  frameAccumulator :: int

definition start_meter :: "int \<Rightarrow> meter" where
  "start_meter now = \<lparr>m_stats = \<lparr>stat_width = 0, stat_height = 0, stat_fps = 0, stat_bitrate = 0\<rparr>,
     lastStatsTime = now, byteAccumulator = 0, frameAccumulator = 0\<rparr>"

text \<open>Width and height change places here.\<close>

definition count_frame :: "'d av_frame \<Rightarrow> meter \<Rightarrow> meter" where
  "count_frame fr m = m\<lparr>frameAccumulator := frameAccumulator m + 1,
     m_stats := (m_stats m)\<lparr>stat_width := fr_height fr, stat_height := fr_width fr\<rparr>\<rparr>"

definition report :: "int \<Rightarrow> meter \<Rightarrow> 'd delivery list \<times> meter" where
  "report now m =
     (let duration = (now - lastStatsTime m) div 1000000
      in if duration \<ge> 1000 then
           let s = (m_stats m)\<lparr>stat_fps := frameAccumulator m div (duration div 1000),
                 stat_bitrate := rounded 53 (rounded 53 (rounded 53 (of_int (byteAccumulator m) * 8) / 1000000)
                   / of_int (duration div 1000))\<rparr>
           in ([Report s], \<lparr>m_stats = s, lastStatsTime = now, byteAccumulator = 0, frameAccumulator = 0\<rparr>)
         else ([], m))"

fun receive_passes :: "nat \<Rightarrow> 'd pass list \<Rightarrow> meter \<Rightarrow> 'd delivery list \<times> meter" where
  "receive_passes videoStreamIdx [] m = ([], m)"
| "receive_passes videoStreamIdx (Stopped # ps) m = ([], m)"
| "receive_passes videoStreamIdx (Read_failed # ps) m = ([], m)"
| "receive_passes videoStreamIdx (Packet stream sz taken frames now # ps) m =
     (if stream \<noteq> videoStreamIdx then receive_passes videoStreamIdx ps m
      else
        let m = m\<lparr>byteAccumulator := byteAccumulator m + sz\<rparr>
        in if \<not> taken then receive_passes videoStreamIdx ps m
           else
             let m = fold count_frame frames m;
                 (reported, m) = report now m;
                 (rest, m) = receive_passes videoStreamIdx ps m
             in (map Frame frames @ reported @ rest, m))"

text \<open>
  The answers of FFmpeg in one call of \<open>Loop\<close>: whether the address opens, which streams are
  video, whether there is a decoder and whether it opens. \<open>avformat_open_input\<close> releases the
  format context itself when it fails.
\<close>

record 'd attempt =
  opens :: bool
  video_streams :: "bool list"
  decoder_found :: bool
  decoder_opens :: bool
  clock_start :: int
  passes :: "'d pass list"

text \<open>The index of the first video stream, and how many codec contexts have been allocated.\<close>

definition FindVideoStream :: "'d attempt \<Rightarrow> nat option \<times> nat" where
  "FindVideoStream a =
     (case find_first (\<lambda>v. v) (video_streams a) of
        None \<Rightarrow> (None, 0)
      | Some i \<Rightarrow>
          if \<not> decoder_found a then (None, 0)
          else if \<not> decoder_opens a then (None, 1) else (Some i, 1))"

text \<open>\<open>Loop\<close>: what it passes on, and how many codec contexts it leaves allocated.\<close>

definition Loop :: "'d attempt \<Rightarrow> 'd delivery list \<times> nat" where
  "Loop a =
     (if \<not> opens a then ([], 0)
      else case FindVideoStream a of
          (None, allocated) \<Rightarrow> ([], allocated)
        | (Some i, allocated) \<Rightarrow>
            (fst (receive_passes i (passes a) (start_meter (clock_start a))), allocated - 1))"

text \<open>\<open>WorkerFunc\<close>: attempt after attempt until \<open>isRunning\<close> is false.\<close>

definition WorkerFunc :: "'d attempt list \<Rightarrow> 'd delivery list \<times> nat" where
  "WorkerFunc attempts = (concat (map (fst \<circ> Loop) attempts), sum_list (map (snd \<circ> Loop) attempts))"

section \<open>Frames and statistics\<close>

fun pass_frames :: "nat \<Rightarrow> 'd pass list \<Rightarrow> 'd av_frame list" where
  "pass_frames i (Packet stream sz taken frames now # ps) =
     (if stream = i \<and> taken then frames else []) @ pass_frames i ps"
| "pass_frames i _ = []"

fun pass_bytes :: "nat \<Rightarrow> 'd pass list \<Rightarrow> int" where
  "pass_bytes i (Packet stream sz taken frames now # ps) = (if stream = i then sz else 0) + pass_bytes i ps"
| "pass_bytes i _ = 0"

fun frames_of :: "'d delivery list \<Rightarrow> 'd av_frame list" where
  "frames_of [] = []"
| "frames_of (Frame fr # os) = fr # frames_of os"
| "frames_of (Report s # os) = frames_of os"

lemma frames_of_append [simp]: "frames_of (xs @ ys) = frames_of xs @ frames_of ys"
  by (induction xs rule: frames_of.induct) auto

lemma frames_of_frames [simp]: "frames_of (map Frame frs) = frs"
  by (induction frs) auto

lemma report_frames: "report now m = (r, m') \<Longrightarrow> frames_of r = []"
  by (auto simp: report_def Let_def split: if_splits)

lemma receive_frames: "frames_of (fst (receive_passes i ps m)) = pass_frames i ps"
proof (induction i ps m rule: receive_passes.induct)
  case (4 i stream sz taken frames now ps m)
  then show ?case
    by (auto simp: Let_def split: prod.splits dest: report_frames)
qed simp_all

lemma count_frames:
  "frameAccumulator (fold count_frame frs m) = frameAccumulator m + int (length frs)"
  "byteAccumulator (fold count_frame frs m) = byteAccumulator m"
  "lastStatsTime (fold count_frame frs m) = lastStatsTime m"
  by (induction frs arbitrary: m) (auto simp: count_frame_def)

definition packets_only :: "'d pass list \<Rightarrow> bool" where
  "packets_only ps \<longleftrightarrow> Stopped \<notin> set ps \<and> Read_failed \<notin> set ps"

definition no_report :: "'d delivery list \<Rightarrow> bool" where
  "no_report os \<longleftrightarrow> (\<forall>s. Report s \<notin> set os)"

lemma no_report_append [simp]: "no_report (xs @ ys) \<longleftrightarrow> no_report xs \<and> no_report ys"
  by (auto simp: no_report_def)

lemma no_report_frames [simp]: "no_report (map Frame frs)"
  by (auto simp: no_report_def)

text \<open>Between two reports everything is counted.\<close>

lemma counted:
  assumes "receive_passes i ps m = (outs, m')" "no_report outs" "packets_only ps"
  shows "frameAccumulator m' = frameAccumulator m + int (length (pass_frames i ps))
    \<and> byteAccumulator m' = byteAccumulator m + pass_bytes i ps \<and> lastStatsTime m' = lastStatsTime m"
  using assms
proof (induction i ps m arbitrary: outs m' rule: receive_passes.induct)
  case (4 i stream sz taken frames now ps m)
  let ?m1 = "m\<lparr>byteAccumulator := byteAccumulator m + sz\<rparr>"
  have po: "packets_only ps" using 4(6) by (simp add: packets_only_def)
  consider "stream \<noteq> i" | "stream = i" "\<not> taken" | "stream = i" "taken" by blast
  then show ?case
  proof cases
    case 1
    then show ?thesis using 4(1)[OF 1 _ 4(5) po] 4(4) by simp
  next
    case 2
    then show ?thesis using 4(2)[OF _ refl 2(2) _ 4(5) po] 4(4) by simp
  next
    case 3
    let ?m2 = "fold count_frame frames ?m1"
    obtain r :: "'a delivery list" and m3 where r: "report now ?m2 = (r, m3)" by fastforce
    obtain os m4 where o: "receive_passes i ps m3 = (os, m4)" by fastforce
    have out: "outs = map Frame frames @ r @ os" "m' = m4" using 4(4) 3 r o by (simp_all add: Let_def)
    have "no_report r" "no_report os" using 4(5) by (simp_all add: out(1))
    then have "r = [] \<and> m3 = ?m2" using r by (auto simp: report_def Let_def no_report_def split: if_splits)
    moreover have "frameAccumulator m4 = frameAccumulator m3 + int (length (pass_frames i ps))
        \<and> byteAccumulator m4 = byteAccumulator m3 + pass_bytes i ps \<and> lastStatsTime m4 = lastStatsTime m3"
      by (rule 4(3)[OF _ refl _ refl r[symmetric] refl o \<open>no_report os\<close> po]) (use 3 in simp_all)
    ultimately show ?thesis using 3 by (simp add: out count_frames)
  qed
qed (simp_all add: packets_only_def)

lemma receive_append:
  assumes "packets_only ps"
  shows "receive_passes i (ps @ qs) m =
    (let (os, m') = receive_passes i ps m; (os', m'') = receive_passes i qs m' in (os @ os', m''))"
  using assms
proof (induction i ps m rule: receive_passes.induct)
  case (4 i stream sz taken frames now ps m)
  have po: "packets_only ps" using 4(4) by (simp add: packets_only_def)
  then show ?case using 4(1-3) by (auto simp: Let_def split: prod.splits)
qed (auto simp: packets_only_def Let_def split: prod.splits)

section \<open>Starting and stopping\<close>

text \<open>
  The interrupt callback that FFmpeg calls while it blocks: abort when a stop is requested, or
  when the last activity is more than three seconds ago.
\<close>

definition TIMEOUT_MS :: int where "TIMEOUT_MS = 3000"

definition interrupted :: "bool \<Rightarrow> int \<Rightarrow> int \<Rightarrow> bool" where
  "interrupted requested lastActivityTime now \<longleftrightarrow> requested \<or> now - lastActivityTime > TIMEOUT_MS"

text \<open>
  Where the worker stands: about to test \<open>isRunning\<close> in \<open>WorkerFunc\<close>, about to clear
  \<open>stopRequested\<close>, in \<open>avformat_open_input\<close>, looking for the stream, about to test \<open>isRunning\<close> in
  \<open>Loop\<close>, in \<open>av_read_frame\<close>, decoding, back from \<open>Loop\<close>, asleep, done. The user interface is
  idle or between two statements of \<open>Start\<close> or \<open>Stop\<close>.
\<close>

datatype worker_place =
  Testing | Clearing | Opening | Finding | Looping | Reading | Decoding | Returned | Sleeping | Done

datatype ui_place = Idle | Starting | Requesting | Joining

record receiver_state =
  isRunning :: bool
  stopRequested :: bool
  worker :: "worker_place option"
  ui :: ui_place
  terminated :: bool
  delivered :: nat

definition receiver_start :: receiver_state where
  "receiver_start = \<lparr>isRunning = False, stopRequested = False, worker = None, ui = Idle,
     terminated = False, delivered = 0\<rparr>"

text \<open>
  A thread object that is assigned a new thread while its own is joinable terminates the program.
\<close>

inductive control_step :: "receiver_state \<Rightarrow> receiver_state \<Rightarrow> bool" where
  start: "ui s = Idle \<Longrightarrow> \<not> isRunning s \<Longrightarrow> control_step s (s\<lparr>isRunning := True, ui := Starting\<rparr>)"
| start_running: "ui s = Idle \<Longrightarrow> isRunning s \<Longrightarrow> control_step s s"
| create: "ui s = Starting \<Longrightarrow> worker s = None \<Longrightarrow> control_step s (s\<lparr>worker := Some Testing, ui := Idle\<rparr>)"
| create_joinable: "ui s = Starting \<Longrightarrow> worker s \<noteq> None \<Longrightarrow> control_step s (s\<lparr>terminated := True\<rparr>)"
| stop: "ui s = Idle \<Longrightarrow> isRunning s \<Longrightarrow> control_step s (s\<lparr>isRunning := False, ui := Requesting\<rparr>)"
| stop_stopped: "ui s = Idle \<Longrightarrow> \<not> isRunning s \<Longrightarrow> control_step s s"
| request: "ui s = Requesting \<Longrightarrow> control_step s (s\<lparr>stopRequested := True, ui := Joining\<rparr>)"
| join: "ui s = Joining \<Longrightarrow> worker s = Some Done \<Longrightarrow> control_step s (s\<lparr>worker := None, ui := Idle\<rparr>)"
| join_none: "ui s = Joining \<Longrightarrow> worker s = None \<Longrightarrow> control_step s (s\<lparr>ui := Idle\<rparr>)"

inductive thread_step :: "receiver_state \<Rightarrow> receiver_state \<Rightarrow> bool" where
  test: "worker s = Some Testing \<Longrightarrow> thread_step s (s\<lparr>worker := Some (if isRunning s then Clearing else Done)\<rparr>)"
| clear: "worker s = Some Clearing \<Longrightarrow> thread_step s (s\<lparr>stopRequested := False, worker := Some Opening\<rparr>)"
| opened: "worker s = Some Opening \<Longrightarrow> thread_step s (s\<lparr>worker := Some Finding\<rparr>)"
| open_failed: "worker s = Some Opening \<Longrightarrow> thread_step s (s\<lparr>worker := Some Returned\<rparr>)"
| found: "worker s = Some Finding \<Longrightarrow> thread_step s (s\<lparr>worker := Some Looping\<rparr>)"
| not_found: "worker s = Some Finding \<Longrightarrow> thread_step s (s\<lparr>worker := Some Returned\<rparr>)"
| loop: "worker s = Some Looping \<Longrightarrow> thread_step s (s\<lparr>worker := Some (if isRunning s then Reading else Returned)\<rparr>)"
| read_failed: "worker s = Some Reading \<Longrightarrow> thread_step s (s\<lparr>worker := Some Returned\<rparr>)"
| read_other: "worker s = Some Reading \<Longrightarrow> thread_step s (s\<lparr>worker := Some Looping\<rparr>)"
| read_video: "worker s = Some Reading \<Longrightarrow> thread_step s (s\<lparr>worker := Some Decoding\<rparr>)"
| decode: "worker s = Some Decoding \<Longrightarrow> thread_step s (s\<lparr>worker := Some Looping, delivered := delivered s + n\<rparr>)"
| returned: "worker s = Some Returned \<Longrightarrow> thread_step s (s\<lparr>worker := Some (if isRunning s then Sleeping else Testing)\<rparr>)"
| awake: "worker s = Some Sleeping \<Longrightarrow> thread_step s (s\<lparr>worker := Some Testing\<rparr>)"

inductive_cases control_stepE: "control_step s s'"
inductive_cases thread_stepE: "thread_step s s'"

inductive receiver_run :: "receiver_state \<Rightarrow> receiver_state \<Rightarrow> bool" where
  rest: "receiver_run s s"
| by_ui: "receiver_run s s' \<Longrightarrow> control_step s' s'' \<Longrightarrow> receiver_run s s''"
| by_worker: "receiver_run s s' \<Longrightarrow> thread_step s' s'' \<Longrightarrow> receiver_run s s''"

text \<open>
  There is a thread exactly while the receiver runs or is being stopped, and it ends only when it
  is being stopped.
\<close>

definition receiver_ok :: "receiver_state \<Rightarrow> bool" where
  "receiver_ok s \<longleftrightarrow> \<not> terminated s \<and>
     (case ui s of
        Idle \<Rightarrow> (if isRunning s then worker s \<noteq> None \<and> worker s \<noteq> Some Done else worker s = None)
      | Starting \<Rightarrow> isRunning s \<and> worker s = None
      | Requesting \<Rightarrow> \<not> isRunning s \<and> worker s \<noteq> None
      | Joining \<Rightarrow> \<not> isRunning s \<and> worker s \<noteq> None)"

lemma control_step_ok: "control_step s s' \<Longrightarrow> receiver_ok s \<Longrightarrow> receiver_ok s'"
  by (induction rule: control_step.induct) (auto simp: receiver_ok_def split: ui_place.splits if_splits)

lemma receiver_worker_ok: "thread_step s s' \<Longrightarrow> receiver_ok s \<Longrightarrow> receiver_ok s'"
  by (induction rule: thread_step.induct) (auto simp: receiver_ok_def split: ui_place.splits if_splits)

lemma receiver_run_ok: "receiver_run s s' \<Longrightarrow> receiver_ok s \<Longrightarrow> receiver_ok s'"
  by (induction rule: receiver_run.induct) (auto intro: control_step_ok receiver_worker_ok)

text \<open>How many steps the worker has left once \<open>isRunning\<close> is false.\<close>

fun steps_left :: "worker_place \<Rightarrow> nat" where
  "steps_left Done = 0"
| "steps_left Testing = 1"
| "steps_left Returned = 2"
| "steps_left Sleeping = 2"
| "steps_left Looping = 3"
| "steps_left Finding = 4"
| "steps_left Decoding = 4"
| "steps_left Reading = 5"
| "steps_left Opening = 5"
| "steps_left Clearing = 6"

definition left :: "receiver_state \<Rightarrow> nat" where
  "left s = (case worker s of None \<Rightarrow> 0 | Some p \<Rightarrow> steps_left p)"

lemma thread_step_left:
  "thread_step s s' \<Longrightarrow> \<not> isRunning s \<Longrightarrow> left s' < left s \<and> \<not> isRunning s' \<and> ui s' = ui s"
  by (induction rule: thread_step.induct) (simp_all add: left_def)

lemma worker_can_step:
  "worker s = Some p \<Longrightarrow> p \<noteq> Done \<Longrightarrow> \<exists>s'. thread_step s s'"
  by (cases p) (auto intro: thread_step.intros)

inductive thread_steps :: "nat \<Rightarrow> receiver_state \<Rightarrow> receiver_state \<Rightarrow> bool" where
  none: "thread_steps 0 s s"
| more: "thread_step s s' \<Longrightarrow> thread_steps n s' s'' \<Longrightarrow> thread_steps (Suc n) s s''"

lemma thread_steps_left:
  "thread_steps n s s' \<Longrightarrow> \<not> isRunning s \<Longrightarrow> left s' + n \<le> left s \<and> \<not> isRunning s' \<and> ui s' = ui s"
  by (induction rule: thread_steps.induct) (auto dest: thread_step_left)

lemma steps_left_bound: "steps_left p \<le> 6"
  by (cases p) simp_all

text \<open>Dividing by whole seconds instead of the time.\<close>

lemma rate_low:
  fixes T D q c :: int
  assumes "0 \<le> T" "1 \<le> q" "0 < c" "q * c \<le> D"
  shows "T * c div D \<le> T div q"
proof -
  have "0 < q * c" using assms by simp
  then have "T * c div D \<le> T * c div (q * c)" using assms by (intro zdiv_mono2) auto
  also have "T * c div (q * c) = T div q" using assms(3) by (simp add: mult.commute)
  finally show ?thesis .
qed

lemma rate_high:
  fixes T D q c :: int
  assumes "0 \<le> T" "1 \<le> q" "0 < c" "D < (q + 1) * c"
  shows "T div q * D < 2 * T * c + (if T = 0 then 1 else 0)"
proof (cases "T div q = 0")
  case True
  then show ?thesis using assms(1,3) by (cases "T = 0") auto
next
  case False
  have "0 \<le> T div q" using assms(1,2) by (simp add: pos_imp_zdiv_nonneg_iff)
  then have pos: "0 < T div q" using False by linarith
  have "(q + 1) * c \<le> (2 * q) * c" using assms(2,3) by (intro mult_right_mono) auto
  then have "D < 2 * q * c" using assms(4) by linarith
  then have "T div q * D < T div q * (2 * q * c)" using pos by (rule mult_strict_left_mono)
  also have "\<dots> = (T div q * q) * (2 * c)" by (simp add: algebra_simps)
  also have "\<dots> \<le> T * (2 * c)"
  proof (rule mult_right_mono)
    have "T div q * q = T - T mod q" by (simp add: minus_mod_eq_div_mult)
    then show "T div q * q \<le> T" using pos_mod_sign[of q T] assms(2) by linarith
  qed (use assms(3) in simp)
  finally show ?thesis by (auto simp: algebra_simps)
qed

section \<open>Properties\<close>

text \<open>
  A report of statistics covers exactly what came since the last one: it comes with the first
  accepted video packet at least a second after it, its frame rate is the number of frames
  delivered since then and its bit rate the bytes of all video packets since then (rejected ones
  included), both divided by the whole seconds that have passed, and the counters start again at
  zero. The time is cut to whole seconds, so the rate shown is at least the true one, and less
  than twice the true one plus the cut-off fraction.
\<close>

theorem report_covers_window:
  assumes "receive_passes i ps (m\<lparr>lastStatsTime := t0, byteAccumulator := 0, frameAccumulator := 0\<rparr>) = (before, m1)"
    and "no_report before" and "packets_only ps"
    and "receive_passes i [Packet i sz True frames now] m1 = (after, m2)" and "Report st \<in> set after"
  shows "let total = int (length (pass_frames i ps) + length frames);
      seconds = (now - t0) div 1000000000
    in 1 \<le> seconds \<and> stat_fps st = total div seconds
     \<and> stat_bitrate st = rounded 53 (rounded 53 (rounded 53 (of_int (pass_bytes i ps + sz) * 8) / 1000000) / of_int seconds)
     \<and> m2 = \<lparr>m_stats = st, lastStatsTime = now, byteAccumulator = 0, frameAccumulator = 0\<rparr>
     \<and> total * 1000000000 div (now - t0) \<le> stat_fps st
     \<and> stat_fps st * (now - t0) < 2 * total * 1000000000 + (if total = 0 then 1 else 0)"
proof -
  let ?total = "int (length (pass_frames i ps) + length frames)"
  let ?s = "(now - t0) div 1000000000"
  let ?m2 = "fold count_frame frames (m1\<lparr>byteAccumulator := byteAccumulator m1 + sz\<rparr>)"
  have c: "frameAccumulator m1 = int (length (pass_frames i ps))" "byteAccumulator m1 = pass_bytes i ps"
    "lastStatsTime m1 = t0"
    using counted[OF assms(1-3)] by simp_all
  have a: "frameAccumulator ?m2 = ?total" "byteAccumulator ?m2 = pass_bytes i ps + sz" "lastStatsTime ?m2 = t0"
    using c by (simp_all add: count_frames)
  have sec: "(now - t0) div 1000000 div 1000 = ?s" by (simp add: zdiv_zmult2_eq[symmetric])
  obtain r :: "'b delivery list" and m3 where r: "report now ?m2 = (r, m3)" by fastforce
  have after: "after = map Frame frames @ r" "m2 = m3"
    using assms(4) r by (simp_all add: Let_def)
  then have "Report st \<in> set r" using assms(5) by auto
  then have st: "1000 \<le> (now - t0) div 1000000"
    "st = (m_stats ?m2)\<lparr>stat_fps := ?total div ?s,
       stat_bitrate := rounded 53 (rounded 53 (rounded 53 (of_int (pass_bytes i ps + sz) * 8) / 1000000) / of_int ?s)\<rparr>"
    "m3 = \<lparr>m_stats = st, lastStatsTime = now, byteAccumulator = 0, frameAccumulator = 0\<rparr>"
    using r a by (auto simp: report_def Let_def sec split: if_splits)
  have s1: "1 \<le> ?s" using st(1) unfolding sec[symmetric] by simp
  let ?D = "now - t0"
  have D: "?s * 1000000000 \<le> ?D" "?D < (?s + 1) * 1000000000"
    using div_mult_mod_eq[of ?D 1000000000] pos_mod_bound[of 1000000000 ?D] pos_mod_sign[of 1000000000 ?D]
    by (simp_all add: algebra_simps)
  note low = rate_low[OF _ s1 _ D(1), of ?total]
  note high = rate_high[OF _ s1 _ D(2), of ?total]
  have "?total * 1000000000 div ?D \<le> ?total div ?s" by (rule low) simp_all
  moreover have "?total div ?s * ?D < 2 * ?total * 1000000000 + (if ?total = 0 then 1 else 0)"
    by (rule high) simp_all
  ultimately show ?thesis unfolding Let_def using s1 after(2) st(2,3) by simp
qed

lemma report_covers_window_witness:
  "\<exists>st m. receive_passes 0 [Packet 0 1000 True [\<lparr>fr_width = 4, fr_height = 2, fr_format = BGR24, fr_data = ()\<rparr>] 1500000000]
      (start_meter 0) = ([Frame \<lparr>fr_width = 4, fr_height = 2, fr_format = BGR24, fr_data = ()\<rparr>, Report st], m)
     \<and> stat_fps st = 1"
proof -
  let ?fr = "\<lparr>fr_width = 4, fr_height = 2, fr_format = BGR24, fr_data = ()\<rparr>"
  obtain st m where r: "receive_passes 0 [Packet 0 1000 True [?fr] 1500000000] (start_meter 0) = ([Frame ?fr, Report st], m)"
    by (simp add: report_def Let_def start_meter_def count_frame_def)
  have "stat_fps st = 1"
    using report_covers_window[of 0 "[]" 0 "start_meter 0" "[]" "start_meter 0" 1000 "[?fr]" 1500000000 _ m st] r
    by (simp add: start_meter_def packets_only_def no_report_def Let_def)
  then show ?thesis using r by blast
qed

text \<open>
  Over all connection attempts the callback gets the frames the decoder made of the accepted
  packets of the first video stream, all of them and in order, each attempt up to its failure; and
  every attempt whose decoder does not open leaves a codec context behind that nothing releases,
  while the loop tries again every half second.
\<close>

theorem attempts_deliver_and_leak:
  "frames_of (fst (WorkerFunc attempts)) = concat (map (\<lambda>a.
      case find_first (\<lambda>v. v) (video_streams a) of
        Some i \<Rightarrow> if opens a \<and> decoder_found a \<and> decoder_opens a then pass_frames i (passes a) else []
      | None \<Rightarrow> []) attempts)
   \<and> snd (WorkerFunc attempts)
     = length (filter (\<lambda>a. opens a \<and> True \<in> set (video_streams a) \<and> decoder_found a \<and> \<not> decoder_opens a) attempts)"
proof (induction attempts)
  case (Cons a attempts)
  have loop: "frames_of (fst (Loop a)) = (case find_first (\<lambda>v. v) (video_streams a) of
        Some i \<Rightarrow> if opens a \<and> decoder_found a \<and> decoder_opens a then pass_frames i (passes a) else []
      | None \<Rightarrow> [])
    \<and> snd (Loop a) = (if opens a \<and> True \<in> set (video_streams a) \<and> decoder_found a \<and> \<not> decoder_opens a then 1 else 0)"
  proof (cases "find_first (\<lambda>v. v) (video_streams a)")
    case None
    then have "True \<notin> set (video_streams a)" by auto
    then show ?thesis by (simp only: Loop_def FindVideoStream_def None) simp
  next
    case (Some i)
    then have "True \<in> set (video_streams a)" using find_first_Some[OF Some] by (metis (full_types) nth_mem)
    then show ?thesis by (simp only: Loop_def FindVideoStream_def Some) (simp add: receive_frames)
  qed
  have "WorkerFunc (a # attempts) = (fst (Loop a) @ fst (WorkerFunc attempts), snd (Loop a) + snd (WorkerFunc attempts))"
    by (simp add: WorkerFunc_def)
  then show ?case using Cons loop by simp
qed (simp add: WorkerFunc_def)

lemma joining_ends:
  assumes "receiver_ok s" "ui s = Joining" "thread_steps n s s'"
  shows "n \<le> 6 \<and> ui s' = Joining
    \<and> ((\<exists>s''. thread_step s' s'') \<or> (\<exists>s''. control_step s' s'' \<and> ui s'' = Idle \<and> worker s'' = None))"
proof -
  have run: "\<not> isRunning s" using assms(1,2) by (simp add: receiver_ok_def)
  note l = thread_steps_left[OF assms(3) run]
  have "left s \<le> 6" using steps_left_bound by (simp add: left_def split: option.splits)
  moreover have "(\<exists>s''. thread_step s' s'') \<or> (\<exists>s''. control_step s' s'' \<and> ui s'' = Idle \<and> worker s'' = None)"
  proof (cases "worker s'")
    case None
    then have "control_step s' (s'\<lparr>ui := Idle\<rparr>)" using l assms(2) by (intro join_none) auto
    then show ?thesis using None by fastforce
  next
    case (Some p)
    show ?thesis
    proof (cases "p = Done")
      case True
      then have "control_step s' (s'\<lparr>worker := None, ui := Idle\<rparr>)" using Some l assms(2) by (intro join) auto
      then show ?thesis by fastforce
    qed (use worker_can_step[OF Some] in blast)
  qed
  ultimately show ?thesis using l assms(2) by auto
qed

text \<open>The worker is about to clear the flag when \<open>Stop\<close> sets it.\<close>

definition stopping :: receiver_state where
  "stopping = receiver_start\<lparr>stopRequested := True, worker := Some Clearing, ui := Joining\<rparr>"

lemma stopping_reached: "receiver_run receiver_start stopping"
proof -
  let ?s1 = "receiver_start\<lparr>isRunning := True, ui := Starting\<rparr>"
  let ?s2 = "?s1\<lparr>worker := Some Testing, ui := Idle\<rparr>"
  let ?s3 = "?s2\<lparr>worker := Some Clearing\<rparr>"
  let ?s4 = "?s3\<lparr>isRunning := False, ui := Requesting\<rparr>"
  let ?s5 = "?s4\<lparr>stopRequested := True, ui := Joining\<rparr>"
  have "receiver_run receiver_start ?s1" by (rule by_ui[OF rest start]) (simp_all add: receiver_start_def)
  then have "receiver_run receiver_start ?s2" by (rule by_ui[OF _ create]) (simp_all add: receiver_start_def)
  moreover have "thread_step ?s2 ?s3" using test[of ?s2] by (simp add: receiver_start_def)
  ultimately have "receiver_run receiver_start ?s3" by (rule by_worker)
  then have "receiver_run receiver_start ?s4" by (rule by_ui[OF _ stop]) (simp_all add: receiver_start_def)
  then have "receiver_run receiver_start ?s5" by (rule by_ui[OF _ request]) simp
  then show ?thesis by (simp add: stopping_def receiver_start_def)
qed

lemma request_lost:
  "\<exists>s. receiver_run receiver_start s \<and> ui s = Joining \<and> worker s = Some Opening
     \<and> (\<forall>last now. interrupted (stopRequested s) last now \<longleftrightarrow> now - last > 3000)"
proof -
  let ?s = "stopping\<lparr>stopRequested := False, worker := Some Opening\<rparr>"
  have "receiver_run receiver_start ?s" by (rule by_worker[OF stopping_reached clear]) (simp add: stopping_def)
  then show ?thesis by (intro exI[of _ ?s]) (simp add: stopping_def interrupted_def TIMEOUT_MS_def)
qed

text \<open>
  C36: Whatever the interleaving of the user interface with the worker thread: a thread object is
  never overwritten while joinable; while the receiver is stopped no step of a worker is possible,
  so no frame comes after \<open>Stop\<close> has returned; and \<open>Stop\<close> returns: once it waits for the worker,
  the worker has at most six steps left, it can always take the next one, and then the wait ends.
  But a stop request can be lost: the worker may clear it in \<open>OpenConnection\<close> after \<open>Stop\<close> has
  set it, and then only the timeout of three seconds interrupts the opening.
\<close>

theorem stop_ends_worker:
  assumes "receiver_run receiver_start s"
  shows "\<not> terminated s
    \<and> (ui s = Idle \<and> \<not> isRunning s \<longrightarrow> (\<forall>s'. \<not> thread_step s s'))
    \<and> (ui s = Joining \<longrightarrow> (\<forall>n s'. thread_steps n s s' \<longrightarrow> n \<le> 6 \<and> ui s' = Joining
         \<and> ((\<exists>s''. thread_step s' s'') \<or> (\<exists>s''. control_step s' s'' \<and> ui s'' = Idle \<and> worker s'' = None))))
    \<and> (\<exists>s'. receiver_run receiver_start s' \<and> ui s' = Joining \<and> worker s' = Some Opening
         \<and> (\<forall>last now. interrupted (stopRequested s') last now \<longleftrightarrow> now - last > 3000))"
proof -
  have "receiver_ok receiver_start" by (simp add: receiver_ok_def receiver_start_def)
  then have ok: "receiver_ok s" using receiver_run_ok[OF assms] by blast
  have "\<not> thread_step s s'" if "ui s = Idle" "\<not> isRunning s" for s'
    using ok that by (auto simp: receiver_ok_def elim: thread_stepE)
  then show ?thesis using ok joining_ends[OF ok] request_lost by (simp add: receiver_ok_def)
qed

lemma stop_ends_worker_witness:
  "receiver_run receiver_start stopping \<and> ui stopping = Joining \<and> \<not> terminated stopping
    \<and> ((\<exists>s. thread_step stopping s) \<or> (\<exists>s. control_step stopping s \<and> ui s = Idle \<and> worker s = None))"
proof -
  have "ui stopping = Joining" by (simp add: stopping_def)
  moreover have "thread_steps 0 stopping stopping" by (rule thread_steps.none)
  ultimately show ?thesis using stop_ends_worker[OF stopping_reached] stopping_reached by blast
qed

end
