(* ===== verification/Windows_Outputs.thy ===== *)
theory Windows_Outputs
  imports Windows_Scaler "HOL-Library.Sublist"
begin

text \<open>
  Where the frames of the Windows client go (the frame callback in \<open>windows/src/application.cpp\<close>):
  the preview \<open>canvas.cpp\<close>, the virtual camera \<open>directshowsource.cpp\<close> and the snapshots
  \<open>snapshotmanager.cpp\<close>, each with a scaler of its own. The callback runs on the thread of the
  receiver; the preview hands its pictures to the thread of the window, whose queue is part of
  the canvas here.
\<close>

section \<open>The canvas\<close>

record wx_bitmap =
  bm_width :: int
  bm_height :: int
  bm_depth :: int
  bm_pixels :: bytes

text \<open>
  wxWidgets: what a new bitmap holds when it can be created, and whether the pixels of a bitmap
  of some depth can be accessed. \<open>lawful_bitmaps\<close> says that those of depth 24 can.
\<close>

record bitmap_library =
  creates :: "int \<Rightarrow> int \<Rightarrow> bytes option"
  raw_access :: "int \<Rightarrow> bool"

definition lawful_bitmaps :: "bitmap_library \<Rightarrow> bool" where
  "lawful_bitmaps wx \<longleftrightarrow> raw_access wx 24"

datatype draw = Background | Picture wx_bitmap int int | Black_rectangle

text \<open>A picture on its way: the copy of the pixels and its size.\<close>

type_synonym picture = "bytes \<times> int \<times> int"

record canvas =
  cv_scaler :: scaler
  cv_bitmap :: "wx_bitmap option"
  shouldDraw :: bool
  shouldClear :: bool
  drawX :: int
  drawY :: int
  isRendering :: bool
  call_after :: "picture list"
  painted :: "draw list"

definition CANVAS_WIDTH :: int where "CANVAS_WIDTH = 400"
definition CANVAS_HEIGHT :: int where "CANVAS_HEIGHT = 300"

text \<open>The first bitmap has the size of the canvas and the depth of the screen, if it can be created.\<close>

definition new_canvas :: "(int \<times> bytes) option \<Rightarrow> canvas" where
  "new_canvas bm = \<lparr>cv_scaler = new_scaler (Gui_preview CANVAS_WIDTH CANVAS_HEIGHT) BGR24,
     cv_bitmap = map_option (\<lambda>(depth, bs). \<lparr>bm_width = CANVAS_WIDTH, bm_height = CANVAS_HEIGHT,
       bm_depth = depth, bm_pixels = bs\<rparr>) bm,
     shouldDraw = False, shouldClear = False, drawX = 0, drawY = 0, isRendering = False,
     call_after = [], painted = []\<rparr>"

definition OnPaint :: "canvas \<Rightarrow> canvas" where
  "OnPaint cv =
     cv\<lparr>painted := painted cv
          @ (if shouldClear cv then [Background] else [])
          @ (if shouldDraw cv then
               (case cv_bitmap cv of Some b \<Rightarrow> [Picture b (drawX cv) (drawY cv)] | None \<Rightarrow> [])
             else [Black_rectangle]),
        shouldClear := False\<rparr>"

definition Create_bitmap :: "bitmap_library \<Rightarrow> int \<Rightarrow> int \<Rightarrow> wx_bitmap option" where
  "Create_bitmap wx w h =
     map_option (\<lambda>bs. \<lparr>bm_width = w, bm_height = h, bm_depth = 24, bm_pixels = bs\<rparr>) (creates wx w h)"

text \<open>A new bitmap when the size of the pictures has changed.\<close>

definition sized_canvas :: "bitmap_library \<Rightarrow> int \<Rightarrow> int \<Rightarrow> canvas \<Rightarrow> canvas" where
  "sized_canvas wx w h cv =
     (if (case cv_bitmap cv of None \<Rightarrow> True | Some b \<Rightarrow> bm_width b \<noteq> w \<or> bm_height b \<noteq> h)
      then cv\<lparr>drawX := c_half (CANVAS_WIDTH - w), drawY := c_half (CANVAS_HEIGHT - h),
             cv_bitmap := Create_bitmap wx w h, shouldClear := True\<rparr>
      else cv)"

text \<open>\<open>Refresh\<close> and \<open>Update\<close> at the end repaint the canvas at once.\<close>

definition Render :: "bitmap_library \<Rightarrow> picture \<Rightarrow> canvas \<Rightarrow> canvas" where
  "Render wx picture cv =
     (let (bs, w, h) = picture
      in if bs = [] \<or> w \<le> 0 \<or> h \<le> 0 then cv
         else
           let cv = sized_canvas wx w h cv
           in case cv_bitmap cv of
                None \<Rightarrow> cv
              | Some b \<Rightarrow>
                  if \<not> raw_access wx (bm_depth b) then cv
                  else
                    let stride = nat (w * 3);
                        rows = map (\<lambda>y. take stride (drop (y * stride) bs)) [0..<nat h]
                    in OnPaint (cv\<lparr>cv_bitmap := Some (b\<lparr>bm_pixels := concat rows\<rparr>), shouldDraw := True\<rparr>))"

text \<open>The vector copies \<open>width * height * 3\<close> bytes; \<open>room\<close> says whether there is memory for it.\<close>

definition ProcessRawFrameAsync :: "'d swscale \<Rightarrow> bool \<Rightarrow> 'd av_frame \<Rightarrow> canvas \<Rightarrow> canvas" where
  "ProcessRawFrameAsync lib room frame cv =
     (if isRendering cv then cv
      else
        case Process lib (Some frame) (cv_scaler cv) of
          (None, sc) \<Rightarrow> cv\<lparr>cv_scaler := sc\<rparr>
        | (Some (w, h), sc) \<Rightarrow>
            if w \<le> 0 \<or> h \<le> 0 \<or> \<not> room then cv\<lparr>cv_scaler := sc\<rparr>
            else cv\<lparr>cv_scaler := sc, isRendering := True,
                   call_after := call_after cv @ [(take (nat (w * h * 3)) (pixels sc), w, h)]\<rparr>)"

definition ClearBeforeNextRender :: "canvas \<Rightarrow> canvas" where
  "ClearBeforeNextRender cv = cv\<lparr>shouldClear := True\<rparr>"

definition canvas_clear :: "canvas \<Rightarrow> canvas" where
  "canvas_clear cv = OnPaint (cv\<lparr>shouldDraw := False, isRendering := False\<rparr>)"

text \<open>The thread of the window takes the next picture from its queue.\<close>

definition run_call_after :: "bitmap_library \<Rightarrow> canvas \<Rightarrow> canvas" where
  "run_call_after wx cv =
     (case call_after cv of
        [] \<Rightarrow> cv
      | p # rest \<Rightarrow> (Render wx p (cv\<lparr>call_after := rest\<rparr>))\<lparr>isRendering := False\<rparr>)"

section \<open>The virtual camera\<close>

record direct_show =
  ds_scaler :: scaler
  ds_width :: int
  ds_height :: int
  streamingEnabled :: bool
  camera_frames :: "bytes list"

definition DirectShowSource :: "int \<Rightarrow> int \<Rightarrow> direct_show" where
  "DirectShowSource w h = \<lparr>ds_scaler = new_scaler (Direct_show w h) BGR24, ds_width = w, ds_height = h,
     streamingEnabled = True, camera_frames = []\<rparr>"

text \<open>\<open>scSendFrame\<close> gets the buffer; the library reads as many bytes as a frame of the camera has.\<close>

definition SendRawFrame :: "'d swscale \<Rightarrow> 'd av_frame \<Rightarrow> direct_show \<Rightarrow> direct_show" where
  "SendRawFrame lib frame ds =
     (if streamingEnabled ds then
        case Process lib (Some frame) (ds_scaler ds) of
          (None, sc) \<Rightarrow> ds\<lparr>ds_scaler := sc\<rparr>
        | (Some (w, h), sc) \<Rightarrow>
            if w \<le> 0 \<or> h \<le> 0 then ds\<lparr>ds_scaler := sc\<rparr>
            else ds\<lparr>ds_scaler := sc, camera_frames := camera_frames ds @ [pixels sc]\<rparr>
      else ds)"

definition ds_pause :: "direct_show \<Rightarrow> direct_show" where
  "ds_pause ds = ds\<lparr>streamingEnabled := False\<rparr>"

definition ds_resume :: "direct_show \<Rightarrow> direct_show" where
  "ds_resume ds = ds\<lparr>streamingEnabled := True\<rparr>"

section \<open>Snapshots\<close>

text \<open>The pictures for which a thread of \<open>SaveSnapshot\<close> was started, in order.\<close>

record snapshots =
  sn_scaler :: scaler
  snapshotRequested :: bool
  saved :: "picture list"

definition SnapshotManager :: snapshots where
  "SnapshotManager = \<lparr>sn_scaler = new_scaler One_to_one RGB24, snapshotRequested = False, saved = []\<rparr>"

definition RequestSnapshot :: "snapshots \<Rightarrow> snapshots" where
  "RequestSnapshot sn = sn\<lparr>snapshotRequested := True\<rparr>"

definition ProcessFrame :: "'d swscale \<Rightarrow> 'd av_frame \<Rightarrow> snapshots \<Rightarrow> snapshots" where
  "ProcessFrame lib frame sn =
     (if \<not> snapshotRequested sn then sn
      else
        case Process lib (Some frame) (sn_scaler sn) of
          (None, sc) \<Rightarrow> sn\<lparr>sn_scaler := sc, snapshotRequested := False\<rparr>
        | (Some (w, h), sc) \<Rightarrow>
            if w \<le> 0 \<or> h \<le> 0 then sn\<lparr>sn_scaler := sc, snapshotRequested := False\<rparr>
            else sn\<lparr>sn_scaler := sc, snapshotRequested := False,
                   saved := saved sn @ [(take (nat (w * h * 3)) (pixels sc), w, h)]\<rparr>)"

section \<open>The frame callback\<close>

record outputs =
  preview :: canvas
  virtual_camera :: direct_show
  photo :: snapshots

definition OnFrameReceived :: "'d swscale \<Rightarrow> bool \<Rightarrow> 'd av_frame \<Rightarrow> outputs \<Rightarrow> outputs" where
  "OnFrameReceived lib room frame out = out\<lparr>preview := ProcessRawFrameAsync lib room frame (preview out),
     virtual_camera := SendRawFrame lib frame (virtual_camera out), photo := ProcessFrame lib frame (photo out)\<rparr>"

text \<open>The button for snapshots asks for the selected device first; its event carries that index.\<close>

datatype 'd output_event =
  Frame "'d av_frame" bool | Window_idle | Repaint | Device_gone | Clear_next | Snapshot_button int | Pause | Resume

fun output_step :: "'d swscale \<Rightarrow> bitmap_library \<Rightarrow> 'd output_event \<Rightarrow> outputs \<Rightarrow> outputs" where
  "output_step lib wx (Frame frame room) out = OnFrameReceived lib room frame out"
| "output_step lib wx Window_idle out = out\<lparr>preview := run_call_after wx (preview out)\<rparr>"
| "output_step lib wx Repaint out = out\<lparr>preview := OnPaint (preview out)\<rparr>"
| "output_step lib wx Device_gone out = out\<lparr>preview := canvas_clear (preview out)\<rparr>"
| "output_step lib wx Clear_next out = out\<lparr>preview := ClearBeforeNextRender (preview out)\<rparr>"
| "output_step lib wx (Snapshot_button streamingDevice) out =
     (if streamingDevice < 0 then out else out\<lparr>photo := RequestSnapshot (photo out)\<rparr>)"
| "output_step lib wx Pause out = out\<lparr>virtual_camera := ds_pause (virtual_camera out)\<rparr>"
| "output_step lib wx Resume out = out\<lparr>virtual_camera := ds_resume (virtual_camera out)\<rparr>"

definition new_outputs :: "(int \<times> bytes) option \<Rightarrow> int \<Rightarrow> int \<Rightarrow> outputs" where
  "new_outputs bm w h = \<lparr>preview = new_canvas bm, virtual_camera = DirectShowSource w h, photo = SnapshotManager\<rparr>"

definition output_run :: "'d swscale \<Rightarrow> bitmap_library \<Rightarrow> 'd output_event list \<Rightarrow> outputs \<Rightarrow> outputs" where
  "output_run lib wx evs out = fold (output_step lib wx) evs out"

fun received_frames :: "'d output_event list \<Rightarrow> 'd av_frame list" where
  "received_frames [] = []"
| "received_frames (Frame frame room # evs) = frame # received_frames evs"
| "received_frames (_ # evs) = received_frames evs"

section \<open>Pictures of frames\<close>

text \<open>What libswscale makes of a frame for a scaler that adds no border.\<close>

definition scaled_picture :: "'d swscale \<Rightarrow> scaler_kind \<Rightarrow> pix_fmt \<Rightarrow> 'd av_frame \<Rightarrow> picture \<Rightarrow> bool" where
  "scaled_picture lib k fmt fr p \<longleftrightarrow>
     (let d = CalculateTargetDimensions k (fr_width fr) (fr_height fr);
          key = (fr_width fr, fr_height fr, fr_format fr, dim_width d, dim_height d, fmt);
          (bs, w, h) = p
      in w = containerWidth d \<and> h = containerHeight d \<and> 0 < w \<and> 0 < h
         \<and> bs = concat (snd (sws_scale lib key (fr_data fr))) \<and> length bs = nat (w * h * 3))"

lemma delivered_picture:
  assumes "lawful_swscale lib" "three_bytes fmt" "usable_frame k (Some fr)" "scaler_inv lib sc"
    and "sc_kind sc = k" "sc_format sc = fmt" "\<not> hasPadding (frame_dims k fr)"
    and "Process lib (Some fr) sc = (Some (w, h), sc')" "\<not> w \<le> 0" "\<not> h \<le> 0"
  shows "scaled_picture lib k fmt fr (take (nat (w * h * 3)) (pixels sc'), w, h)"
proof -
  note d = Process_shows[of lib sc fr, unfolded assms(5,6), OF assms(1-4,8)]
  have "nat (w * h * 3) = nat h * nat (w * 3)"
    using assms(9,10) by (simp add: ac_simps flip: nat_mult_distrib)
  then have "length (take (nat (w * h * 3)) (pixels sc')) = nat (w * h * 3)" using d(2) by simp
  then have "length (concat (snd (sws_scale lib (frame_key k fmt fr) (fr_data fr)))) = nat (w * h * 3)"
    unfolding d(5)[OF assms(7)] .
  then show ?thesis
    unfolding d(5)[OF assms(7)]
    using d(1) assms(9,10) by (simp add: scaled_picture_def Let_def frame_dims_def frame_key_def)
qed

section \<open>The preview keeps the order of the frames\<close>

definition preview_kind :: scaler_kind where
  "preview_kind = Gui_preview CANVAS_WIDTH CANVAS_HEIGHT"

definition bitmap_picture :: "wx_bitmap \<Rightarrow> picture" where
  "bitmap_picture b = (bm_pixels b, bm_width b, bm_height b)"

fun pictures :: "draw list \<Rightarrow> (wx_bitmap \<times> int \<times> int) list" where
  "pictures [] = []"
| "pictures (Picture b x y # ds) = (b, x, y) # pictures ds"
| "pictures (_ # ds) = pictures ds"

lemma pictures_append [simp]: "pictures (ds @ es) = pictures ds @ pictures es"
  by (induction ds rule: pictures.induct) simp_all

definition comes_from :: "'d swscale \<Rightarrow> 'd av_frame list \<Rightarrow> nat \<Rightarrow> picture \<Rightarrow> bool" where
  "comes_from lib frames i p \<longleftrightarrow> i < length frames \<and> scaled_picture lib preview_kind BGR24 (frames ! i) p"

definition centred :: "wx_bitmap \<Rightarrow> int \<Rightarrow> int \<Rightarrow> bool" where
  "centred b x y \<longleftrightarrow> x = c_half (CANVAS_WIDTH - bm_width b) \<and> y = c_half (CANVAS_HEIGHT - bm_height b)"

definition drawn_from :: "'d swscale \<Rightarrow> 'd av_frame list \<Rightarrow> nat \<Rightarrow> wx_bitmap \<times> int \<times> int \<Rightarrow> bool" where
  "drawn_from lib frames i d \<longleftrightarrow> (case d of (b, x, y) \<Rightarrow> comes_from lib frames i (bitmap_picture b) \<and> centred b x y)"

lemma comes_from_later: "comes_from lib frames i p \<Longrightarrow> comes_from lib (frames @ new) i p"
  by (simp add: comes_from_def nth_append)

lemma drawn_from_later: "drawn_from lib frames i d \<Longrightarrow> drawn_from lib (frames @ new) i d"
  by (auto simp: drawn_from_def comes_from_later split: prod.splits)

text \<open>
  The places in the list of frames: of the pictures painted, of the one in the bitmap while it is
  to be drawn, and of those in the queue.
\<close>

definition places_ok :: "'d swscale \<Rightarrow> 'd av_frame list \<Rightarrow> canvas \<Rightarrow> nat list \<Rightarrow> nat list \<Rightarrow> nat list \<Rightarrow> bool" where
  "places_ok lib frames cv ns b ms \<longleftrightarrow> sorted (ns @ b @ ms)
     \<and> list_all2 (drawn_from lib frames) ns (pictures (painted cv))
     \<and> list_all2 (comes_from lib frames) ms (call_after cv)
     \<and> (\<forall>p. shouldDraw cv \<and> cv_bitmap cv = Some p \<longrightarrow> (\<exists>i. b = [i] \<and> drawn_from lib frames i (p, drawX cv, drawY cv)))
     \<and> (\<forall>i \<in> set b. i < length frames)"

definition canvas_inv :: "'d swscale \<Rightarrow> 'd av_frame list \<Rightarrow> canvas \<Rightarrow> bool" where
  "canvas_inv lib frames cv \<longleftrightarrow> scaler_inv lib (cv_scaler cv)
     \<and> sc_kind (cv_scaler cv) = preview_kind \<and> sc_format (cv_scaler cv) = BGR24
     \<and> (isRendering cv \<longrightarrow> call_after cv \<noteq> [])
     \<and> (\<forall>p. cv_bitmap cv = Some p \<longrightarrow> centred p (drawX cv) (drawY cv))
     \<and> (\<exists>ns b ms. places_ok lib frames cv ns b ms)"

lemma places_later:
  assumes "places_ok lib frames cv ns b ms"
  shows "places_ok lib (frames @ new) cv ns b ms"
proof -
  have at: "list_all2 (drawn_from lib frames) ns (pictures (painted cv))" "list_all2 (comes_from lib frames) ms (call_after cv)"
    using assms by (simp_all add: places_ok_def)
  have "list_all2 (drawn_from lib (frames @ new)) ns (pictures (painted cv))"
    by (rule list_all2_mono[OF at(1)]) (rule drawn_from_later)
  moreover have "list_all2 (comes_from lib (frames @ new)) ms (call_after cv)"
    by (rule list_all2_mono[OF at(2)]) (rule comes_from_later)
  moreover have "\<exists>i. b = [i] \<and> drawn_from lib (frames @ new) i (p, drawX cv, drawY cv)"
    if drawing: "shouldDraw cv \<and> cv_bitmap cv = Some p" for p
  proof -
    obtain i where "b = [i]" "drawn_from lib frames i (p, drawX cv, drawY cv)"
      using assms drawing by (auto simp: places_ok_def)
    then show ?thesis by (intro exI[of _ i] conjI drawn_from_later)
  qed
  moreover have "sorted (ns @ b @ ms)" "\<forall>i \<in> set b. i < length (frames @ new)"
    using assms by (auto simp: places_ok_def)
  ultimately show ?thesis unfolding places_ok_def by blast
qed

lemma OnPaint_places:
  assumes "places_ok lib frames cv ns b ms"
  shows "\<exists>ns. places_ok lib frames (OnPaint cv) ns b ms"
proof (cases "shouldDraw cv \<and> cv_bitmap cv \<noteq> None")
  case True
  then obtain p where p: "cv_bitmap cv = Some p" by blast
  then obtain i where i: "b = [i]" "drawn_from lib frames i (p, drawX cv, drawY cv)"
    using assms True by (auto simp: places_ok_def)
  then have "places_ok lib frames (OnPaint cv) (ns @ [i]) b ms"
    using assms True p by (auto simp: places_ok_def OnPaint_def sorted_append list_all2_appendI)
  then show ?thesis by blast
next
  case False
  then have "places_ok lib frames (OnPaint cv) ns b ms"
    using assms by (auto simp: places_ok_def OnPaint_def split: option.splits)
  then show ?thesis by blast
qed

lemma OnPaint_frame:
  "cv_scaler (OnPaint cv) = cv_scaler cv" "isRendering (OnPaint cv) = isRendering cv" "call_after (OnPaint cv) = call_after cv"
  "cv_bitmap (OnPaint cv) = cv_bitmap cv" "drawX (OnPaint cv) = drawX cv" "drawY (OnPaint cv) = drawY cv"
  "shouldDraw (OnPaint cv) = shouldDraw cv"
  by (simp_all add: OnPaint_def)

lemma OnPaint_inv: "canvas_inv lib frames cv \<Longrightarrow> canvas_inv lib frames (OnPaint cv)"
  using OnPaint_places unfolding canvas_inv_def OnPaint_frame by blast

lemma clear_inv:
  assumes "canvas_inv lib frames cv"
  shows "canvas_inv lib frames (canvas_clear cv)"
proof -
  have "canvas_inv lib frames (cv\<lparr>shouldDraw := False, isRendering := False\<rparr>)"
    using assms by (auto simp: canvas_inv_def places_ok_def)
  then show ?thesis unfolding canvas_clear_def by (rule OnPaint_inv)
qed

text \<open>A queued picture goes into the bitmap and onto the canvas.\<close>

lemma chunks_concat:
  "length bs = n * k \<Longrightarrow> concat (map (\<lambda>y. take k (drop (y * k) bs)) [0..<n]) = bs"
proof (induction n arbitrary: bs)
  case (Suc n)
  have "concat (map (\<lambda>y. take k (drop (y * k) bs)) [0..<n])
      = concat (map (\<lambda>y. take k (drop (y * k) (take (n * k) bs))) [0..<n])"
  proof (intro arg_cong[of _ _ concat] map_cong refl)
    fix y assume "y \<in> set [0..<n]"
    then have "(y + 1) * k \<le> n * k" by (intro mult_le_mono1) simp
    then show "take k (drop (y * k) bs) = take k (drop (y * k) (take (n * k) bs))"
      by (simp add: drop_take min_absorb1)
  qed
  also have "\<dots> = take (n * k) bs" using Suc.prems by (intro Suc.IH) simp
  finally show ?case using Suc.prems by simp
qed simp

lemma scaled_picture_facts:
  assumes "scaled_picture lib k fmt fr (bs, w, h)"
  shows "0 < w" "0 < h" "bs \<noteq> []" "concat (map (\<lambda>y. take (nat (w * 3)) (drop (y * nat (w * 3)) bs)) [0..<nat h]) = bs"
proof -
  show p: "0 < w" "0 < h" using assms by (auto simp: scaled_picture_def Let_def)
  have len: "length bs = nat (w * h * 3)" using assms by (auto simp: scaled_picture_def Let_def)
  then have "length bs = nat h * nat (w * 3)"
    using p by (simp add: ac_simps flip: nat_mult_distrib)
  then show "concat (map (\<lambda>y. take (nat (w * 3)) (drop (y * nat (w * 3)) bs)) [0..<nat h]) = bs"
    by (rule chunks_concat)
  have "0 < w * h * 3" using p by simp
  then show "bs \<noteq> []" using len by auto
qed

lemma Render_picture:
  assumes "scaled_picture lib k fmt fr (bs, w, h)"
  shows "Render wx (bs, w, h) cv = (let cv = sized_canvas wx w h cv in
     case cv_bitmap cv of
       None \<Rightarrow> cv
     | Some b \<Rightarrow> if \<not> raw_access wx (bm_depth b) then cv
         else OnPaint (cv\<lparr>cv_bitmap := Some (b\<lparr>bm_pixels := bs\<rparr>), shouldDraw := True\<rparr>))"
  unfolding Render_def Let_def using scaled_picture_facts[OF assms] by (simp split: option.splits)

lemma sized_canvas_facts:
  assumes "\<forall>p. cv_bitmap cv = Some p \<longrightarrow> centred p (drawX cv) (drawY cv)"
  shows "\<forall>p. cv_bitmap (sized_canvas wx w h cv) = Some p \<longrightarrow> bm_width p = w \<and> bm_height p = h
      \<and> centred p (drawX (sized_canvas wx w h cv)) (drawY (sized_canvas wx w h cv))
      \<and> (cv_bitmap cv = Some p \<and> drawX (sized_canvas wx w h cv) = drawX cv \<and> drawY (sized_canvas wx w h cv) = drawY cv
         \<or> bm_depth p = 24)"
    and "cv_scaler (sized_canvas wx w h cv) = cv_scaler cv" "painted (sized_canvas wx w h cv) = painted cv"
    "call_after (sized_canvas wx w h cv) = call_after cv" "shouldDraw (sized_canvas wx w h cv) = shouldDraw cv"
    "isRendering (sized_canvas wx w h cv) = isRendering cv"
  using assms by (auto simp: sized_canvas_def Create_bitmap_def centred_def split: option.splits)

lemma run_call_after_inv:
  assumes "canvas_inv lib frames cv" "lawful_bitmaps wx"
  shows "canvas_inv lib frames (run_call_after wx cv)"
proof (cases "call_after cv")
  case (Cons p rest)
  obtain bs w h where p: "p = (bs, w, h)" by (cases p) auto
  obtain ns b ms where o: "places_ok lib frames cv ns b ms" using assms(1) by (auto simp: canvas_inv_def)
  then obtain m ms' where m: "ms = m # ms'" "comes_from lib frames m p" "list_all2 (comes_from lib frames) ms' rest"
    using Cons by (auto simp: places_ok_def list_all2_Cons2)
  then have sp: "scaled_picture lib preview_kind BGR24 (frames ! m) (bs, w, h)"
    by (simp add: comes_from_def p)
  let ?cv = "cv\<lparr>call_after := rest\<rparr>"
  let ?sized = "sized_canvas wx w h ?cv"
  have ctr: "\<forall>p. cv_bitmap ?cv = Some p \<longrightarrow> centred p (drawX ?cv) (drawY ?cv)"
    using assms(1) by (simp add: canvas_inv_def)
  note sz = sized_canvas_facts[OF ctr, of wx w h]
  have base: "scaler_inv lib (cv_scaler cv)" "sc_kind (cv_scaler cv) = preview_kind" "sc_format (cv_scaler cv) = BGR24"
    using assms(1) by (simp_all add: canvas_inv_def)
  show ?thesis
  proof (cases "cv_bitmap ?sized")
    case None
    have "places_ok lib frames (?sized\<lparr>isRendering := False\<rparr>) ns [] ms'"
      using o m None sz by (auto simp: places_ok_def sorted_append)
    then show ?thesis
      using Cons p base sz None by (auto simp: run_call_after_def Render_picture[OF sp] canvas_inv_def Let_def)
  next
    case (Some q)
    note q = sz(1)[rule_format, OF Some]
    show ?thesis
    proof (cases "raw_access wx (bm_depth q)")
      case True
      let ?drawn = "?sized\<lparr>cv_bitmap := Some (q\<lparr>bm_pixels := bs\<rparr>), shouldDraw := True, isRendering := False\<rparr>"
      have "drawn_from lib frames m (q\<lparr>bm_pixels := bs\<rparr>, drawX ?drawn, drawY ?drawn)"
        using m(2) q by (simp add: drawn_from_def bitmap_picture_def p centred_def)
      then have "places_ok lib frames ?drawn ns [m] ms'"
        using o m sz by (auto simp: places_ok_def sorted_append comes_from_def)
      then have "canvas_inv lib frames ?drawn"
        using base sz q by (auto simp: canvas_inv_def centred_def)
      then have "canvas_inv lib frames (OnPaint ?drawn)" by (rule OnPaint_inv)
      moreover have "run_call_after wx cv = OnPaint ?drawn"
        using Cons p Some True by (simp add: run_call_after_def Render_picture[OF sp] Let_def OnPaint_def)
      ultimately show ?thesis by simp
    next
      case False
      then have same: "cv_bitmap cv = Some q" "drawX ?sized = drawX cv" "drawY ?sized = drawY cv"
        using q assms(2) by (auto simp: lawful_bitmaps_def)
      have "places_ok lib frames (?sized\<lparr>isRendering := False\<rparr>) ns b ms'"
        using o m sz Some same by (auto simp: places_ok_def sorted_append)
      then show ?thesis
        using Cons p base sz q Some False
        by (auto simp: run_call_after_def Render_picture[OF sp] canvas_inv_def Let_def)
    qed
  qed
qed (use assms in \<open>simp add: run_call_after_def\<close>)

text \<open>A frame goes to the end of the queue.\<close>

lemma canvas_inv_later: "canvas_inv lib frames cv \<Longrightarrow> canvas_inv lib (frames @ new) cv"
  using places_later unfolding canvas_inv_def by blast

lemma list_all2_bound: "list_all2 P is xs \<Longrightarrow> (\<And>i x. P i x \<Longrightarrow> i < n) \<Longrightarrow> \<forall>i \<in> set is. i < (n :: nat)"
  by (induction rule: list_all2_induct) auto

lemma ProcessRawFrameAsync_inv:
  assumes "canvas_inv lib frames cv" "lawful_swscale lib" "usable_frame preview_kind (Some fr)"
  shows "canvas_inv lib (frames @ [fr]) (ProcessRawFrameAsync lib room fr cv)"
proof -
  note later = canvas_inv_later[OF assms(1), of "[fr]"]
  obtain shown sc where p: "Process lib (Some fr) (cv_scaler cv) = (shown, sc)" by fastforce
  have base: "scaler_inv lib (cv_scaler cv)" "sc_kind (cv_scaler cv) = preview_kind" "sc_format (cv_scaler cv) = BGR24"
    using assms(1) by (simp_all add: canvas_inv_def)
  have sc: "scaler_inv lib sc \<and> sc_kind sc = preview_kind \<and> sc_format sc = BGR24"
    using Process_inv[OF base(1) _ _ assms(2) p] assms(3) base by (simp add: three_bytes_def)
  have dropped: "canvas_inv lib (frames @ [fr]) (cv\<lparr>cv_scaler := sc\<rparr>)"
    using later sc by (simp add: canvas_inv_def places_ok_def)
  show ?thesis
  proof (cases "\<exists>w h. shown = Some (w, h) \<and> \<not> w \<le> 0 \<and> \<not> h \<le> 0 \<and> room \<and> \<not> isRendering cv")
    case False
    then have "ProcessRawFrameAsync lib room fr cv \<in> {cv, cv\<lparr>cv_scaler := sc\<rparr>}"
      using p by (auto simp: ProcessRawFrameAsync_def split: option.splits)
    then show ?thesis using later dropped by auto
  next
    case True
    then obtain w h where w: "shown = Some (w, h)" "\<not> w \<le> 0" "\<not> h \<le> 0" "room" "\<not> isRendering cv" by blast
    let ?p = "(take (nat (w * h * 3)) (pixels sc), w, h)"
    let ?cv = "cv\<lparr>cv_scaler := sc, isRendering := True, call_after := call_after cv @ [?p]\<rparr>"
    have r: "ProcessRawFrameAsync lib room fr cv = ?cv"
      using p w by (simp add: ProcessRawFrameAsync_def)
    have "\<not> hasPadding (frame_dims preview_kind fr)"
      by (simp add: frame_dims_def preview_kind_def CalculateTargetDimensions_def split: prod.splits)
    then have "scaled_picture lib preview_kind BGR24 fr ?p"
      using delivered_picture[OF assms(2) _ assms(3) base(1,2,3) _ p[unfolded w(1)] w(2,3)] by (simp add: three_bytes_def)
    then have new: "comes_from lib (frames @ [fr]) (length frames) ?p" by (simp add: comes_from_def)
    obtain ns b ms where o: "places_ok lib frames cv ns b ms" using assms(1) by (auto simp: canvas_inv_def)
    have "\<forall>i \<in> set ns. i < length frames"
      by (rule list_all2_bound[of "drawn_from lib frames" _ "pictures (painted cv)"])
        (use o in \<open>auto simp: places_ok_def drawn_from_def comes_from_def\<close>)
    moreover have "\<forall>i \<in> set ms. i < length frames"
      by (rule list_all2_bound[of "comes_from lib frames" _ "call_after cv"])
        (use o in \<open>auto simp: places_ok_def comes_from_def\<close>)
    ultimately have "places_ok lib (frames @ [fr]) ?cv ns b (ms @ [length frames])"
      using places_later[OF o, of "[fr]"] o new
      by (auto simp: places_ok_def sorted_append list_all2_appendI less_imp_le)
    then show ?thesis unfolding r using sc later by (auto simp: canvas_inv_def)
  qed
qed

section \<open>The camera and the snapshots\<close>

definition camera_picture :: "'d swscale \<Rightarrow> int \<Rightarrow> int \<Rightarrow> 'd av_frame \<Rightarrow> bytes \<Rightarrow> bool" where
  "camera_picture lib W H fr buf \<longleftrightarrow>
     (let d = CalculateTargetDimensions (Direct_show W H) (fr_width fr) (fr_height fr);
          key = (fr_width fr, fr_height fr, fr_format fr, dim_width d, dim_height d, BGR24);
          rows = snd (sws_scale lib key (fr_data fr))
      in nat H * nat (W * 3) \<le> length buf
         \<and> (\<forall>y < nat H. \<forall>x < nat (W * 3). buf ! (y * nat (W * 3) + x) =
              (if in_picture d y x then rows ! (y - nat (yOffset d)) ! (x - nat (xOffset d * 3)) else 0)))"

definition camera_inv :: "'d swscale \<Rightarrow> int \<Rightarrow> int \<Rightarrow> 'd av_frame list \<Rightarrow> direct_show \<Rightarrow> bool" where
  "camera_inv lib W H frames ds \<longleftrightarrow> scaler_inv lib (ds_scaler ds)
     \<and> sc_kind (ds_scaler ds) = Direct_show W H \<and> sc_format (ds_scaler ds) = BGR24
     \<and> (\<exists>fs. subseq fs frames \<and> list_all2 (camera_picture lib W H) fs (camera_frames ds))"

definition snapshots_inv :: "'d swscale \<Rightarrow> 'd av_frame list \<Rightarrow> snapshots \<Rightarrow> bool" where
  "snapshots_inv lib frames sn \<longleftrightarrow> scaler_inv lib (sn_scaler sn)
     \<and> sc_kind (sn_scaler sn) = One_to_one \<and> sc_format (sn_scaler sn) = RGB24
     \<and> (\<exists>fs. subseq fs frames \<and> list_all2 (scaled_picture lib One_to_one RGB24) fs (saved sn))"

lemma passed_on:
  "\<exists>fs. subseq fs frames \<and> list_all2 P fs xs \<Longrightarrow> \<exists>fs. subseq fs (frames @ [fr]) \<and> list_all2 P fs xs"
  "\<exists>fs. subseq fs frames \<and> list_all2 P fs xs \<Longrightarrow> P fr x \<Longrightarrow>
     \<exists>fs. subseq fs (frames @ [fr]) \<and> list_all2 P fs (xs @ [x])"
  by (blast intro: subseq_order.trans[OF _ subseq_rev_drop_many])
    (metis list_all2_appendI list_all2_Cons list_all2_Nil list_emb_append_mono subseq_order.refl)

lemma sent_picture:
  assumes "lawful_swscale lib" "scaler_inv lib sc" "sc_kind sc = Direct_show W H" "sc_format sc = BGR24"
    and "usable_frame (Direct_show W H) (Some fr)" "Process lib (Some fr) sc = (Some (w, h), sc')"
  shows "w = W \<and> h = H \<and> camera_picture lib W H fr (pixels sc')"
proof -
  note d = Process_shows[of lib sc fr, unfolded assms(3,4), OF assms(1) _ assms(5,2,6), unfolded three_bytes_def, simplified]
  have c: "containerWidth (frame_dims (Direct_show W H) fr) = W" "containerHeight (frame_dims (Direct_show W H) fr) = H"
    by (simp_all add: frame_dims_def CalculateTargetDimensions_def split: prod.splits)
  then have size: "w = W" "h = H" using d(1) by simp_all
  show ?thesis
    using d(2,4) c(1) unfolding size by (simp add: camera_picture_def Let_def frame_dims_def frame_key_def byte_at_def)
qed

lemma SendRawFrame_inv:
  assumes "camera_inv lib W H frames ds" "lawful_swscale lib" "usable_frame (Direct_show W H) (Some fr)"
  shows "camera_inv lib W H (frames @ [fr]) (SendRawFrame lib fr ds)"
proof -
  obtain shown sc where p: "Process lib (Some fr) (ds_scaler ds) = (shown, sc)" by fastforce
  have base: "scaler_inv lib (ds_scaler ds)" "sc_kind (ds_scaler ds) = Direct_show W H" "sc_format (ds_scaler ds) = BGR24"
    and sent: "\<exists>fs. subseq fs frames \<and> list_all2 (camera_picture lib W H) fs (camera_frames ds)"
    using assms(1) by (simp_all add: camera_inv_def)
  have three: "three_bytes BGR24" by (simp add: three_bytes_def)
  have sc: "scaler_inv lib sc \<and> sc_kind sc = Direct_show W H \<and> sc_format sc = BGR24"
    using Process_inv[OF base(1) _ _ assms(2) p] assms(3) base three by simp
  show ?thesis
  proof (cases "\<exists>w h. shown = Some (w, h) \<and> \<not> w \<le> 0 \<and> \<not> h \<le> 0 \<and> streamingEnabled ds")
    case False
    then have "SendRawFrame lib fr ds \<in> {ds, ds\<lparr>ds_scaler := sc\<rparr>}"
      using p by (auto simp: SendRawFrame_def split: option.splits)
    then show ?thesis using sc base passed_on(1)[OF sent] by (auto simp: camera_inv_def)
  next
    case True
    then obtain w h where w: "shown = Some (w, h)" "\<not> w \<le> 0" "\<not> h \<le> 0" "streamingEnabled ds" by blast
    have r: "SendRawFrame lib fr ds = ds\<lparr>ds_scaler := sc, camera_frames := camera_frames ds @ [pixels sc]\<rparr>"
      using p w by (simp add: SendRawFrame_def)
    have "camera_picture lib W H fr (pixels sc)"
      using sent_picture[OF assms(2) base assms(3) p[unfolded w(1)]] by simp
    then show ?thesis unfolding r using sc passed_on(2)[OF sent] by (simp add: camera_inv_def)
  qed
qed

lemma ProcessFrame_inv:
  assumes "snapshots_inv lib frames sn" "lawful_swscale lib" "usable_frame One_to_one (Some fr)"
  shows "snapshots_inv lib (frames @ [fr]) (ProcessFrame lib fr sn)"
proof -
  obtain shown sc where p: "Process lib (Some fr) (sn_scaler sn) = (shown, sc)" by fastforce
  have base: "scaler_inv lib (sn_scaler sn)" "sc_kind (sn_scaler sn) = One_to_one" "sc_format (sn_scaler sn) = RGB24"
    and kept: "\<exists>fs. subseq fs frames \<and> list_all2 (scaled_picture lib One_to_one RGB24) fs (saved sn)"
    using assms(1) by (simp_all add: snapshots_inv_def)
  have three: "three_bytes RGB24" by (simp add: three_bytes_def)
  have sc: "scaler_inv lib sc \<and> sc_kind sc = One_to_one \<and> sc_format sc = RGB24"
    using Process_inv[OF base(1) _ _ assms(2) p] assms(3) base three by simp
  show ?thesis
  proof (cases "\<exists>w h. shown = Some (w, h) \<and> \<not> w \<le> 0 \<and> \<not> h \<le> 0 \<and> snapshotRequested sn")
    case False
    then have "ProcessFrame lib fr sn \<in> {sn, sn\<lparr>sn_scaler := sc, snapshotRequested := False\<rparr>}"
      using p by (auto simp: ProcessFrame_def split: option.splits)
    then show ?thesis using sc base passed_on(1)[OF kept] by (auto simp: snapshots_inv_def)
  next
    case True
    then obtain w h where w: "shown = Some (w, h)" "\<not> w \<le> 0" "\<not> h \<le> 0" "snapshotRequested sn" by blast
    let ?p = "(take (nat (w * h * 3)) (pixels sc), w, h)"
    have r: "ProcessFrame lib fr sn = sn\<lparr>sn_scaler := sc, snapshotRequested := False, saved := saved sn @ [?p]\<rparr>"
      using p w by (simp add: ProcessFrame_def)
    have "\<not> hasPadding (frame_dims One_to_one fr)"
      by (simp add: frame_dims_def CalculateTargetDimensions_def)
    then have "scaled_picture lib One_to_one RGB24 fr ?p"
      using delivered_picture[OF assms(2) three assms(3) base(1,2,3) _ p[unfolded w(1)] w(2,3)] by blast
    then show ?thesis unfolding r using sc passed_on(2)[OF kept] by (simp add: snapshots_inv_def)
  qed
qed

section \<open>Runs\<close>

definition usable_everywhere :: "int \<Rightarrow> int \<Rightarrow> 'd av_frame \<Rightarrow> bool" where
  "usable_everywhere W H fr \<longleftrightarrow> usable_frame preview_kind (Some fr)
     \<and> usable_frame (Direct_show W H) (Some fr) \<and> usable_frame One_to_one (Some fr)"

definition outputs_inv :: "'d swscale \<Rightarrow> int \<Rightarrow> int \<Rightarrow> 'd av_frame list \<Rightarrow> outputs \<Rightarrow> bool" where
  "outputs_inv lib W H frames out \<longleftrightarrow> canvas_inv lib frames (preview out)
     \<and> camera_inv lib W H frames (virtual_camera out) \<and> snapshots_inv lib frames (photo out)"

lemma new_outputs_inv: "outputs_inv lib W H [] (new_outputs bm W H)"
proof -
  have "places_ok lib [] (new_canvas bm) [] [] []"
    by (simp add: places_ok_def new_canvas_def)
  then have "canvas_inv lib [] (new_canvas bm)"
    unfolding canvas_inv_def
    by (auto simp: new_canvas_def new_scaler_def scaler_inv_def preview_kind_def centred_def c_half_def)
  then show ?thesis
    by (simp add: outputs_inv_def new_outputs_def camera_inv_def DirectShowSource_def snapshots_inv_def SnapshotManager_def
        new_scaler_def scaler_inv_def)
qed

lemma output_step_inv:
  assumes "outputs_inv lib W H frames out" "lawful_swscale lib" "lawful_bitmaps wx"
    and "\<forall>fr \<in> set (received_frames [ev]). usable_everywhere W H fr"
  shows "outputs_inv lib W H (frames @ received_frames [ev]) (output_step lib wx ev out)"
proof (cases ev)
  case (Frame fr room)
  have inv: "canvas_inv lib frames (preview out)" "camera_inv lib W H frames (virtual_camera out)"
      "snapshots_inv lib frames (photo out)"
    using assms(1) by (simp_all add: outputs_inv_def)
  have use: "usable_frame preview_kind (Some fr)" "usable_frame (Direct_show W H) (Some fr)" "usable_frame One_to_one (Some fr)"
    using assms(4) Frame by (simp_all add: usable_everywhere_def)
  show ?thesis
    using ProcessRawFrameAsync_inv[OF inv(1) assms(2) use(1), of room] SendRawFrame_inv[OF inv(2) assms(2) use(2)]
      ProcessFrame_inv[OF inv(3) assms(2) use(3)]
    by (simp add: outputs_inv_def OnFrameReceived_def Frame)
next
  case Window_idle
  then show ?thesis using assms(1) by (simp add: outputs_inv_def run_call_after_inv[OF _ assms(3)])
next
  case Repaint
  then show ?thesis using assms(1) by (simp add: outputs_inv_def OnPaint_inv)
next
  case Device_gone
  then show ?thesis using assms(1) by (simp add: outputs_inv_def clear_inv)
next
  case Clear_next
  then show ?thesis using assms
    by (simp add: outputs_inv_def ClearBeforeNextRender_def canvas_inv_def places_ok_def)
qed (use assms in \<open>simp_all add: outputs_inv_def RequestSnapshot_def snapshots_inv_def ds_pause_def ds_resume_def camera_inv_def\<close>)

lemma received_frames_Cons: "received_frames (ev # evs) = received_frames [ev] @ received_frames evs"
  by (cases ev) simp_all

lemma output_run_inv:
  assumes "lawful_swscale lib" "lawful_bitmaps wx"
  shows "outputs_inv lib W H frames out \<Longrightarrow> \<forall>fr \<in> set (received_frames evs). usable_everywhere W H fr \<Longrightarrow>
    outputs_inv lib W H (frames @ received_frames evs) (output_run lib wx evs out)"
proof (induction evs arbitrary: frames out)
  case (Cons ev evs)
  have "\<forall>fr \<in> set (received_frames [ev]). usable_everywhere W H fr" "\<forall>fr \<in> set (received_frames evs). usable_everywhere W H fr"
    using Cons.prems(2) received_frames_Cons[of ev evs] by auto
  then have "outputs_inv lib W H ((frames @ received_frames [ev]) @ received_frames evs) (output_run lib wx evs (output_step lib wx ev out))"
    using output_step_inv[OF Cons.prems(1) assms] by (intro Cons.IH) blast+
  then show ?case by (simp add: output_run_def received_frames_Cons[of ev evs])
qed (simp add: output_run_def)

text \<open>Without a device that goes, one picture at most is on its way.\<close>

definition one_queued :: "canvas \<Rightarrow> bool" where
  "one_queued cv \<longleftrightarrow> length (call_after cv) = (if isRendering cv then 1 else 0)"

lemma Render_frame: "call_after (Render wx p cv) = call_after cv"
  by (auto simp: Render_def Let_def sized_canvas_def OnPaint_def split: prod.splits option.splits)

lemma step_one_queued:
  assumes "one_queued (preview out)" "ev \<noteq> Device_gone"
  shows "one_queued (preview (output_step lib wx ev out))"
proof (cases ev)
  case (Frame fr room)
  then show ?thesis using assms
    by (auto simp: OnFrameReceived_def ProcessRawFrameAsync_def one_queued_def split: prod.splits option.splits)
next
  case Window_idle
  then show ?thesis using assms
    by (auto simp: run_call_after_def one_queued_def Render_frame split: list.splits if_splits)
qed (use assms in \<open>auto simp: one_queued_def OnPaint_frame ClearBeforeNextRender_def\<close>)

lemma run_one_queued:
  "one_queued (preview out) \<Longrightarrow> Device_gone \<notin> set evs \<Longrightarrow> one_queued (preview (output_run lib wx evs out))"
proof (induction evs arbitrary: out)
  case (Cons ev evs)
  then have "one_queued (preview (output_run lib wx evs (output_step lib wx ev out)))"
    by (intro Cons.IH step_one_queued) auto
  then show ?case by (simp add: output_run_def)
qed (simp add: output_run_def)

text \<open>Snapshots taken or waiting are at most the requests.\<close>

fun requests :: "'d output_event list \<Rightarrow> nat" where
  "requests [] = 0"
| "requests (Snapshot_button dev # evs) = (if dev < 0 then 0 else 1) + requests evs"
| "requests (_ # evs) = requests evs"

definition owed :: "snapshots \<Rightarrow> nat" where
  "owed sn = length (saved sn) + (if snapshotRequested sn then 1 else 0)"

lemma requests_Cons: "requests (ev # evs) = requests [ev] + requests evs"
  by (cases ev) simp_all

lemma step_owed: "owed (photo (output_step lib wx ev out)) \<le> owed (photo out) + requests [ev]"
  by (cases ev) (auto simp: owed_def OnFrameReceived_def ProcessFrame_def RequestSnapshot_def
      split: prod.splits option.splits)

lemma run_owed: "owed (photo (output_run lib wx evs out)) \<le> owed (photo out) + requests evs"
proof (induction evs arbitrary: out)
  case (Cons ev evs)
  have "owed (photo (output_run lib wx evs (output_step lib wx ev out)))
      \<le> owed (photo (output_step lib wx ev out)) + requests evs"
    by (rule Cons.IH)
  also have "\<dots> \<le> owed (photo out) + requests (ev # evs)"
    using step_owed[of lib wx ev out] requests_Cons[of ev evs] by simp
  finally show ?case by (simp add: output_run_def)
qed (simp add: output_run_def)

text \<open>
  A device that goes clears the canvas, but not the queue: a picture in it is drawn afterwards and
  stays.
\<close>

lemma cleared_preview_returns:
  assumes "scaled_picture lib k fmt fr (bs, w, h)" "call_after cv = [(bs, w, h)]" "lawful_bitmaps wx"
    and "\<And>w h. creates wx w h \<noteq> None" "cv_bitmap cv = None"
  shows "last (painted (canvas_clear cv)) = Black_rectangle"
    and "\<exists>b x y. last (painted (run_call_after wx (canvas_clear cv))) = Picture b x y \<and> bitmap_picture b = (bs, w, h)"
proof -
  show "last (painted (canvas_clear cv)) = Black_rectangle"
    by (simp add: canvas_clear_def OnPaint_def)
  obtain new where c: "creates wx w h = Some new" using assms(4)[of w h] by blast
  show "\<exists>b x y. last (painted (run_call_after wx (canvas_clear cv))) = Picture b x y \<and> bitmap_picture b = (bs, w, h)"
    using assms(2,3,5) c
    by (simp add: run_call_after_def canvas_clear_def OnPaint_def Render_picture[OF assms(1)] Let_def
        sized_canvas_def Create_bitmap_def lawful_bitmaps_def bitmap_picture_def)
qed

section \<open>Properties\<close>

text \<open>
  C34: The preview shows the frames in their order and never gets stuck: whatever frames arrive and
  however the thread of the window runs in between, every picture drawn on the canvas is the whole
  of one received frame, scaled by libswscale into 400 by 300 and centred there, the frames drawn
  never go back, a picture is on its way whenever the preview refuses frames, and as long as no
  device goes there is never more than one.
\<close>

theorem preview_in_order:
  fixes bm :: "(int \<times> bytes) option"
  assumes "lawful_swscale lib" "lawful_bitmaps wx" "\<forall>fr \<in> set (received_frames evs). usable_everywhere W H fr"
  defines "cv \<equiv> preview (output_run lib wx evs (new_outputs bm W H))"
  shows "(isRendering cv \<longrightarrow> call_after cv \<noteq> [])
    \<and> (Device_gone \<notin> set evs \<longrightarrow> length (call_after cv) = (if isRendering cv then 1 else 0))
    \<and> (\<exists>places. sorted places \<and> list_all2 (\<lambda>i (b, x, y). i < length (received_frames evs)
          \<and> scaled_picture lib (Gui_preview 400 300) BGR24 (received_frames evs ! i) (bm_pixels b, bm_width b, bm_height b)
          \<and> x = c_half (400 - bm_width b) \<and> y = c_half (300 - bm_height b)) places (pictures (painted cv)))"
proof -
  have "outputs_inv lib W H (received_frames evs) (output_run lib wx evs (new_outputs bm W H))"
    using output_run_inv[OF assms(1,2) new_outputs_inv assms(3), of bm] by simp
  then have inv: "canvas_inv lib (received_frames evs) cv" by (simp add: outputs_inv_def cv_def)
  then obtain ns b ms where o: "places_ok lib (received_frames evs) cv ns b ms" by (auto simp: canvas_inv_def)
  have "one_queued (preview (new_outputs bm W H))" by (simp add: one_queued_def new_outputs_def new_canvas_def)
  then have "Device_gone \<notin> set evs \<longrightarrow> one_queued cv" using run_one_queued unfolding cv_def by blast
  moreover have "list_all2 (\<lambda>i (b, x, y). i < length (received_frames evs)
          \<and> scaled_picture lib (Gui_preview 400 300) BGR24 (received_frames evs ! i) (bm_pixels b, bm_width b, bm_height b)
          \<and> x = c_half (400 - bm_width b) \<and> y = c_half (300 - bm_height b)) ns (pictures (painted cv))"
    using o by (auto simp: places_ok_def drawn_from_def comes_from_def centred_def bitmap_picture_def preview_kind_def
        CANVAS_WIDTH_def CANVAS_HEIGHT_def elim!: list_all2_mono)
  moreover have "sorted ns" using o by (simp add: places_ok_def sorted_append)
  ultimately show ?thesis using inv by (auto simp: one_queued_def canvas_inv_def)
qed

definition demo_bitmaps :: bitmap_library where
  "demo_bitmaps = \<lparr>creates = (\<lambda>w h. Some (replicate (nat (w * h * 3)) 0)), raw_access = (\<lambda>depth. depth = 24)\<rparr>"

lemma white_lawful: "lawful_swscale white_swscale"
  by (auto simp: lawful_swscale_def white_swscale_def split: if_splits)

lemma demo_bitmaps_lawful: "lawful_bitmaps demo_bitmaps"
  by (simp add: lawful_bitmaps_def demo_bitmaps_def)

lemma small_usable: "usable_everywhere 4 2 small_frame"
  by (simp add: usable_everywhere_def usable_frame_def small_frame_def preview_kind_def kind_ok_def box_size_def
      frame_size_def CANVAS_WIDTH_def CANVAS_HEIGHT_def)

lemma preview_dims:
  "CalculateTargetDimensions preview_kind 2 2 = \<lparr>dim_width = 300, dim_height = 300, containerWidth = 300,
     containerHeight = 300, xOffset = 0, yOffset = 0, hasPadding = False\<rparr>"
proof -
  have "rounded 53 1 = 1" "rounded 53 300 = 300"
    using rounded_int[of 1 53] rounded_int[of 300 53] by simp_all
  then have "fit 400 300 2 2 = (300, 300)"
    using rounded_ratio_4_3 by (simp add: fit_def Let_def as_double_int box_size_def as_int_def)
  then show ?thesis by (simp add: CalculateTargetDimensions_def preview_kind_def CANVAS_WIDTH_def CANVAS_HEIGHT_def)
qed

lemma preview_in_order_witness:
  "isRendering (preview (output_run white_swscale demo_bitmaps [Frame small_frame True] (new_outputs None 4 2)))
   \<and> length (call_after (preview (output_run white_swscale demo_bitmaps [Frame small_frame True] (new_outputs None 4 2)))) = 1"
proof -
  let ?cv = "preview (output_run white_swscale demo_bitmaps [Frame small_frame True] (new_outputs None 4 2))"
  obtain sc where "Process white_swscale (Some small_frame) (cv_scaler (new_canvas None)) = (Some (300, 300), sc)"
    by (simp add: Process_def small_frame_def PrepareContext_def new_canvas_def new_scaler_def Let_def
        preview_dims[unfolded preview_kind_def] white_swscale_def three_bytes_def)
  then have r: "isRendering ?cv"
    by (simp add: output_run_def OnFrameReceived_def ProcessRawFrameAsync_def new_outputs_def)
  have "\<forall>fr \<in> set (received_frames [Frame small_frame True]). usable_everywhere 4 2 fr" by (simp add: small_usable)
  from preview_in_order[OF white_lawful demo_bitmaps_lawful this, where bm = None] r show ?thesis by auto
qed

text \<open>
  C35: The virtual camera and the snapshots get nothing but frames: every buffer the camera gets
  holds a full frame of its size with one received picture centred on black, in the order of
  reception and each at most once; every snapshot is one received frame in its full size; and there
  are never more snapshots than clicks on the button while a device is selected.
\<close>

theorem outputs_are_frames:
  fixes bm :: "(int \<times> bytes) option"
  assumes "lawful_swscale lib" "lawful_bitmaps wx" "\<forall>fr \<in> set (received_frames evs). usable_everywhere W H fr"
  defines "out \<equiv> output_run lib wx evs (new_outputs bm W H)"
  shows "(\<exists>fs. subseq fs (received_frames evs) \<and> list_all2 (camera_picture lib W H) fs (camera_frames (virtual_camera out)))
    \<and> (\<exists>fs. subseq fs (received_frames evs) \<and> list_all2 (scaled_picture lib One_to_one RGB24) fs (saved (photo out)))
    \<and> length (saved (photo out)) \<le> requests evs"
proof -
  have "outputs_inv lib W H (received_frames evs) out"
    using output_run_inv[OF assms(1,2) new_outputs_inv assms(3), of bm] by (simp add: out_def)
  moreover have "length (saved (photo out)) \<le> requests evs"
    using run_owed[of lib wx evs "new_outputs bm W H"]
    by (simp add: out_def owed_def new_outputs_def SnapshotManager_def split: if_splits)
  ultimately show ?thesis by (simp add: outputs_inv_def camera_inv_def snapshots_inv_def)
qed

lemma outputs_are_frames_witness:
  "\<exists>p. saved (photo (output_run white_swscale demo_bitmaps [Snapshot_button 0, Frame small_frame True, Frame small_frame True]
       (new_outputs None 4 2))) = [p] \<and> scaled_picture white_swscale One_to_one RGB24 small_frame p"
proof -
  let ?evs = "[Snapshot_button 0, Frame small_frame True, Frame small_frame True]"
  let ?sn = "photo (output_run white_swscale demo_bitmaps ?evs (new_outputs None 4 2))"
  have use: "\<forall>fr \<in> set (received_frames ?evs). usable_everywhere 4 2 fr" by (simp add: small_usable)
  note f = outputs_are_frames[OF white_lawful demo_bitmaps_lawful use, where bm = None]
  obtain p where p: "saved ?sn = [p]"
    by (simp add: output_run_def OnFrameReceived_def ProcessFrame_def new_outputs_def SnapshotManager_def RequestSnapshot_def
        Process_def small_frame_def PrepareContext_def new_scaler_def Let_def CalculateTargetDimensions_def
        white_swscale_def three_bytes_def)
  obtain fs where "subseq fs [small_frame, small_frame]" "list_all2 (scaled_picture white_swscale One_to_one RGB24) fs [p]"
    using f p by auto
  then show ?thesis using p by (auto simp: list_all2_Cons2 dest: list_emb_set)
qed

end
