(* ===== verification/Windows_Video.thy ===== *)
theory Windows_Video
  imports Windows_Receiver Windows_Outputs
begin

text \<open>
  The way of the video through the Windows client: what the receiver (\<open>rtsp/receiver.cpp\<close>) passes on
  is what the frame callback of \<open>application.cpp\<close> gets, and with a libswscale that does not fail
  every frame reaches the virtual camera, and the preview as soon as it is free.
\<close>

section \<open>A libswscale that does not fail\<close>







section \<open>The virtual camera gets every frame\<close>




section \<open>The preview shows a frame as soon as it is free\<close>









section \<open>Properties\<close>










end
