(* ===== verification/Windows_Connection.thy ===== *)
theory Windows_Connection
  imports Windows_Serializer
begin

text \<open>
  A connection of the Windows client, \<open>windows/src/net/connection.cpp\<close>: the handler of
  \<open>async_read_some\<close>, which collects bytes until they hold error reports and passes these on, and
  \<open>Send\<close> and \<open>Close\<close>. What a read completes with, and whether the listener throws, are
  arguments; the calls of the two listeners are recorded in the state.
\<close>

section \<open>State\<close>

record connection =
  pendingBytes :: bytes
  closed :: bool
  reading :: bool
  reported :: "ErrorReport list"
  disconnections :: nat
  sent_bytes :: bytes
  logged :: "string list"

definition new_connection :: connection where
  "new_connection = \<lparr>pendingBytes = [], closed = False, reading = False, reported = [],
     disconnections = 0, sent_bytes = [], logged = []\<rparr>"

text \<open>\<open>BUFFER_SIZE\<close> is the size of \<open>byteBuffer\<close>; one read brings at most as much.\<close>

definition BUFFER_SIZE :: nat where "BUFFER_SIZE = 512"

datatype completion = Read_failed | Received bytes

section \<open>Operations\<close>

definition Close :: "bool \<Rightarrow> connection \<Rightarrow> connection" where
  "Close stoppedByServer c =
     (if closed c then c
      else
        let c = c\<lparr>closed := True\<rparr>
        in if \<not> stoppedByServer then c\<lparr>disconnections := disconnections c + 1\<rparr> else c)"

definition log_line :: "string \<Rightarrow> connection \<Rightarrow> connection" where
  "log_line l c = c\<lparr>logged := logged c @ [l]\<rparr>"

definition Read :: "connection \<Rightarrow> connection" where
  "Read c = c\<lparr>reading := True\<rparr>"

text \<open>
  The loop over the pending bytes; the flag tells whether it ended without an exception other
  than \<open>IncompleteMessage\<close>.
\<close>

function parse_reports :: "(ErrorReport \<Rightarrow> bool) \<Rightarrow> connection \<Rightarrow> connection \<times> bool" where
  "parse_reports raises c =
     (if pendingBytes c = [] then (c, True)
      else case DeserializeErrorReport (pendingBytes c) of
          Inl IncompleteMessage \<Rightarrow> (c, True)
        | Inl _ \<Rightarrow> (c, False)
        | Inr (report, consumed) \<Rightarrow>
            if consumed = 0 \<or> consumed > length (pendingBytes c) then (c, False)
            else
              let c = c\<lparr>reported := reported c @ [report]\<rparr>
              in if raises report then (c, False)
                 else parse_reports raises (c\<lparr>pendingBytes := drop consumed (pendingBytes c)\<rparr>))"
  by pat_completeness auto
termination by (relation "measure (\<lambda>(_, c). length (pendingBytes c))") auto

definition on_read :: "(ErrorReport \<Rightarrow> bool) \<Rightarrow> completion \<Rightarrow> connection \<Rightarrow> connection" where
  "on_read raises ev c =
     (let c = c\<lparr>reading := False\<rparr>
      in case ev of
          Read_failed \<Rightarrow> Close False c
        | Received bs \<Rightarrow>
            if length (pendingBytes c) + length bs > 4096
            then Close False (log_line ''[CONNECTION] Rejected oversized error report.'' c)
            else case parse_reports raises (c\<lparr>pendingBytes := pendingBytes c @ bs\<rparr>) of
                (c, True) \<Rightarrow> Read c
              | (c, False) \<Rightarrow> Close False (log_line ''[CONNECTION] Rejected malformed error report.'' c))"

text \<open>
  \<open>Send\<close>: a message above the limit is an exception; \<open>socket.send\<close> writes at least one byte of a
  message or fails, and how many it wrote is not looked at.
\<close>

datatype send_error = Message_too_large | Send_failed

definition Send :: "nat option \<Rightarrow> bytes \<Rightarrow> connection \<Rightarrow> send_error + connection" where
  "Send written bs c =
     (if length bs > 64 * 1024 then Inl Message_too_large
      else case written of
          None \<Rightarrow> Inl Send_failed
        | Some n \<Rightarrow> Inr (c\<lparr>sent_bytes := sent_bytes c @ take n bs\<rparr>))"

text \<open>A run of the reading side: a completion is handled while a read is outstanding.\<close>

fun run_reads :: "(ErrorReport \<Rightarrow> bool) \<Rightarrow> completion list \<Rightarrow> connection \<Rightarrow> connection" where
  "run_reads raises [] c = c"
| "run_reads raises (ev # evs) c =
     (if reading c then run_reads raises evs (on_read raises ev c) else c)"

section \<open>Reports in a byte stream\<close>

declare parse_reports.simps [simp del]

abbreviation listening :: "ErrorReport \<Rightarrow> bool" where "listening \<equiv> \<lambda>_. False"

definition putReports :: "ErrorReport list \<Rightarrow> bytes" where
  "putReports rs = concat (map putReport rs)"

lemma putReport_nonempty: "0 < length (putReport r)"
  by (simp add: putReport_def)

lemma length_putReport: "report_ok r \<Longrightarrow> length (putReport r) \<le> 3077"
  by (simp add: report_ok_def putReport_def putString_def limited_string_def)

lemma report_read:
  assumes "report_ok r" "length (putReport r @ rest) \<le> 65536"
  shows "DeserializeErrorReport (putReport r @ rest) = Inr (r, length (putReport r))"
  using assms report.get_put[of r "[]" rest]
  by (simp add: DeserializeErrorReport_def MAX_MESSAGE_def del: length_append)

lemma report_sound:
  assumes "DeserializeErrorReport data = Inr (r, n)"
  shows "report_ok r \<and> n = length (putReport r) \<and> n \<le> length data \<and> data = putReport r @ drop n data"
proof -
  have "read_report data 0 = Inr (r, n)" 
    using assms by (simp add: DeserializeErrorReport_def split: if_splits)
  from report.get_sound[OF _ this] have g: "report_ok r" "n \<le> length data" "take n data = putReport r" by simp_all
  then have "n = length (putReport r)" by (metis length_take min.absorb2)
  with g show ?thesis by (metis append_take_drop_id)
qed

text \<open>What the loop did: the reports it passed on stood at the front of the pending bytes.\<close>

lemma parse_reports_frame:
  "parse_reports listening c = (c', ok) \<Longrightarrow>
     (\<exists>rs. reported c' = reported c @ rs \<and> list_all report_ok rs
        \<and> pendingBytes c = putReports rs @ pendingBytes c')
   \<and> closed c' = closed c \<and> reading c' = reading c \<and> disconnections c' = disconnections c
   \<and> sent_bytes c' = sent_bytes c \<and> logged c' = logged c"
proof (induction "listening" c arbitrary: c' ok rule: parse_reports.induct)
  case (1 c)
  show ?case
  proof (cases "\<exists>r n. pendingBytes c \<noteq> [] \<and> DeserializeErrorReport (pendingBytes c) = Inr (r, n)")
    case True
    then obtain r n where ne: "pendingBytes c \<noteq> []" and d: "DeserializeErrorReport (pendingBytes c) = Inr (r, n)"
      by blast
    note s = report_sound[OF d]
    have n: "n \<noteq> 0" "\<not> n > length (pendingBytes c)" using s putReport_nonempty[of r] by auto
    let ?c = "c\<lparr>reported := reported c @ [r], pendingBytes := drop n (pendingBytes c)\<rparr>"
    have "parse_reports listening ?c = (c', ok)"
      using 1(2) ne d n by (subst (asm) parse_reports.simps) simp
    then have "(\<exists>rs. reported c' = reported ?c @ rs \<and> list_all report_ok rs
        \<and> pendingBytes ?c = putReports rs @ pendingBytes c')
      \<and> closed c' = closed ?c \<and> reading c' = reading ?c \<and> disconnections c' = disconnections ?c
      \<and> sent_bytes c' = sent_bytes ?c \<and> logged c' = logged ?c"
      using 1(1)[OF ne d refl, of "c\<lparr>reported := reported c @ [r]\<rparr>"] n by simp
    then obtain rs where rs: "reported c' = reported c @ r # rs" "list_all report_ok rs"
        "drop n (pendingBytes c) = putReports rs @ pendingBytes c'"
      and same: "closed c' = closed c" "reading c' = reading c" "disconnections c' = disconnections c"
        "sent_bytes c' = sent_bytes c" "logged c' = logged c" by auto
    have "pendingBytes c = putReports (r # rs) @ pendingBytes c'"
      using s rs(3) by (simp add: putReports_def)
    with rs s same show ?thesis by (intro conjI exI[of _ "r # rs"]) simp_all
  next
    case False
    then have "c' = c"
      using 1(2) by (subst (asm) parse_reports.simps)
        (auto split: if_splits sum.splits serializer_error.splits)
    then show ?thesis by (simp add: putReports_def)
  qed
qed

text \<open>
  Bytes are \<open>waiting\<close> while they may still become a report, \<open>doomed\<close> once they cannot any more.
  An unfinished report has less than 3077 bytes, so no read makes the pending bytes exceed the
  limit of 4096.
\<close>

definition waiting :: "bytes \<Rightarrow> bool" where
  "waiting bs \<longleftrightarrow> bs = [] \<or> read_report bs 0 = Inl IncompleteMessage"

definition doomed :: "bytes \<Rightarrow> bool" where
  "doomed bs \<longleftrightarrow> (\<exists>e. read_report bs 0 = Inl e \<and> e \<noteq> IncompleteMessage)"

lemma read_string_incomplete:
  assumes "read_string limit data off = Inl IncompleteMessage" "off \<le> length data"
  shows "length data < off + 2 + limit"
  using assms
  by (auto simp: read_string_body followed_by_def u16_alt Let_def split: if_splits)

lemma read_string_end:
  assumes "read_string limit data off = Inr (s, off')" 
  shows "off' \<le> off + 2 + limit" "off' \<le> length data"
  using assms
  by (auto simp: read_string_body followed_by_def u16_alt Let_def split: if_splits)

lemma waiting_short:
  assumes "waiting bs"
  shows "length bs < 3077"
proof (cases "bs = []")
  case False
  with assms have r: "read_report bs 0 = Inl IncompleteMessage" by (simp add: waiting_def)
  have one: "1 \<le> length bs" using False by (simp add: Suc_leI)
  show ?thesis
  proof (cases "read_string 1024 bs 1")
    case (Inl e)
    then have "e = IncompleteMessage"
      using r one by (auto simp: read_report_def followed_by_def u8_alt throw_def split: if_splits)
    with Inl one read_string_incomplete show ?thesis by fastforce
  next
    case (Inr p)
    obtain s o1 where p: "p = (s, o1)" by (cases p)
    note o1 = read_string_end[OF Inr[unfolded p]]
    have "read_string 2048 bs o1 = Inl IncompleteMessage"
      using r one Inr p
      by (auto simp: read_report_def followed_by_def u8_alt throw_def return_def split: if_splits sum.splits)
    from read_string_incomplete[OF this o1(2)] o1 show ?thesis by simp
  qed
qed simp

lemma not_report:
  assumes "waiting bs \<or> doomed bs" "report_ok r"
  shows "bs \<noteq> putReport r @ extra"
proof
  assume bs: "bs = putReport r @ extra"
  then have "bs \<noteq> []" using putReport_nonempty[of r] by auto
  moreover have "read_report bs 0 = Inr (r, length (putReport r))"
    using report.get_put[OF assms(2), of "[]" extra] bs by simp
  ultimately show False using assms(1) by (auto simp: waiting_def doomed_def)
qed

lemma doomed_extends: "doomed bs \<Longrightarrow> doomed (bs @ extra)"
  using report.extend[of 0 bs extra] by (auto simp: doomed_def)

lemma parse_reports_end:
  "parse_reports listening c = (c', ok) \<Longrightarrow> length (pendingBytes c) \<le> 65536 \<Longrightarrow>
     if ok then waiting (pendingBytes c') else doomed (pendingBytes c')"
proof (induction "listening" c arbitrary: c' ok rule: parse_reports.induct)
  case (1 c)
  have d: "DeserializeErrorReport (pendingBytes c) = read_report (pendingBytes c) 0"
    using 1(3) by (simp add: DeserializeErrorReport_def MAX_MESSAGE_def)
  show ?case
  proof (cases "\<exists>r n. pendingBytes c \<noteq> [] \<and> DeserializeErrorReport (pendingBytes c) = Inr (r, n)")
    case True
    then obtain r n where ne: "pendingBytes c \<noteq> []" and r: "DeserializeErrorReport (pendingBytes c) = Inr (r, n)"
      by blast
    have n: "n \<noteq> 0" "\<not> n > length (pendingBytes c)" using report_sound[OF r] putReport_nonempty[of r] by auto
    then have "parse_reports listening (c\<lparr>reported := reported c @ [r], pendingBytes := drop n (pendingBytes c)\<rparr>) = (c', ok)"
      using 1(2) ne r by (subst (asm) parse_reports.simps) simp
    then show ?thesis
      using 1(1)[OF ne r refl, of "c\<lparr>reported := reported c @ [r]\<rparr>"] n 1(3) by simp
  next
    case False
    with 1(2) show ?thesis
      by (subst (asm) parse_reports.simps)
        (auto simp: d waiting_def doomed_def split: if_splits sum.splits serializer_error.splits)
  qed
qed

text \<open>One completion of a read.\<close>

definition idle :: "connection \<Rightarrow> bool" where
  "idle c \<longleftrightarrow> reading c \<and> \<not> closed c \<and> disconnections c = 0 \<and> logged c = []
     \<and> list_all report_ok (reported c) \<and> waiting (pendingBytes c)"

definition rejected :: "bytes \<Rightarrow> connection \<Rightarrow> bool" where
  "rejected rest c \<longleftrightarrow> \<not> reading c \<and> closed c \<and> disconnections c = 1
     \<and> logged c = [''[CONNECTION] Rejected malformed error report.'']
     \<and> list_all report_ok (reported c) \<and> doomed rest"

lemma on_read_received:
  assumes "idle c" "length bs \<le> BUFFER_SIZE"
  obtains "idle (on_read listening (Received bs) c)"
    "putReports (reported c) @ pendingBytes c @ bs = putReports (reported (on_read listening (Received bs) c))
       @ pendingBytes (on_read listening (Received bs) c)"
  | rest where "rejected rest (on_read listening (Received bs) c)"
    "putReports (reported c) @ pendingBytes c @ bs = putReports (reported (on_read listening (Received bs) c)) @ rest"
proof -
  let ?c = "c\<lparr>reading := False, pendingBytes := pendingBytes c @ bs\<rparr>"
  obtain c' ok where p: "parse_reports listening ?c = (c', ok)" by fastforce
  have few: "length (pendingBytes c) + length bs \<le> 4096"
    using assms waiting_short[of "pendingBytes c"] by (simp add: idle_def BUFFER_SIZE_def)
  then have h: "on_read listening (Received bs) c = (if ok then Read c'
      else Close False (log_line ''[CONNECTION] Rejected malformed error report.'' c'))"
    using p by (simp add: on_read_def)
  obtain rs where rs: "reported c' = reported c @ rs" "list_all report_ok rs"
      "pendingBytes c @ bs = putReports rs @ pendingBytes c'"
    and same: "closed c' = closed c" "reading c' = False" "disconnections c' = disconnections c" "logged c' = logged c"
    using parse_reports_frame[OF p] by auto
  have data: "putReports (reported c) @ pendingBytes c @ bs = putReports (reported c') @ pendingBytes c'"
    using rs by (simp add: putReports_def)
  have fin: "if ok then waiting (pendingBytes c') else doomed (pendingBytes c')"
    using parse_reports_end[OF p] few by simp
  show thesis
  proof (cases ok)
    case True
    show thesis
    proof (rule that(1))
      show "idle (on_read listening (Received bs) c)"
        using True h fin rs same assms(1) by (simp add: idle_def Read_def)
      show "putReports (reported c) @ pendingBytes c @ bs = putReports (reported (on_read listening (Received bs) c))
       @ pendingBytes (on_read listening (Received bs) c)"
        using data True h by (simp add: Read_def)
    qed
  next
    case False
    show thesis
    proof (rule that(2))
      show "rejected (pendingBytes c') (on_read listening (Received bs) c)"
        using False h fin rs same assms(1) by (simp add: idle_def rejected_def Close_def log_line_def Let_def)
      show "putReports (reported c) @ pendingBytes c @ bs
          = putReports (reported (on_read listening (Received bs) c)) @ pendingBytes c'"
        using data False h same assms(1) by (simp add: Close_def log_line_def Let_def idle_def)
    qed
  qed
qed

lemma run_reads_closed: "\<not> reading c \<Longrightarrow> run_reads raises evs c = c"
  by (cases evs) simp_all

lemma run_reads_received:
  assumes "idle c" "\<forall>bs \<in> set chunks. length bs \<le> BUFFER_SIZE"
  shows "\<exists>rest. putReports (reported c) @ pendingBytes c @ concat chunks
      = putReports (reported (run_reads listening (map Received chunks) c)) @ rest
    \<and> (idle (run_reads listening (map Received chunks) c)
         \<and> rest = pendingBytes (run_reads listening (map Received chunks) c)
       \<or> rejected rest (run_reads listening (map Received chunks) c))"
  using assms
proof (induction chunks arbitrary: c)
  case (Cons bs chunks)
  let ?c = "on_read listening (Received bs) c"
  have run: "run_reads listening (map Received (bs # chunks)) c = run_reads listening (map Received chunks) ?c"
    using Cons.prems(1) by (simp add: idle_def)
  have "length bs \<le> BUFFER_SIZE" using Cons.prems(2) by simp
  from Cons.prems(1) this show ?case
  proof (cases rule: on_read_received)
    case 1
    note IH = Cons.IH[OF 1(1)]
    have eq: "putReports (reported c) @ pendingBytes c @ concat (bs # chunks)
        = putReports (reported ?c) @ pendingBytes ?c @ concat chunks"
      using arg_cong[OF 1(2), of "\<lambda>x. x @ concat chunks"] by simp
    show ?thesis unfolding run eq by (rule IH) (use Cons.prems(2) in simp)
  next
    case (2 rest)
    have "run_reads listening (map Received chunks) ?c = ?c"
      using 2(1) by (intro run_reads_closed) (simp add: rejected_def)
    moreover have "rejected (rest @ concat chunks) ?c"
      using 2(1) by (simp add: rejected_def doomed_extends)
    moreover have eq: "putReports (reported c) @ pendingBytes c @ concat (bs # chunks)
        = putReports (reported ?c) @ rest @ concat chunks"
      using arg_cong[OF 2(2), of "\<lambda>x. x @ concat chunks"] by simp
    ultimately show ?thesis unfolding run eq by auto
  qed
qed auto

text \<open>The reports at the front of some data are determined by it.\<close>

lemma reports_at_front:
  assumes "list_all report_ok rs" "list_all report_ok rs'" "waiting rest \<or> doomed rest"
    and "putReports rs' @ extra = putReports rs @ rest"
  shows "prefix rs' rs"
  using assms
proof (induction rs' arbitrary: rs)
  case (Cons r rs')
  show ?case
  proof (cases rs)
    case Nil
    with Cons.prems not_report[of rest r "putReports rs' @ extra"] show ?thesis by (simp add: putReports_def)
  next
    case (Cons q qs)
    have "r = q \<and> putReports rs' @ extra = putReports qs @ rest"
      using Cons.prems Cons
      by (intro report.prefix_free) (auto simp: putReports_def)
    with Cons Cons.prems Cons.IH[of qs] show ?thesis by simp
  qed
qed simp

section \<open>Properties\<close>

definition connected :: "bytes list \<Rightarrow> connection" where
  "connected chunks = run_reads listening (map Received chunks) (Read new_connection)"

lemma connected_run:
  assumes "\<forall>bs \<in> set chunks. length bs \<le> BUFFER_SIZE"
  obtains rest where "concat chunks = putReports (reported (connected chunks)) @ rest"
    "idle (connected chunks) \<and> rest = pendingBytes (connected chunks) \<or> rejected rest (connected chunks)"
proof -
  have "idle (Read new_connection)" by (simp add: idle_def Read_def new_connection_def waiting_def)
  from run_reads_received[OF this assms] that show thesis
    by (auto simp: connected_def Read_def new_connection_def putReports_def)
qed

text \<open>
  C24: A connection of the Windows client passes on exactly the error reports the phone sent,
  however its bytes are split into reads of at most 512 bytes: the reports passed on stand encoded
  at the front of the data, every well-formed report that is there completely has been passed on,
  in order, and as long as the data is the beginning of a stream of well-formed reports the
  connection stays open with the unfinished rest pending. That rest is always shorter than 3077
  bytes, so the test for oversized reports never strikes: a connection is closed only after data
  that no well-formed report begins with, as malformed.
\<close>

theorem reports_passed_on:
  assumes "\<forall>bs \<in> set chunks. length bs \<le> BUFFER_SIZE"
  shows "(\<exists>rest. concat chunks = putReports (reported (connected chunks)) @ rest
            \<and> (\<not> closed (connected chunks) \<longrightarrow> pendingBytes (connected chunks) = rest \<and> length rest < 3077))
       \<and> list_all report_ok (reported (connected chunks))
       \<and> (\<forall>rs. list_all report_ok rs \<and> prefix (putReports rs) (concat chunks)
            \<longrightarrow> prefix rs (reported (connected chunks)))
       \<and> (\<forall>rs. list_all report_ok rs \<and> prefix (concat chunks) (putReports rs)
            \<longrightarrow> \<not> closed (connected chunks) \<and> reading (connected chunks))
       \<and> (closed (connected chunks) \<longleftrightarrow> disconnections (connected chunks) = 1)
       \<and> logged (connected chunks)
           = (if closed (connected chunks) then [''[CONNECTION] Rejected malformed error report.''] else [])"
proof -
  let ?c = "connected chunks"
  obtain rest where data: "concat chunks = putReports (reported ?c) @ rest"
    and st: "idle ?c \<and> rest = pendingBytes ?c \<or> rejected rest ?c"
    using connected_run[OF assms] .
  have ok: "list_all report_ok (reported ?c)" and w: "waiting rest \<or> doomed rest"
    using st by (auto simp: idle_def rejected_def)
  have front: "prefix rs (reported ?c)" if rs: "list_all report_ok rs" "prefix (putReports rs) (concat chunks)" for rs
  proof -
    obtain extra where "concat chunks = putReports rs @ extra" using rs(2) by (auto simp: prefix_def)
    then have "putReports rs @ extra = putReports (reported ?c) @ rest" using data by simp
    from reports_at_front[OF ok rs(1) w this] show ?thesis .
  qed
  have open_while: "\<not> closed ?c \<and> reading ?c"
    if rs: "list_all report_ok rs" "prefix (concat chunks) (putReports rs)" for rs
  proof (rule ccontr)
    assume "\<not> (\<not> closed ?c \<and> reading ?c)"
    then have d: "doomed rest" using st by (auto simp: idle_def rejected_def)
    obtain extra where e: "putReports rs @ [] = putReports (reported ?c) @ rest @ extra"
      using rs(2) data by (auto simp: prefix_def)
    have d': "doomed (rest @ extra)" using d by (rule doomed_extends)
    from reports_at_front[OF ok rs(1) _ e] d' have "prefix rs (reported ?c)" by blast
    then have "length (putReports rs) \<le> length (putReports (reported ?c))"
      by (auto simp: prefix_def putReports_def)
    moreover have "length (putReports rs) = length (putReports (reported ?c)) + length (rest @ extra)"
      using arg_cong[OF e, of length] by simp
    ultimately have "rest = []" by simp
    then have "read_report [] 0 \<noteq> Inl IncompleteMessage" using d by (auto simp: doomed_def)
    then show False by (simp add: read_report_def followed_by_def u8_alt)
  qed
  have "(\<exists>rest. concat chunks = putReports (reported ?c) @ rest
      \<and> (\<not> closed ?c \<longrightarrow> pendingBytes ?c = rest \<and> length rest < 3077))"
    using data st waiting_short by (auto simp: idle_def rejected_def)
  moreover have "closed ?c \<longleftrightarrow> disconnections ?c = 1"
    "logged ?c = (if closed ?c then [''[CONNECTION] Rejected malformed error report.''] else [])"
    using st by (auto simp: idle_def rejected_def)
  ultimately show ?thesis using ok front open_while by blast
qed

definition demo_report :: ErrorReport where
  "demo_report = \<lparr>severity = 1, report_error = ''Camera'', report_description = ''lost''\<rparr>"

lemma reports_passed_on_witness:
  "prefix [demo_report] (reported (connected [take 7 (putReport demo_report), drop 7 (putReport demo_report)]))
   \<and> \<not> closed (connected [take 7 (putReport demo_report), drop 7 (putReport demo_report)])"
proof -
  let ?chunks = "[take 7 (putReport demo_report), drop 7 (putReport demo_report)]"
  have small: "\<forall>bs \<in> set ?chunks. length bs \<le> BUFFER_SIZE" by code_simp
  have ok: "list_all report_ok [demo_report]" by code_simp
  have "putReports [demo_report] = concat ?chunks" by (simp add: putReports_def)
  then have "prefix (putReports [demo_report]) (concat ?chunks)" "prefix (concat ?chunks) (putReports [demo_report])"
    by simp_all
  with reports_passed_on[OF small] ok show ?thesis by blast
qed

end
