(* ===== verification/Windows_Activation.thy ===== *)
theory Windows_Activation
  imports Windows_Serializer
begin

text \<open>
  The activation message of the Windows client: \<open>StreamOptions\<close> of
  \<open>windows/src/rtsp/streamoptions.h\<close>, its writer \<open>SerializeStreamOptions\<close> of
  \<open>windows/src/net/serializer.cpp\<close>, and what the Android reader of \<open>Stream_Options\<close> makes of it.
\<close>

section \<open>Options\<close>

text \<open>
  The values of the adjustment filters are a \<open>std::map\<close>, kept as the list of its entries in the
  order of iteration; \<open>w_zoom\<close> is the representation of a \<open>float\<close>.
\<close>

record windows_options =
  w_fps :: "32 word"
  w_resolution :: "32 word \<times> 32 word"
  w_backCameraActive :: bool
  w_filterSliderValues :: "(string \<times> 32 word) list"
  w_activeEffectFilter :: string
  w_adaptiveBitrate :: bool
  w_bitrate :: "32 word"
  w_minBitrate :: "32 word"
  w_maxBitrate :: "32 word"
  w_zoom :: "32 word"
  w_stabilizationEnabled :: bool
  w_flashEnabled :: bool
  w_h265Enabled :: bool
  w_focusMode :: "32 word"

definition DEFAULT_STATIC_BITRATE :: "32 word" where "DEFAULT_STATIC_BITRATE = 4000"
definition DEFAULT_MIN_BITRATE :: "32 word" where "DEFAULT_MIN_BITRATE = 2000"
definition DEFAULT_MAX_BITRATE :: "32 word" where "DEFAULT_MAX_BITRATE = 12000"

definition windows_defaults :: windows_options where
  "windows_defaults = \<lparr>w_fps = 30, w_resolution = (640, 480), w_backCameraActive = True,
     w_filterSliderValues = [], w_activeEffectFilter = [], w_adaptiveBitrate = False,
     w_bitrate = DEFAULT_STATIC_BITRATE, w_minBitrate = DEFAULT_MIN_BITRATE,
     w_maxBitrate = DEFAULT_MAX_BITRATE, w_zoom = 0x3F800000, w_stabilizationEnabled = False,
     w_flashEnabled = False, w_h265Enabled = False, w_focusMode = 0\<rparr>"

section \<open>The writer\<close>

definition WriteInt16 :: "bytes \<Rightarrow> 16 word \<Rightarrow> bytes" where
  "WriteInt16 buffer v = buffer @ [ucast (drop_bit 8 v), ucast v]"

definition WriteInt32 :: "bytes \<Rightarrow> 32 word \<Rightarrow> bytes" where
  "WriteInt32 buffer v =
     buffer @ [ucast (drop_bit 24 v), ucast (drop_bit 16 v), ucast (drop_bit 8 v), ucast v]"

definition WriteBool :: "bytes \<Rightarrow> bool \<Rightarrow> bytes" where
  "WriteBool buffer v = buffer @ [if v then 1 else 0]"

definition WriteString :: "bytes \<Rightarrow> string \<Rightarrow> serializer_error + bytes" where
  "WriteString buffer v =
     (if length v > MAX_STRING then Inl (Length_error ''String too long'')
      else Inr (WriteInt16 buffer (word_of_nat (length v)) @ string_bytes v))"

fun write_sliders :: "(string \<times> 32 word) list \<Rightarrow> bytes \<Rightarrow> serializer_error + bytes" where
  "write_sliders [] buffer = Inr buffer"
| "write_sliders ((nm, v) # rest) buffer =
     (if sint v < -100 \<or> sint v > 100 then Inl (Invalid_argument ''Invalid filter value'')
      else case WriteString buffer nm of
          Inl e \<Rightarrow> Inl e
        | Inr buffer \<Rightarrow> write_sliders rest (WriteInt32 buffer v))"

definition invalid_options :: "windows_options \<Rightarrow> bool" where
  "invalid_options opts \<longleftrightarrow>
     sint (w_fps opts) < 1 \<or> sint (w_fps opts) > 60 \<or> sint (fst (w_resolution opts)) < 160
   \<or> sint (snd (w_resolution opts)) < 160 \<or> sint (fst (w_resolution opts)) > uint MAX_DIMENSION
   \<or> sint (snd (w_resolution opts)) > uint MAX_DIMENSION
   \<or> sint (fst (w_resolution opts)) * sint (snd (w_resolution opts)) > 16777216
   \<or> sint (w_focusMode opts) < 0 \<or> sint (w_focusMode opts) > 1
   \<or> length (w_filterSliderValues opts) > unat MAX_LIST
   \<or> sint (w_bitrate opts) < 64 \<or> sint (w_bitrate opts) > 25000
   \<or> sint (w_minBitrate opts) < 64 \<or> sint (w_minBitrate opts) > 25000
   \<or> sint (w_maxBitrate opts) < sint (w_minBitrate opts) \<or> sint (w_maxBitrate opts) > 25000"

definition SerializeStreamOptions :: "windows_options \<Rightarrow> serializer_error + bytes" where
  "SerializeStreamOptions opts =
     (if invalid_options opts then Inl (Invalid_argument ''Invalid stream options'')
      else
        let b = [0];
            b = WriteInt32 b (w_fps opts);
            b = WriteInt32 b (fst (w_resolution opts));
            b = WriteInt32 b (snd (w_resolution opts));
            b = WriteInt32 b (if w_backCameraActive opts then 1 else 0);
            b = WriteBool b (w_adaptiveBitrate opts);
            b = WriteInt32 b (w_bitrate opts * 1024);
            b = WriteInt32 b (w_minBitrate opts * 1024);
            b = WriteInt32 b (w_maxBitrate opts * 1024);
            b = WriteBool b (w_stabilizationEnabled opts);
            b = WriteBool b (w_flashEnabled opts);
            b = WriteBool b (w_h265Enabled opts);
            b = WriteInt32 b (w_focusMode opts);
            b = WriteInt16 b (word_of_nat (length (w_filterSliderValues opts)))
        in case write_sliders (w_filterSliderValues opts) b of
            Inl e \<Rightarrow> Inl e
          | Inr b \<Rightarrow>
              case WriteString b (w_activeEffectFilter opts) of
                Inl e \<Rightarrow> Inl e
              | Inr b \<Rightarrow>
                  if length b > MAX_MESSAGE then Inl (Length_error ''Activation exceeds limit'') else Inr b)"

section \<open>What is written\<close>

text \<open>The options as the phone sees them: bit rates in bits per second.\<close>

definition wire_options :: "windows_options \<Rightarrow> StreamOptions" where
  "wire_options opts = \<lparr>fps = w_fps opts, opt_width = fst (w_resolution opts), opt_height = snd (w_resolution opts),
     camera = (if w_backCameraActive opts then 1 else 0), adaptiveBitrate = w_adaptiveBitrate opts,
     bitrate = w_bitrate opts * 1024, minBitrate = w_minBitrate opts * 1024,
     maxBitrate = w_maxBitrate opts * 1024, stabilization = w_stabilizationEnabled opts,
     flash = w_flashEnabled opts, h265 = w_h265Enabled opts, focusMode = w_focusMode opts\<rparr>"

definition putSlider :: "string \<times> 32 word \<Rightarrow> bytes" where
  "putSlider slider = putString (fst slider) @ be_bytes 4 (snd slider)"

definition slider_ok :: "string \<times> 32 word \<Rightarrow> bool" where
  "slider_ok slider \<longleftrightarrow> -100 \<le> sint (snd slider) \<and> sint (snd slider) \<le> 100 \<and> length (fst slider) \<le> 2048"

lemma WriteInt_put: "WriteInt16 b x = b @ be_bytes 2 x" "WriteInt32 b y = b @ be_bytes 4 y"
  by (simp_all add: WriteInt16_def WriteInt32_def be_bytes_2 be_bytes_4)

lemma WriteString_put:
  "WriteString b s = (if length s > 2048 then Inl (Length_error ''String too long'') else Inr (b @ putString s))"
  by (simp add: WriteString_def WriteInt_put putString_def MAX_STRING_def)

lemma write_sliders_iff:
  "write_sliders xs b = Inr b' \<longleftrightarrow> list_all slider_ok xs \<and> b' = b @ concat (map putSlider xs)"
  by (induction xs b rule: write_sliders.induct)
    (auto simp: WriteString_put WriteInt_put slider_ok_def putSlider_def)

definition windows_message :: "windows_options \<Rightarrow> bytes" where
  "windows_message opts = fixed_fields (wire_options opts)
     @ putItems putSlider (w_filterSliderValues opts) @ putString (w_activeEffectFilter opts)"

lemma SerializeStreamOptions_iff:
  "SerializeStreamOptions opts = Inr p \<longleftrightarrow>
     \<not> invalid_options opts \<and> list_all slider_ok (w_filterSliderValues opts)
   \<and> length (w_activeEffectFilter opts) \<le> 2048 \<and> p = 0 # windows_message opts \<and> length p \<le> 65536"
proof (cases "invalid_options opts")
  case False
  have fixed: "WriteInt32 (WriteBool (WriteBool (WriteBool (WriteInt32 (WriteInt32 (WriteInt32
      (WriteBool (WriteInt32 (WriteInt32 (WriteInt32 (WriteInt32 [0] (w_fps opts)) (fst (w_resolution opts)))
        (snd (w_resolution opts))) (if w_backCameraActive opts then 1 else 0)) (w_adaptiveBitrate opts))
        (w_bitrate opts * 1024)) (w_minBitrate opts * 1024)) (w_maxBitrate opts * 1024))
        (w_stabilizationEnabled opts)) (w_flashEnabled opts)) (w_h265Enabled opts)) (w_focusMode opts)
      = 0 # fixed_fields (wire_options opts)"
    by (simp add: WriteInt_put WriteBool_def fixed_fields_def wire_options_def)
  show ?thesis
  proof (cases "list_all slider_ok (w_filterSliderValues opts)")
    case True
    then have "write_sliders (w_filterSliderValues opts) b = Inr (b @ concat (map putSlider (w_filterSliderValues opts)))"
      for b by (simp add: write_sliders_iff)
    with False True show ?thesis
      by (auto simp: SerializeStreamOptions_def Let_def fixed WriteString_put WriteInt_put(1)
          windows_message_def putItems_def MAX_MESSAGE_def)
  next
    case no: False
    with False show ?thesis
      by (auto simp: SerializeStreamOptions_def Let_def fixed write_sliders_iff split: sum.splits)
  qed
qed (simp add: SerializeStreamOptions_def)

section \<open>What the phone reads\<close>

lemma getBytes_put: "and_then (getBytes (length bs)) k (bs @ rest) = k bs rest"
  by (simp add: and_then_def getBytes_def)

definition name_ok :: "string \<Rightarrow> bool" where
  "name_ok nm \<longleftrightarrow> length nm \<le> 128 \<and> isValidUtf8 nm"

lemma getString_put:
  assumes "length nm \<le> 2048"
  shows "name_ok nm \<Longrightarrow> getString (putString nm @ rest) = Inr (nm, rest)"
    and "\<not> name_ok nm \<Longrightarrow> \<exists>e. getString (putString nm @ rest) = Inl e"
proof -
  have n: "unat (word_of_nat (length nm) :: 16 word) = length nm"
    using assms by (intro unat_u16) simp
  have b: "and_then (getBytes (length nm)) k (string_bytes nm @ rest) = k (string_bytes nm) rest" for k :: "bytes \<Rightarrow> 'a take"
    using getBytes_put[of "string_bytes nm"] by simp
  show "name_ok nm \<Longrightarrow> getString (putString nm @ rest) = Inr (nm, rest)"
    by (simp add: name_ok_def isValidUtf8_def putString_def getString_def require_left_def require_def n b yields_def)
  show "\<not> name_ok nm \<Longrightarrow> \<exists>e. getString (putString nm @ rest) = Inl e"
    by (auto simp: name_ok_def isValidUtf8_def putString_def getString_def require_left_def require_def n b yields_def)
qed

definition correction_ok :: "filter_table \<Rightarrow> string \<times> 32 word \<Rightarrow> bool" where
  "correction_ok table slider \<longleftrightarrow> name_ok (fst slider) \<and> table (fst slider) = Some CORRECTION"

lemma getFilters_step:
  assumes "slider_ok slider"
  shows "correction_ok table slider \<Longrightarrow> getFilters table (Suc n) (putSlider slider @ rest)
      = and_then (getFilters table n) (\<lambda>fs. yields ((fst slider, sint (snd slider)) # fs)) rest"
    and "\<not> correction_ok table slider \<Longrightarrow>
      \<exists>e. getFilters table (Suc n) (putSlider slider @ rest) = Inl e"
proof -
  have len: "length (fst slider) \<le> 2048" using assms by (simp add: slider_ok_def)
  note s = getString_put[OF len, of "be_bytes 4 (snd slider) @ rest"]
  show "correction_ok table slider \<Longrightarrow> getFilters table (Suc n) (putSlider slider @ rest)
      = and_then (getFilters table n) (\<lambda>fs. yields ((fst slider, sint (snd slider)) # fs)) rest"
    using assms s(1)
    by (simp add: putSlider_def and_then_def[of getString] correction_ok_def require_left_def require_def slider_ok_def)
  show "\<exists>e. getFilters table (Suc n) (putSlider slider @ rest) = Inl e" if "\<not> correction_ok table slider"
  proof (cases "name_ok (fst slider)")
    case True
    with s(1) that assms show ?thesis
      by (simp add: putSlider_def and_then_def[of getString] correction_ok_def require_left_def require_def slider_ok_def)
  next
    case False
    with s(2) obtain e where "getString (putString (fst slider) @ be_bytes 4 (snd slider) @ rest) = Inl e" by blast
    then show ?thesis by (simp add: putSlider_def and_then_def[of getString])
  qed
qed

lemma getFilters_put:
  "list_all slider_ok xs \<Longrightarrow> list_all (correction_ok table) xs \<Longrightarrow>
     getFilters table (length xs) (concat (map putSlider xs) @ rest)
       = Inr (map (\<lambda>(n, v). (n, sint v)) xs, rest)"
proof (induction xs)
  case Nil
  then show ?case by (simp add: yields_def)
next
  case (Cons x xs)
  then show ?case
    by (simp add: getFilters_step(1) and_then_def yields_def case_prod_unfold del: getFilters.simps(2))
qed

lemma getFilters_bad:
  "list_all slider_ok xs \<Longrightarrow> \<not> list_all (correction_ok table) xs \<Longrightarrow>
     \<exists>e. getFilters table (length xs) (concat (map putSlider xs) @ rest) = Inl e"
proof (induction xs)
  case (Cons x xs)
  show ?case
  proof (cases "correction_ok table x")
    case True
    with Cons obtain e where "getFilters table (length xs) (concat (map putSlider xs) @ rest) = Inl e"
      by auto
    with Cons.prems True show ?thesis
      by (simp add: getFilters_step(1) and_then_def del: getFilters.simps(2))
  next
    case False
    with Cons.prems show ?thesis
      by (simp add: getFilters_step(2) del: getFilters.simps(2))
  qed
qed simp

definition effect_ok :: "filter_table \<Rightarrow> string \<Rightarrow> bool" where
  "effect_ok table nm \<longleftrightarrow> name_ok nm \<and> (nm = [] \<or> table nm = Some EFFECT)"

lemma getEffect_put:
  assumes "length nm \<le> 2048"
  shows "effect_ok table nm \<Longrightarrow>
      getEffect table (putString nm) = Inr (if nm = [] then None else Some nm, [])"
    and "\<not> effect_ok table nm \<Longrightarrow> \<exists>e. getEffect table (putString nm) = Inl e"
  using getString_put[OF assms, of "[]"] 
  by (cases "name_ok nm"; auto simp: getEffect_def and_then_def effect_ok_def)+

text \<open>Kilobits become bits without overflow.\<close>

lemma sint_of_int: "-(2 ^ 31) \<le> k \<Longrightarrow> k < 2 ^ 31 \<Longrightarrow> sint (word_of_int k :: 32 word) = k"
  by transfer (simp add: signed_take_bit_int_eq_self)

lemma kilobits:
  fixes w :: "32 word"
  assumes "64 \<le> sint w" "sint w \<le> 25000"
  shows "sint (w * 1024) = sint w * 1024"
proof -
  have "w * 1024 = word_of_int (sint w * 1024)" by (simp add: wi_hom_mult[symmetric])
  moreover have "sint (word_of_int (sint w * 1024) :: 32 word) = sint w * 1024"
    using assms by (intro sint_of_int) simp_all
  ultimately show ?thesis by simp
qed

lemma wire_options_ok: "\<not> invalid_options opts \<Longrightarrow> options_ok (wire_options opts)"
  by (simp add: invalid_options_def options_ok_def wire_options_def kilobits MAX_DIMENSION_def)

lemma length_put: "length (putString s) = 2 + length s" "length (putItems put xs) = 2 + length (concat (map put xs))"
  by (simp_all add: putString_def putItems_def)

lemma sliders_short:
  "list_all (correction_ok table) xs \<Longrightarrow> length (concat (map putSlider xs)) \<le> 134 * length xs"
  by (induction xs) (auto simp: putSlider_def length_put correction_ok_def name_ok_def)

lemma message_fits:
  assumes "list_all (correction_ok table) (w_filterSliderValues opts)"
    and "length (w_filterSliderValues opts) \<le> 128" "effect_ok table (w_activeEffectFilter opts)"
  shows "length (0 # windows_message opts) \<le> 65536"
  using sliders_short[OF assms(1)] assms(2,3)
  by (simp add: windows_message_def length_put effect_ok_def name_ok_def)

definition wire_received :: "windows_options \<Rightarrow> received_options" where
  "wire_received opts = \<lparr>options = wire_options opts,
     corrections = map (\<lambda>(n, v). (n, sint v)) (w_filterSliderValues opts),
     active_effect = (if w_activeEffectFilter opts = [] then None else Some (w_activeEffectFilter opts))\<rparr>"

lemma deserialize_message:
  assumes valid: "\<not> invalid_options opts" and sliders: "list_all slider_ok (w_filterSliderValues opts)"
    and effect: "length (w_activeEffectFilter opts) \<le> 2048"
    and fits: "length (windows_message opts) \<le> 65536"
  shows "deserialize table (windows_message opts) = Inr r \<longleftrightarrow>
     list_all (correction_ok table) (w_filterSliderValues opts)
     \<and> effect_ok table (w_activeEffectFilter opts) \<and> r = wire_received opts"
proof -
  let ?xs = "w_filterSliderValues opts" and ?eff = "w_activeEffectFilter opts"
  have few: "length ?xs \<le> 128" using valid by (simp add: invalid_options_def MAX_LIST_def)
  then have n: "unat (word_of_nat (length ?xs) :: 16 word) = length ?xs" by (intro unat_u16) simp
  have long: "40 \<le> length (windows_message opts)" by (simp add: windows_message_def length_put)
  have left: "require_left Truncated_fields 36 k (windows_message opts) = k (windows_message opts)" for k :: "'a take"
    using long by (simp add: require_left_def)
  let ?rest = "and_then (getFilters table (length ?xs)) (\<lambda>fs. and_then (getEffect table) (\<lambda>eff.
    yields \<lparr>options = wire_options opts, corrections = fs, active_effect = eff\<rparr>))
    (concat (map putSlider ?xs) @ putString ?eff)"
  have d: "deserialize table (windows_message opts) = map_sum id fst ?rest"
    using long fits few
    by (simp add: deserialize_def left)
      (simp add: windows_message_def getOptions_put wire_options_ok valid putItems_def require_left_def require_def n)
  show ?thesis
  proof (cases "list_all (correction_ok table) ?xs")
    case True
    note f = getFilters_put[OF sliders True, of "putString ?eff"]
    show ?thesis
      using getEffect_put[OF effect, of table] True
      by (cases "effect_ok table ?eff")
        (auto simp: d and_then_def f yields_def wire_received_def)
  next
    case False
    with getFilters_bad[OF sliders False, of "putString ?eff"] show ?thesis
      by (auto simp: d and_then_def)
  qed
qed

text \<open>The options the phone can take over.\<close>

definition windows_deliverable :: "filter_table \<Rightarrow> windows_options \<Rightarrow> bool" where
  "windows_deliverable table opts \<longleftrightarrow> \<not> invalid_options opts
     \<and> (\<forall>(nm, v) \<in> set (w_filterSliderValues opts). -100 \<le> sint v \<and> sint v \<le> 100
          \<and> length nm \<le> 128 \<and> isValidUtf8 nm \<and> table nm = Some CORRECTION)
     \<and> length (w_activeEffectFilter opts) \<le> 128 \<and> isValidUtf8 (w_activeEffectFilter opts)
     \<and> (w_activeEffectFilter opts = [] \<or> table (w_activeEffectFilter opts) = Some EFFECT)"

lemma deliverable_iff: "windows_deliverable table opts \<longleftrightarrow> \<not> invalid_options opts
    \<and> list_all slider_ok (w_filterSliderValues opts)
    \<and> list_all (correction_ok table) (w_filterSliderValues opts) \<and> effect_ok table (w_activeEffectFilter opts)"
  unfolding windows_deliverable_def correction_ok_def slider_ok_def effect_ok_def name_ok_def list_all_iff
  by fastforce

section \<open>Properties\<close>

text \<open>
  C23: The Windows client and the phone agree on the activation message: the writer produces a
  message whose part after the command byte the Android reader accepts exactly when the options
  pass the writer's check, every adjustment is in -100..100, every filter name is valid UTF-8 of
  at most 128 bytes, the adjustments belong to correction filters of the phone's table and the
  effect is empty or an effect of it. The phone then has every option unchanged, the bit rates
  multiplied by 1024 without overflow, the adjustments in order and the effect.
\<close>

theorem windows_activation_delivered:
  "(\<exists>p. SerializeStreamOptions opts = Inr p \<and> deserialize table (tl p) = Inr r) \<longleftrightarrow>
     windows_deliverable table opts
     \<and> options r = wire_options opts
     \<and> (sint (bitrate (options r)) = 1024 * sint (w_bitrate opts)
        \<and> sint (minBitrate (options r)) = 1024 * sint (w_minBitrate opts)
        \<and> sint (maxBitrate (options r)) = 1024 * sint (w_maxBitrate opts))
     \<and> corrections r = map (\<lambda>(nm, v). (nm, sint v)) (w_filterSliderValues opts)
     \<and> active_effect r = (if w_activeEffectFilter opts = [] then None else Some (w_activeEffectFilter opts))"
proof -
  have r: "r = wire_received opts \<longleftrightarrow> options r = wire_options opts
      \<and> corrections r = map (\<lambda>(nm, v). (nm, sint v)) (w_filterSliderValues opts)
      \<and> active_effect r = (if w_activeEffectFilter opts = [] then None else Some (w_activeEffectFilter opts))"
    by (cases r) (simp add: wire_received_def)
  have rates: "sint (bitrate (wire_options opts)) = 1024 * sint (w_bitrate opts)"
      "sint (minBitrate (wire_options opts)) = 1024 * sint (w_minBitrate opts)"
      "sint (maxBitrate (wire_options opts)) = 1024 * sint (w_maxBitrate opts)" if "\<not> invalid_options opts"
    using that by (simp_all add: wire_options_def invalid_options_def kilobits)
  note w = deliverable_iff[of table opts]
  have "(\<exists>p. SerializeStreamOptions opts = Inr p \<and> deserialize table (tl p) = Inr r) \<longleftrightarrow>
      windows_deliverable table opts \<and> r = wire_received opts"
  proof
    assume "\<exists>p. SerializeStreamOptions opts = Inr p \<and> deserialize table (tl p) = Inr r"
    then show "windows_deliverable table opts \<and> r = wire_received opts"
      unfolding SerializeStreamOptions_iff w by (auto simp: deserialize_message)
  next
    assume d: "windows_deliverable table opts \<and> r = wire_received opts"
    then have few: "length (w_filterSliderValues opts) \<le> 128"
      by (simp add: w invalid_options_def MAX_LIST_def)
    from d have fits: "length (0 # windows_message opts) \<le> 65536"
      using message_fits[OF _ few, of table] by (simp add: w)
    with d show "\<exists>p. SerializeStreamOptions opts = Inr p \<and> deserialize table (tl p) = Inr r"
      unfolding SerializeStreamOptions_iff w
      by (auto simp: deserialize_message effect_ok_def name_ok_def)
  qed
  also have "\<dots> \<longleftrightarrow> windows_deliverable table opts \<and> options r = wire_options opts
     \<and> (sint (bitrate (options r)) = 1024 * sint (w_bitrate opts)
        \<and> sint (minBitrate (options r)) = 1024 * sint (w_minBitrate opts)
        \<and> sint (maxBitrate (options r)) = 1024 * sint (w_maxBitrate opts))
     \<and> corrections r = map (\<lambda>(nm, v). (nm, sint v)) (w_filterSliderValues opts)
     \<and> active_effect r = (if w_activeEffectFilter opts = [] then None else Some (w_activeEffectFilter opts))"
    unfolding r using rates w by auto
  finally show ?thesis .
qed

end
