(* ===== verification/Windows_Commands.thy ===== *)
theory Windows_Commands
  imports Windows_Activation
begin

text \<open>
  The commands of the Windows client to the streaming phone: the packets the methods of
  \<open>RTSP::Manager\<close> (\<open>windows/src/rtsp/manager.cpp\<close>) hand to the server, and the reader of the
  Android application for them, \<open>StreamActivity\<close> with \<open>onLegacyBytesReceived\<close>,
  \<open>legacyMessageLength\<close> and \<open>handlePacket\<close>. What the streamer does with a command is not followed
  further: the calls of its methods are recorded.
\<close>

section \<open>The packets\<close>

definition RESOLUTION :: byte where "RESOLUTION = 0x01"
definition ACTIVATION_COMMAND :: byte where "ACTIVATION_COMMAND = 0x02"
definition CAMERA :: byte where "CAMERA = 0x03"
definition CORRECTION_FILTER :: byte where "CORRECTION_FILTER = 0x05"
definition EFFECT_FILTER :: byte where "EFFECT_FILTER = 0x06"
definition ROTATION :: byte where "ROTATION = 0x07"
definition BITRATE :: byte where "BITRATE = 0x08"
definition ADAPTIVE_BITRATE :: byte where "ADAPTIVE_BITRATE = 0x09"
definition STABILIZATION :: byte where "STABILIZATION = 0xA"
definition FLASH :: byte where "FLASH = 0xB"
definition FOCUS :: byte where "FOCUS = 0xC"
definition CODEC :: byte where "CODEC = 0xD"
definition FPS :: byte where "FPS = 0xE"
definition ZOOM :: byte where "ZOOM = 0xF"
definition FLIP :: byte where "FLIP = 0x10"

lemmas command_types = RESOLUTION_def ACTIVATION_COMMAND_def CAMERA_def CORRECTION_FILTER_def EFFECT_FILTER_def
  ROTATION_def BITRATE_def ADAPTIVE_BITRATE_def STABILIZATION_def FLASH_def FOCUS_def CODEC_def FPS_def
  ZOOM_def FLIP_def

definition SetResolution :: "16 word \<Rightarrow> 16 word \<Rightarrow> bytes" where
  "SetResolution w h = [RESOLUTION, ucast (w AND 0xFF), ucast (drop_bit 8 w),
     ucast (h AND 0xFF), ucast (drop_bit 8 h)]"

definition SetFPS :: "32 word \<Rightarrow> bytes" where "SetFPS v = [FPS, ucast v]"

definition SetBitrate :: "32 word \<Rightarrow> bytes" where
  "SetBitrate v = [BITRATE, ucast (v AND 0xFF), ucast (signed_drop_bit 8 v)]"

definition SetAdaptiveBitrate :: "32 word \<Rightarrow> 32 word \<Rightarrow> bytes" where
  "SetAdaptiveBitrate mn mx = [ADAPTIVE_BITRATE, ucast (mn AND 0xFF), ucast (signed_drop_bit 8 mn),
     ucast (mx AND 0xFF), ucast (signed_drop_bit 8 mx)]"

definition SetStabilization :: "bool \<Rightarrow> bytes" where "SetStabilization b = [STABILIZATION, if b then 1 else 0]"
definition SetFlash :: "bool \<Rightarrow> bytes" where "SetFlash b = [FLASH, if b then 1 else 0]"
definition SetFocusMode :: "32 word \<Rightarrow> bytes" where "SetFocusMode m = [FOCUS, ucast m]"
definition SetH265Codec :: "bool \<Rightarrow> bytes" where "SetH265Codec b = [CODEC, if b then 1 else 0]"
definition SwapCamera :: bytes where "SwapCamera = [CAMERA]"
definition Rotate :: "byte \<Rightarrow> bytes" where "Rotate degrees = [ROTATION, degrees]"

text \<open>\<open>Zoom\<close> copies the bits of the \<open>float\<close>.\<close>

definition Zoom :: "32 word \<Rightarrow> bytes" where
  "Zoom bits = [ZOOM, ucast (bits AND 0xFF), ucast (signed_drop_bit 8 bits AND 0xFF),
     ucast (signed_drop_bit 16 bits AND 0xFF), ucast (signed_drop_bit 24 bits AND 0xFF)]"

definition FlipHorizontally :: bytes where "FlipHorizontally = [FLIP, 1]"
definition FlipVertically :: bytes where "FlipVertically = [FLIP, 0]"

definition ApplyCorrectionFilter :: "string \<Rightarrow> 32 word \<Rightarrow> bytes" where
  "ApplyCorrectionFilter nm v =
     [CORRECTION_FILTER] @ [word_of_nat (length nm)] @ string_bytes nm @ [ucast v]"

definition ApplyEffectFilter :: "string \<Rightarrow> bytes" where
  "ApplyEffectFilter nm = [EFFECT_FILTER] @ [word_of_nat (length nm)] @ string_bytes nm"

text \<open>The activation that \<open>Connect2Stream\<close> sends: the serialized options under the command byte.\<close>

definition activation_packet :: "windows_options \<Rightarrow> serializer_error + bytes" where
  "activation_packet opts = map_sum id (\<lambda>p. p[0 := ACTIVATION_COMMAND]) (SerializeStreamOptions opts)"

section \<open>The phone's reader\<close>

datatype flip_axis = VERTICAL | HORIZONTAL

text \<open>The calls of the streamer.\<close>

datatype phone_action =
  startStream received_options
| switchCamera
| setResolution nat nat
| rotate nat
| applyCorrectionFilter string int
| applyEffectFilter string
| setBitrate nat
| setAdaptiveBitrate nat nat
| setStabilization bool
| setFlash bool
| setH265Codec bool
| setFocus nat
| setFps nat
| setZoom "32 word"
| flip flip_axis

text \<open>\<open>None\<close> when an exception is thrown; all of them are treated alike.\<close>

definition le_u16 :: "bytes \<Rightarrow> nat \<Rightarrow> nat" where
  "le_u16 payload offset = unat (payload ! offset) + 256 * unat (payload ! (offset + 1))"

text \<open>
  The bits of a \<open>float\<close> in \<open>1.0f..10.0f\<close>: the order of positive floats is that of their bits,
  which rules out infinities and NaN too.
\<close>

definition zoom_in_range :: "32 word \<Rightarrow> bool" where
  "zoom_in_range bits \<longleftrightarrow> 0x3F800000 \<le> bits \<and> bits \<le> 0x41200000"

definition provided :: "bool \<Rightarrow> 'a \<Rightarrow> 'a option" where
  "provided b x = (if b then Some x else None)"

definition filter_name_of :: "nat \<Rightarrow> bytes \<Rightarrow> string option" where
  "filter_name_of extra payload =
     (let n = unat (hd payload); name_bytes = take n (tl payload)
      in if payload \<noteq> [] \<and> 1 \<le> n \<and> n \<le> 128 \<and> length payload = 1 + n + extra \<and> utf8_from name_bytes
         then Some (bytes_string name_bytes) else None)"

definition handlePacket :: "filter_table \<Rightarrow> byte \<Rightarrow> bytes \<Rightarrow> phone_action option" where
  "handlePacket table ty payload =
     (if ty = ACTIVATION_COMMAND then
        (case deserialize table payload of Inl _ \<Rightarrow> None | Inr opts \<Rightarrow> Some (startStream opts))
      else if ty = CAMERA then provided (length payload = 0) switchCamera
      else if ty = RESOLUTION then
        let w = le_u16 payload 0; h = le_u16 payload 2
        in provided (length payload = 4 \<and> 160 \<le> w \<and> w \<le> 8192 \<and> 160 \<le> h \<and> h \<le> 8192 \<and> w * h \<le> 16777216)
             (setResolution w h)
      else if ty = ROTATION then provided (length payload = 1) (rotate (unat (payload ! 0)))
      else if ty = EFFECT_FILTER then map_option applyEffectFilter (filter_name_of 0 payload)
      else if ty = CORRECTION_FILTER then
        map_option (\<lambda>nm. applyCorrectionFilter nm (sint (last payload))) (filter_name_of 1 payload)
      else if ty = BITRATE then
        let v = le_u16 payload 0 in provided (length payload = 2 \<and> 64 \<le> v \<and> v \<le> 25000) (setBitrate v)
      else if ty = ADAPTIVE_BITRATE then
        let mn = le_u16 payload 0; mx = le_u16 payload 2
        in provided (length payload = 4 \<and> 64 \<le> mn \<and> mn \<le> 25000 \<and> mn \<le> mx \<and> mx \<le> 25000)
             (setAdaptiveBitrate mn mx)
      else if ty = STABILIZATION \<or> ty = FLASH \<or> ty = CODEC then
        provided (length payload = 1 \<and> (payload ! 0 = 0 \<or> payload ! 0 = 1))
          (let v = (payload ! 0 = 1)
           in if ty = STABILIZATION then setStabilization v else if ty = FLASH then setFlash v else setH265Codec v)
      else if ty = FOCUS then
        let v = unat (payload ! 0) in provided (length payload = 1 \<and> v \<le> 1) (setFocus v)
      else if ty = FPS then
        let v = unat (payload ! 0) in provided (length payload = 1 \<and> 1 \<le> v \<and> v \<le> 60) (setFps v)
      else if ty = ZOOM then
        let v = be_word (rev payload) in provided (length payload = 4 \<and> zoom_in_range v) (setZoom v)
      else if ty = FLIP then
        provided (length payload = 1 \<and> (payload ! 0 = 0 \<or> payload ! 0 = 1))
          (flip (if payload ! 0 = 0 then VERTICAL else HORIZONTAL))
      else None)"

text \<open>\<open>legacyMessageLength\<close>: an exception, \<open>null\<close>, or the length of the first message.\<close>

datatype message_length = Throws | Unfinished | Len nat

definition be_u16 :: "bytes \<Rightarrow> nat \<Rightarrow> nat" where
  "be_u16 data offset = 256 * unat (data ! offset) + unat (data ! (offset + 1))"

fun skip_filters :: "nat \<Rightarrow> bytes \<Rightarrow> nat \<Rightarrow> message_length" where
  "skip_filters 0 data offset = Len offset"
| "skip_filters (Suc n) data offset =
     (if length data < offset + 2 then Unfinished
      else
        let nameLength = be_u16 data offset
        in if nameLength > 128 then Throws
           else
             let offset = offset + 2 + nameLength + 4
             in if length data < offset then Unfinished else skip_filters n data offset)"

definition activation_length :: "bytes \<Rightarrow> message_length" where
  "activation_length data =
     (if length data < 39 then Unfinished
      else
        let filterCount = be_u16 data 37
        in if filterCount > 128 then Throws
           else case skip_filters filterCount data 39 of
               Len offset \<Rightarrow>
                 if length data < offset + 2 then Unfinished
                 else
                   let effectLength = be_u16 data offset
                   in if effectLength > 128 then Throws else Len (offset + 2 + effectLength)
             | r \<Rightarrow> r)"

definition fixed_length :: "bytes \<Rightarrow> message_length" where
  "fixed_length data =
     (let ty = data ! 0
      in if ty = CAMERA then Len 1
         else if ty = RESOLUTION then Len 5
         else if ty = ROTATION \<or> ty = FOCUS \<or> ty = FPS \<or> ty = FLASH \<or> ty = CODEC \<or> ty = STABILIZATION \<or> ty = FLIP
         then Len 2
         else if ty = BITRATE then Len 3
         else if ty = ADAPTIVE_BITRATE \<or> ty = ZOOM then Len 5
         else if ty = EFFECT_FILTER \<or> ty = CORRECTION_FILTER then
           if length data < 2 then Unfinished
           else if unat (data ! 1) > 128 then Throws
           else Len (2 + unat (data ! 1) + (if ty = CORRECTION_FILTER then 1 else 0))
         else if ty = ACTIVATION_COMMAND then activation_length data
         else Throws)"

definition legacyMessageLength :: "bytes \<Rightarrow> message_length" where
  "legacyMessageLength data =
     (if data = [] then Unfinished
      else case fixed_length data of
          Len fixed \<Rightarrow>
            if \<not> fixed \<le> 65536 then Throws
            else if length data < fixed then Unfinished else Len fixed
        | r \<Rightarrow> r)"

record phone =
  legacyPending :: bytes
  actions :: "phone_action list"
  disconnected :: bool

definition new_phone :: phone where
  "new_phone = \<lparr>legacyPending = [], actions = [], disconnected = False\<rparr>"

function handle_pending :: "filter_table \<Rightarrow> phone \<Rightarrow> phone" where
  "handle_pending table p =
     (case legacyMessageLength (legacyPending p) of
        Throws \<Rightarrow> p\<lparr>disconnected := True\<rparr>
      | Unfinished \<Rightarrow> p
      | Len n \<Rightarrow>
          if \<not> (1 \<le> n \<and> n \<le> length (legacyPending p)) then p\<lparr>disconnected := True\<rparr>
          else case handlePacket table (legacyPending p ! 0) (take (n - 1) (drop 1 (legacyPending p))) of
              None \<Rightarrow> p\<lparr>disconnected := True\<rparr>
            | Some a \<Rightarrow> handle_pending table
                (p\<lparr>actions := actions p @ [a], legacyPending := drop n (legacyPending p)\<rparr>))"
  by pat_completeness auto
termination by (relation "measure (\<lambda>(_, p). length (legacyPending p))") auto

declare handle_pending.simps [simp del]

definition onLegacyBytesReceived :: "filter_table \<Rightarrow> bytes \<Rightarrow> phone \<Rightarrow> phone" where
  "onLegacyBytesReceived table bs p =
     (if \<not> (1 \<le> length bs \<and> length (legacyPending p) + length bs \<le> 65536) then p\<lparr>disconnected := True\<rparr>
      else handle_pending table (p\<lparr>legacyPending := legacyPending p @ bs\<rparr>))"

text \<open>The receive loop: reads of at most 512 bytes, until the connection is closed.\<close>

fun phone_reads :: "filter_table \<Rightarrow> bytes list \<Rightarrow> phone \<Rightarrow> phone" where
  "phone_reads table [] p = p"
| "phone_reads table (bs # chunks) p =
     (if disconnected p then p else phone_reads table chunks (onLegacyBytesReceived table bs p))"

section \<open>What the phone makes of the packets\<close>

datatype command =
  Resolution_command "16 word" "16 word" | Fps_command "32 word" | Bitrate_command "32 word"
| Adaptive_command "32 word" "32 word" | Stabilization_command bool | Flash_command bool
| Focus_command "32 word" | Codec_command bool | Swap_command | Rotate_command byte
| Zoom_command "32 word" | Flip_horizontally | Flip_vertically
| Correction_command string "32 word" | Effect_command string | Connect_command windows_options

text \<open>The bytes a command sends; an activation that cannot be serialized sends none.\<close>

fun packet :: "command \<Rightarrow> bytes" where
  "packet (Resolution_command w h) = SetResolution w h"
| "packet (Fps_command v) = SetFPS v"
| "packet (Bitrate_command v) = SetBitrate v"
| "packet (Adaptive_command mn mx) = SetAdaptiveBitrate mn mx"
| "packet (Stabilization_command b) = SetStabilization b"
| "packet (Flash_command b) = SetFlash b"
| "packet (Focus_command m) = SetFocusMode m"
| "packet (Codec_command b) = SetH265Codec b"
| "packet Swap_command = SwapCamera"
| "packet (Rotate_command d) = Rotate d"
| "packet (Zoom_command z) = Zoom z"
| "packet Flip_horizontally = FlipHorizontally"
| "packet Flip_vertically = FlipVertically"
| "packet (Correction_command nm v) = ApplyCorrectionFilter nm v"
| "packet (Effect_command nm) = ApplyEffectFilter nm"
| "packet (Connect_command opts) = (case activation_packet opts of Inl _ \<Rightarrow> [] | Inr p \<Rightarrow> p)"

fun intended :: "command \<Rightarrow> phone_action" where
  "intended (Resolution_command w h) = setResolution (unat w) (unat h)"
| "intended (Fps_command v) = setFps (unat v)"
| "intended (Bitrate_command v) = setBitrate (unat v)"
| "intended (Adaptive_command mn mx) = setAdaptiveBitrate (unat mn) (unat mx)"
| "intended (Stabilization_command b) = setStabilization b"
| "intended (Flash_command b) = setFlash b"
| "intended (Focus_command m) = setFocus (unat m)"
| "intended (Codec_command b) = setH265Codec b"
| "intended Swap_command = switchCamera"
| "intended (Rotate_command d) = rotate (unat d)"
| "intended (Zoom_command z) = setZoom z"
| "intended Flip_horizontally = flip HORIZONTAL"
| "intended Flip_vertically = flip VERTICAL"
| "intended (Correction_command nm v) = applyCorrectionFilter nm (sint v)"
| "intended (Effect_command nm) = applyEffectFilter nm"
| "intended (Connect_command opts) = startStream (wire_received opts)"

definition filter_name_ok :: "string \<Rightarrow> bool" where
  "filter_name_ok nm \<longleftrightarrow> nm \<noteq> [] \<and> length nm \<le> 128 \<and> isValidUtf8 nm"

fun command_ok :: "filter_table \<Rightarrow> command \<Rightarrow> bool" where
  "command_ok table (Resolution_command w h) \<longleftrightarrow>
     160 \<le> unat w \<and> unat w \<le> 8192 \<and> 160 \<le> unat h \<and> unat h \<le> 8192 \<and> unat w * unat h \<le> 16777216"
| "command_ok table (Fps_command v) \<longleftrightarrow> 1 \<le> unat v \<and> unat v \<le> 60"
| "command_ok table (Bitrate_command v) \<longleftrightarrow> 64 \<le> unat v \<and> unat v \<le> 25000"
| "command_ok table (Adaptive_command mn mx) \<longleftrightarrow> 64 \<le> unat mn \<and> unat mn \<le> unat mx \<and> unat mx \<le> 25000"
| "command_ok table (Focus_command m) \<longleftrightarrow> unat m \<le> 1"
| "command_ok table (Zoom_command z) \<longleftrightarrow> zoom_in_range z"
| "command_ok table (Correction_command nm v) \<longleftrightarrow> filter_name_ok nm \<and> -128 \<le> sint v \<and> sint v \<le> 127"
| "command_ok table (Effect_command nm) \<longleftrightarrow> filter_name_ok nm"
| "command_ok table (Connect_command opts) \<longleftrightarrow> windows_deliverable table opts"
| "command_ok table _ \<longleftrightarrow> True"

text \<open>More bytes change nothing about the length of the first message once it is known.\<close>

lemma be_u16_append: "i + 1 < length data \<Longrightarrow> be_u16 (data @ tail) i = be_u16 data i"
  by (simp add: be_u16_def nth_append)

lemma skip_filters_stable:
  "skip_filters n data offset \<noteq> Unfinished \<Longrightarrow> offset \<le> length data \<Longrightarrow>
     skip_filters n (data @ tail) offset = skip_filters n data offset"
  by (induction n data offset rule: skip_filters.induct)
    (auto simp: Let_def be_u16_append split: if_splits)

lemma skip_filters_end: "skip_filters n data offset = Len off' \<Longrightarrow> offset \<le> length data \<Longrightarrow> off' \<le> length data"
  by (induction n data offset rule: skip_filters.induct) (auto simp: Let_def split: if_splits)

lemma activation_length_stable:
  assumes "activation_length data \<noteq> Unfinished"
  shows "activation_length (data @ tail) = activation_length data"
proof (cases "be_u16 data 37 > 128")
  case False
  have long: "39 \<le> length data" using assms by (auto simp: activation_length_def split: if_splits)
  then have f: "be_u16 (data @ tail) 37 = be_u16 data 37" by (simp add: be_u16_append)
  have "skip_filters (be_u16 data 37) data 39 \<noteq> Unfinished"
    using assms long False by (auto simp: activation_length_def Let_def split: if_splits)
  from skip_filters_stable[OF this long] have "skip_filters (be_u16 data 37) (data @ tail) 39
      = skip_filters (be_u16 data 37) data 39" .
  then show ?thesis
    using assms long f
    by (auto simp: activation_length_def Let_def be_u16_append split: message_length.splits if_splits)
qed (use assms in \<open>auto simp: activation_length_def Let_def be_u16_append split: if_splits\<close>)

lemma legacyMessageLength_stable:
  assumes "legacyMessageLength data \<noteq> Unfinished"
  shows "legacyMessageLength (data @ tail) = legacyMessageLength data"
proof -
  have ne: "data \<noteq> []" using assms by (auto simp: legacyMessageLength_def)
  have "fixed_length data \<noteq> Unfinished"
    using assms ne by (auto simp: legacyMessageLength_def)
  moreover from this have "fixed_length (data @ tail) = fixed_length data"
    using ne by (auto simp: fixed_length_def Let_def nth_append activation_length_stable split: if_splits)
  ultimately show ?thesis
    using assms ne by (auto simp: legacyMessageLength_def split: message_length.splits if_splits)
qed

lemma legacyMessageLength_bound: "legacyMessageLength data = Len n \<Longrightarrow> n \<le> length data"
  by (auto simp: legacyMessageLength_def split: message_length.splits if_splits)

text \<open>The packets have their lengths.\<close>

lemma be_u16_alt: "i + 1 < length data \<Longrightarrow> be_u16 data i = be_nat (take 2 (drop i data))"
proof -
  assume "i + 1 < length data"
  then have "take 2 (drop i data) = [data ! i, data ! (i + 1)]"
    by (simp add: numeral_2_eq_2 Cons_nth_drop_Suc [symmetric])
  then show ?thesis using be_nat_snoc[of "[data ! i]" "data ! (i + 1)"] be_nat_snoc[of "[]" "data ! i"]
    by (simp add: be_u16_def be_nat_def)
qed

lemma be_u16_put:
  "n < 65536 \<Longrightarrow> be_u16 (pre @ be_bytes 2 (word_of_nat n :: 16 word) @ post) (length pre) = n"
  by (subst be_u16_alt) (simp_all add: be_nat_be_bytes unat_u16)

lemma be_u16_putString: "length s \<le> 2048 \<Longrightarrow> be_u16 (pre @ putString s @ post) (length pre) = length s"
  using be_u16_put[of "length s" pre "string_bytes s @ post"] by (simp add: putString_def)

lemma skip_filters_put:
  "list_all (correction_ok table) xs \<Longrightarrow>
     skip_filters (length xs) (pre @ concat (map putSlider xs) @ post) (length pre)
       = Len (length pre + length (concat (map putSlider xs)))"
proof (induction xs arbitrary: pre)
  case (Cons x xs)
  have nm: "length (fst x) \<le> 128" using Cons.prems by (simp add: correction_ok_def name_ok_def)
  have u: "be_u16 (pre @ putString (fst x) @ be_bytes 4 (snd x) @ concat (map putSlider xs) @ post) (length pre)
      = length (fst x)"
    using nm by (intro be_u16_putString) simp
  have "skip_filters (length xs) ((pre @ putSlider x) @ concat (map putSlider xs) @ post) (length (pre @ putSlider x))
      = Len (length (pre @ putSlider x) + length (concat (map putSlider xs)))"
    using Cons.IH[of "pre @ putSlider x"] Cons.prems by simp
  moreover have "putSlider x = putString (fst x) @ be_bytes 4 (snd x)" by (simp add: putSlider_def)
  ultimately show ?case
    using u nm by (simp add: length_put Let_def ac_simps)
qed simp

lemma length_message: "length (windows_message opts)
    = 40 + length (concat (map putSlider (w_filterSliderValues opts))) + length (w_activeEffectFilter opts)"
  by (simp add: windows_message_def length_put)

lemma activation_length_put:
  assumes "list_all (correction_ok table) (w_filterSliderValues opts)"
    and few: "length (w_filterSliderValues opts) \<le> 128" and eff: "effect_ok table (w_activeEffectFilter opts)"
  shows "activation_length (ACTIVATION_COMMAND # windows_message opts) = Len (1 + length (windows_message opts))"
proof -
  let ?n = "be_bytes 2 (word_of_nat (length (w_filterSliderValues opts)) :: 16 word)"
    and ?xs = "concat (map putSlider (w_filterSliderValues opts))" and ?e = "putString (w_activeEffectFilter opts)"
  let ?pre = "ACTIVATION_COMMAND # fixed_fields (wire_options opts)"
  have m: "ACTIVATION_COMMAND # windows_message opts = ?pre @ ?n @ ?xs @ ?e"
    by (simp add: windows_message_def putItems_def)
  have count: "be_u16 (?pre @ ?n @ ?xs @ ?e) 37 = length (w_filterSliderValues opts)"
    using be_u16_put[of "length (w_filterSliderValues opts)" ?pre "?xs @ ?e"] few by simp
  have skip: "skip_filters (length (w_filterSliderValues opts)) (?pre @ ?n @ ?xs @ ?e) 39 = Len (39 + length ?xs)"
    using skip_filters_put[OF assms(1), of "?pre @ ?n" ?e] by simp
  have effect: "be_u16 (?pre @ ?n @ ?xs @ ?e) (39 + length ?xs) = length (w_activeEffectFilter opts)"
    using be_u16_putString[of "w_activeEffectFilter opts" "?pre @ ?n @ ?xs" "[]"] eff
    by (simp add: effect_ok_def name_ok_def)
  show ?thesis
    unfolding m using count skip effect few eff
    by (simp add: activation_length_def length_put effect_ok_def name_ok_def length_message)
qed

lemma deliverable_parts:
  assumes "windows_deliverable table opts"
  shows "activation_packet opts = Inr (ACTIVATION_COMMAND # windows_message opts)"
    and "deserialize table (windows_message opts) = Inr (wire_received opts)"
    and "activation_length (ACTIVATION_COMMAND # windows_message opts) = Len (1 + length (windows_message opts))"
    and "length (windows_message opts) \<le> 17320"
proof -
  have ok: "\<not> invalid_options opts" "list_all slider_ok (w_filterSliderValues opts)"
    "list_all (correction_ok table) (w_filterSliderValues opts)" "effect_ok table (w_activeEffectFilter opts)"
    using assms unfolding deliverable_iff by blast+
  have few: "length (w_filterSliderValues opts) \<le> 128" using ok(1) by (simp add: invalid_options_def MAX_LIST_def)
  have eff: "length (w_activeEffectFilter opts) \<le> 128" using ok(4) by (simp add: effect_ok_def name_ok_def)
  show len: "length (windows_message opts) \<le> 17320"
    using sliders_short[OF ok(3)] few eff by (simp add: length_message)
  then show "activation_packet opts = Inr (ACTIVATION_COMMAND # windows_message opts)"
    using ok eff SerializeStreamOptions_iff[of opts "0 # windows_message opts"]
    by (simp add: activation_packet_def)
  show "deserialize table (windows_message opts) = Inr (wire_received opts)"
    using deserialize_message[OF ok(1,2)] eff len ok(3,4) by simp
  show "activation_length (ACTIVATION_COMMAND # windows_message opts) = Len (1 + length (windows_message opts))"
    using ok(3) few ok(4) by (rule activation_length_put)
qed

lemma unat_name_length: "length nm \<le> 128 \<Longrightarrow> unat (word_of_nat (length nm) :: byte) = length nm"
  by (simp add: unat_of_nat)

lemmas packets = SetResolution_def SetFPS_def SetBitrate_def SetAdaptiveBitrate_def SetStabilization_def
  SetFlash_def SetFocusMode_def SetH265Codec_def SwapCamera_def Rotate_def Zoom_def FlipHorizontally_def
  FlipVertically_def ApplyCorrectionFilter_def ApplyEffectFilter_def

lemma packet_small: "command_ok table c \<Longrightarrow> 1 \<le> length (packet c) \<and> length (packet c) \<le> 17321"
  by (cases c) (simp_all add: packets filter_name_ok_def deliverable_parts)

lemma fixed_length_packet: "command_ok table c \<Longrightarrow> fixed_length (packet c) = Len (length (packet c))"
proof (cases c)
  case (Connect_command opts)
  moreover assume "command_ok table c"
  ultimately have "packet c = ACTIVATION_COMMAND # windows_message opts"
    "activation_length (ACTIVATION_COMMAND # windows_message opts) = Len (1 + length (windows_message opts))"
    by (simp_all add: deliverable_parts)
  then show ?thesis by (simp add: fixed_length_def command_types)
qed (simp_all add: fixed_length_def command_types packets filter_name_ok_def unat_name_length)

lemma packet_length: "command_ok table c \<Longrightarrow> legacyMessageLength (packet c @ tail) = Len (length (packet c))"
proof -
  assume ok: "command_ok table c"
  then have "packet c \<noteq> []" using packet_small by fastforce
  with ok have "legacyMessageLength (packet c) = Len (length (packet c))"
    using packet_small[OF ok] by (simp add: legacyMessageLength_def fixed_length_packet)
  then show ?thesis using legacyMessageLength_stable[of "packet c" tail] by simp
qed

lemma packet_unfinished:
  assumes "command_ok table c" "n < length (packet c)"
  shows "legacyMessageLength (take n (packet c)) = Unfinished"
proof (rule ccontr)
  assume "legacyMessageLength (take n (packet c)) \<noteq> Unfinished"
  from legacyMessageLength_stable[OF this, of "drop n (packet c)"]
  have l: "legacyMessageLength (take n (packet c)) = Len (length (packet c))"
    using packet_length[OF assms(1), of "[]"] by simp
  from legacyMessageLength_bound[OF l] assms(2) show False by simp
qed

text \<open>The numbers in the packets.\<close>

lemma ucast_signed_drop_bit:
  "m + 8 \<le> 32 \<Longrightarrow> (ucast (signed_drop_bit m (v :: 32 word)) :: byte) = ucast (drop_bit m v)"
  by (rule bit_word_eqI) (auto simp: bit_simps)

lemma unat_two_bytes:
  "unat (ucast w :: byte) + 256 * unat (ucast (drop_bit 8 w) :: byte) = unat w mod 65536"
  using be_nat_be_bytes[of 2 w] be_nat_snoc[of "[ucast (drop_bit 8 w)]" "ucast w"]
    be_nat_snoc[of "[]" "ucast (drop_bit 8 w)"]
  by (simp add: be_bytes_2 be_nat_def)

lemma unat_16: "unat (w :: 16 word) mod 65536 = unat w"
proof -
  have "unat w < 65536" using unsigned_less[of w] by simp
  then show ?thesis by simp
qed

lemma unat_byte_small: "unat v < 256 \<Longrightarrow> unat (ucast v :: byte) = unat v"
  by (simp add: unsigned_ucast_eq take_bit_nat_eq_self)

lemma sint_byte:
  assumes "-128 \<le> sint (v :: 32 word)" "sint v \<le> 127"
  shows "sint (ucast v :: byte) = sint v"
proof -
  have "(ucast v :: byte) = word_of_int (sint v)" by transfer (simp add: take_bit_signed_take_bit)
  moreover have "sint (word_of_int k :: byte) = k" if "-128 \<le> k" "k \<le> 127" for k
    using that by transfer (simp add: signed_take_bit_int_eq_self)
  ultimately show ?thesis using assms by metis
qed

lemma be_word_zoom:
  "be_word (rev [ucast z, ucast (drop_bit 8 z), ucast (drop_bit 16 z), ucast (drop_bit 24 z)]) = (z :: 32 word)"
  using be_word_be_bytes[where w = z and n = 4] by (simp add: be_bytes_4)

lemma filter_name_of_put:
  "filter_name_ok nm \<Longrightarrow> length tail = extra \<Longrightarrow>
     filter_name_of extra (word_of_nat (length nm) # string_bytes nm @ tail) = Some nm"
  by (auto simp: filter_name_of_def filter_name_ok_def unat_name_length isValidUtf8_def Suc_le_eq)

lemma handle_packet:
  "command_ok table c \<Longrightarrow> handlePacket table (packet c ! 0) (drop 1 (packet c)) = Some (intended c)"
proof (cases c)
  case (Connect_command opts)
  moreover assume "command_ok table c"
  ultimately show ?thesis by (simp add: deliverable_parts handlePacket_def)
next
  case (Correction_command nm v)
  moreover assume "command_ok table c"
  ultimately show ?thesis
    using filter_name_of_put[of nm "[ucast v]" 1]
    by (simp add: handlePacket_def packets command_types sint_byte)
next
  case (Effect_command nm)
  moreover assume "command_ok table c"
  ultimately show ?thesis
    using filter_name_of_put[of nm "[]" 0] by (simp add: handlePacket_def packets command_types)
next
  case (Zoom_command z)
  moreover assume "command_ok table c"
  ultimately show ?thesis
    using be_word_zoom[of z]
    by (simp add: handlePacket_def packets command_types ucast_signed_drop_bit provided_def)
qed (simp_all add: handlePacket_def packets command_types provided_def le_u16_def ucast_signed_drop_bit
    unat_two_bytes unat_16 unat_byte_small Let_def)

section \<open>Streams of packets\<close>

definition packets_of :: "command list \<Rightarrow> bytes" where
  "packets_of cs = concat (map packet cs)"

lemma unfinished_Nil: "legacyMessageLength [] = Unfinished"
  by (simp add: legacyMessageLength_def)

lemma split_stream:
  "list_all (command_ok table) cs \<Longrightarrow> prefix data (packets_of cs) \<Longrightarrow>
     \<exists>k part. k \<le> length cs \<and> data = packets_of (take k cs) @ part
       \<and> legacyMessageLength part = Unfinished \<and> length part < 17321"
proof (induction cs arbitrary: data)
  case Nil
  then show ?case by (auto simp: packets_of_def unfinished_Nil)
next
  case (Cons c cs)
  have c: "command_ok table c" using Cons.prems by simp
  show ?case
  proof (cases "length data < length (packet c)")
    case True
    with Cons.prems(2) have "data = take (length data) (packet c)"
      by (auto simp: packets_of_def prefix_def append_eq_append_conv2)
    then have "legacyMessageLength data = Unfinished"
      using packet_unfinished[OF c True] by simp
    moreover have "length data < 17321" using True packet_small[OF c] by simp
    ultimately show ?thesis by (intro exI[of _ 0] exI[of _ data]) (simp add: packets_of_def)
  next
    case False
    obtain rest where rest: "packet c @ packets_of cs = data @ rest"
      using Cons.prems(2) by (auto simp: packets_of_def prefix_def)
    then have "data = packet c @ drop (length (packet c)) data"
      using False by (metis append_eq_append_conv_if append_take_drop_id not_less)
    then obtain data' where data: "data = packet c @ data'" by blast
    then have "prefix data' (packets_of cs)" using rest by (auto simp: prefix_def)
    with Cons.IH[of data'] Cons.prems(1) obtain k part where
      k: "k \<le> length cs" "data' = packets_of (take k cs) @ part" "legacyMessageLength part = Unfinished"
        "length part < 17321"
      unfolding list.pred_inject(2) by blast
    then show ?thesis
      by (intro exI[of _ "Suc k"] exI[of _ part]) (simp add: data packets_of_def)
  qed
qed

lemma handle_pending_step:
  assumes "command_ok table c"
  shows "handle_pending table (p\<lparr>legacyPending := packet c @ rest\<rparr>)
    = handle_pending table (p\<lparr>actions := actions p @ [intended c], legacyPending := rest\<rparr>)"
proof -
  have ne: "1 \<le> length (packet c)" using packet_small[OF assms] by simp
  then have hd: "(packet c @ rest) ! 0 = packet c ! 0" by (intro nth_append_left) auto
  have body: "take (length (packet c) - 1) (drop 1 (packet c @ rest)) = drop 1 (packet c)"
    using ne by (cases "packet c") simp_all
  show ?thesis
    using ne hd body handle_packet[OF assms] packet_length[OF assms, of rest]
    by (subst handle_pending.simps) simp
qed

lemma handle_pending_stream:
  "list_all (command_ok table) cs \<Longrightarrow> legacyMessageLength part = Unfinished \<Longrightarrow>
     handle_pending table (p\<lparr>legacyPending := packets_of cs @ part\<rparr>)
       = p\<lparr>actions := actions p @ map intended cs, legacyPending := part\<rparr>"
proof (induction cs arbitrary: p)
  case Nil
  then show ?case by (subst handle_pending.simps) (simp add: packets_of_def)
next
  case (Cons c cs)
  have "handle_pending table (p\<lparr>legacyPending := packets_of (c # cs) @ part\<rparr>)
      = handle_pending table ((p\<lparr>actions := actions p @ [intended c]\<rparr>)\<lparr>legacyPending := packets_of cs @ part\<rparr>)"
    using Cons.prems handle_pending_step[where table = table and c = c and p = p and rest = "packets_of cs @ part"] by (simp add: packets_of_def)
  also have "\<dots> = p\<lparr>actions := actions p @ map intended (c # cs), legacyPending := part\<rparr>"
    using Cons.IH[of "p\<lparr>actions := actions p @ [intended c]\<rparr>"] Cons.prems by simp
  finally show ?case .
qed

lemma phone_reads_stream:
  assumes "list_all (command_ok table) cs" "\<not> disconnected p" "length (legacyPending p) < 17321"
    and "legacyMessageLength (legacyPending p) = Unfinished"
    and "\<forall>bs \<in> set chunks. bs \<noteq> [] \<and> length bs \<le> 512"
    and "prefix (legacyPending p @ concat chunks) (packets_of cs)"
  shows "\<exists>k part. k \<le> length cs
    \<and> phone_reads table chunks p = p\<lparr>actions := actions p @ map intended (take k cs), legacyPending := part\<rparr>
    \<and> legacyPending p @ concat chunks = packets_of (take k cs) @ part \<and> legacyMessageLength part = Unfinished"
  using assms
proof (induction chunks arbitrary: p cs)
  case Nil
  then show ?case
    by (intro exI[of _ 0] exI[of _ "legacyPending p"]) (simp add: packets_of_def)
next
  case (Cons bs chunks)
  have pre: "prefix (legacyPending p @ bs) (packets_of cs)"
    using Cons.prems(6) by (auto simp: prefix_def)
  obtain k part where k: "k \<le> length cs" "legacyPending p @ bs = packets_of (take k cs) @ part"
      "legacyMessageLength part = Unfinished" "length part < 17321"
    using split_stream[OF Cons.prems(1) pre] by blast
  have ok: "list_all (command_ok table) (take k cs)" "list_all (command_ok table) (drop k cs)"
    using Cons.prems(1) by (auto simp: list_all_iff dest: in_set_takeD in_set_dropD)
  let ?p = "p\<lparr>actions := actions p @ map intended (take k cs), legacyPending := part\<rparr>"
  have "onLegacyBytesReceived table bs p = ?p"
    using Cons.prems(3,5) handle_pending_stream[OF ok(1) k(3), of p] k(2)
    by (simp add: onLegacyBytesReceived_def Suc_le_eq)
  then have run: "phone_reads table (bs # chunks) p = phone_reads table chunks ?p"
    using Cons.prems(2) by simp
  have all: "packets_of cs = packets_of (take k cs) @ packets_of (drop k cs)"
    by (simp add: packets_of_def flip: concat_append map_append)
  have data: "legacyPending p @ concat (bs # chunks) = packets_of (take k cs) @ part @ concat chunks"
    using arg_cong[OF k(2), of "\<lambda>x. x @ concat chunks"] by simp
  have "prefix (part @ concat chunks) (packets_of (drop k cs))"
    using Cons.prems(6) unfolding data all by simp
  with Cons.IH[of "drop k cs" ?p] ok(2) k Cons.prems(2,5) obtain j part' where
    j: "j \<le> length cs - k" "phone_reads table chunks ?p
        = ?p\<lparr>actions := actions ?p @ map intended (take j (drop k cs)), legacyPending := part'\<rparr>"
      "part @ concat chunks = packets_of (take j (drop k cs)) @ part'" "legacyMessageLength part' = Unfinished"
    by auto
  have take: "take (k + j) cs = take k cs @ take j (drop k cs)" by (rule take_add)
  show ?case
    unfolding data using run j k(1)
    by (intro exI[of _ "k + j"] exI[of _ part']) (simp add: take packets_of_def)
qed

lemma stream_finished:
  assumes "list_all (command_ok table) cs" "k \<le> length cs" "packets_of cs = packets_of (take k cs) @ part"
    and "legacyMessageLength part = Unfinished"
  shows "k = length cs \<and> part = []"
proof -
  have "packets_of cs = packets_of (take k cs) @ packets_of (drop k cs)"
    by (simp add: packets_of_def flip: concat_append map_append)
  then have part: "part = packets_of (drop k cs)" using assms(3) by simp
  have "k = length cs"
  proof (rule ccontr)
    assume "k \<noteq> length cs"
    then have d: "drop k cs = cs ! k # drop (Suc k) cs" using assms(2) by (simp add: Cons_nth_drop_Suc)
    have "command_ok table (cs ! k)" using assms(1,2) \<open>k \<noteq> length cs\<close> by (simp add: list_all_length)
    with packet_length assms(4) show False by (simp add: part d packets_of_def)
  qed
  then show ?thesis by (simp add: part packets_of_def)
qed

section \<open>Rotating\<close>

text \<open>\<open>Streamer.rotate\<close> on the rotation of the options; the left button of the window sends -90.\<close>

definition streamer_rotate :: "nat \<Rightarrow> int \<Rightarrow> int" where
  "streamer_rotate degrees rotation =
     (if degrees \<notin> {0, 90, 180, 270} then rotation else rotation + int degrees)"

lemma rotate_left_ignored:
  "handlePacket table (hd (Rotate (-90))) (tl (Rotate (-90))) = Some (rotate 166)
   \<and> streamer_rotate 166 r = r"
  by (simp add: Rotate_def handlePacket_def command_types provided_def streamer_rotate_def)

section \<open>Properties\<close>

text \<open>
  C25: The commands of the Windows client reach the phone: whatever admissible commands are sent
  one after the other (resolution, frame rate, bit rates, switches, zoom, filters and activations
  in the ranges the phone enforces) and however their packets are split into reads, the phone makes
  the intended calls of its streamer, in order and each once, keeps the connection open, and has
  made all of them when all bytes are there.
\<close>

theorem commands_obeyed:
  assumes "list_all (command_ok table) cs" "prefix (concat chunks) (concat (map packet cs))"
    and "\<forall>bs \<in> set chunks. bs \<noteq> [] \<and> length bs \<le> 512"
  shows "prefix (actions (phone_reads table chunks new_phone)) (map intended cs)
    \<and> \<not> disconnected (phone_reads table chunks new_phone)
    \<and> (concat chunks = concat (map packet cs) \<longrightarrow>
         actions (phone_reads table chunks new_phone) = map intended cs
         \<and> legacyPending (phone_reads table chunks new_phone) = [])"
proof -
  obtain k part where k: "k \<le> length cs"
      "phone_reads table chunks new_phone = new_phone\<lparr>actions := map intended (take k cs), legacyPending := part\<rparr>"
      "concat chunks = packets_of (take k cs) @ part" "legacyMessageLength part = Unfinished"
    using phone_reads_stream[OF assms(1), of new_phone chunks] assms(2,3)
    by (auto simp: new_phone_def unfinished_Nil packets_of_def)
  have "k = length cs \<and> part = []" if "concat chunks = concat (map packet cs)"
    by (rule stream_finished[OF assms(1) k(1) _ k(4)]) (use that k(3) in \<open>simp add: packets_of_def\<close>)
  moreover have "actions (phone_reads table chunks new_phone) = take k (map intended cs)"
    "\<not> disconnected (phone_reads table chunks new_phone)" "legacyPending (phone_reads table chunks new_phone) = part"
    unfolding k(2) by (simp_all add: new_phone_def take_map)
  ultimately show ?thesis by (simp add: take_is_prefix)
qed

definition demo_filters :: filter_table where
  "demo_filters nm = (if nm = ''Gamma'' then Some CORRECTION else if nm = ''Sepia'' then Some EFFECT else None)"

definition demo_commands :: "command list" where
  "demo_commands = [Connect_command windows_defaults, Bitrate_command 5000, Correction_command ''Gamma'' 70]"

lemma commands_obeyed_witness:
  "actions (phone_reads demo_filters
     [take 30 (concat (map packet demo_commands)), drop 30 (concat (map packet demo_commands))] new_phone)
   = [startStream (wire_received windows_defaults), setBitrate 5000, applyCorrectionFilter ''Gamma'' 70]"
proof -
  let ?chunks = "[take 30 (concat (map packet demo_commands)), drop 30 (concat (map packet demo_commands))]"
  have wd: "windows_deliverable demo_filters windows_defaults" by code_simp
  note deliverable = deliverable_parts[OF wd]
  have utf8: "isValidUtf8 ''Gamma''" by code_simp
  have ok: "list_all (command_ok demo_filters) demo_commands"
    using wd utf8 by (simp add: demo_commands_def filter_name_ok_def)
  have pre: "prefix (concat ?chunks) (concat (map packet demo_commands))" by simp
  have small: "\<forall>bs \<in> set ?chunks. bs \<noteq> [] \<and> length bs \<le> 512"
    by (simp add: demo_commands_def deliverable packets length_message)
      (simp add: windows_defaults_def)
  have "map intended demo_commands = [startStream (wire_received windows_defaults), setBitrate 5000, applyCorrectionFilter ''Gamma'' 70]"
    by (simp add: demo_commands_def)
  with commands_obeyed[OF ok pre small] show ?thesis by simp
qed

end
