(* ===== verification/Ordered_Map.thy ===== *)
theory Ordered_Map
  imports OC_Prelude "HOL-Library.List_Lexorder" "HOL-Library.Char_ord"
begin

text \<open>
  \<open>std::map\<close> as the list of its entries in the order of the keys, with \<open>map_put\<close> for the
  assignment \<open>m[k] = v\<close>. The facts the programs need are proved once in the locale
  \<open>ordered_map\<close>, from the laws of a container that keeps its entries in order.
\<close>

definition ascending :: "('k::linorder \<times> 'v) list \<Rightarrow> bool" where
  "ascending m \<longleftrightarrow> sorted_wrt (<) (map fst m)"

fun map_put :: "'k::linorder \<Rightarrow> 'v \<Rightarrow> ('k \<times> 'v) list \<Rightarrow> ('k \<times> 'v) list" where
  "map_put k v [] = [(k, v)]"
| "map_put k v ((k', v') # rest) =
     (if k < k' then (k, v) # (k', v') # rest
      else if k = k' then (k, v) # rest
      else (k', v') # map_put k v rest)"

lemma ascending_simps [simp]:
  "ascending []"
  "ascending (e # m) \<longleftrightarrow> (\<forall>k \<in> set (map fst m). fst e < k) \<and> ascending m"
  by (auto simp: ascending_def)

lemma ascending_distinct: "ascending m \<Longrightarrow> distinct (map fst m)"
  by (induction m) auto

text \<open>Two containers in order with the same entries are the same.\<close>

lemma ascending_unique:
  assumes "ascending m" "ascending m'" "map_of m = map_of m'"
  shows "m = m'"
proof (rule map_sorted_distinct_set_unique[of fst])
  show "inj_on fst (set m \<union> set m')"
    using assms ascending_distinct
    by (metis distinct_map map_of_eq_Some_iff subset_antisym sup.idem subrelI)
  show "sorted (map fst m)" "sorted (map fst m')"
    using assms by (auto simp: ascending_def strict_sorted_iff)
  show "distinct (map fst m)" "distinct (map fst m')"
    using assms by (simp_all add: ascending_distinct)
  show "set m = set m'"
    using assms ascending_distinct by (metis map_of_eqI map_of_eq_Some_iff subset_antisym subrelI)
qed

locale ordered_map =
  fixes put :: "'k::linorder \<Rightarrow> 'v \<Rightarrow> ('k \<times> 'v) list \<Rightarrow> ('k \<times> 'v) list"
  assumes put_lookup: "map_of (put k v m) = (map_of m)(k \<mapsto> v)"
    and put_ascending: "ascending m \<Longrightarrow> ascending (put k v m)"
begin

definition put_all :: "('k \<times> 'v) list \<Rightarrow> ('k \<times> 'v) list \<Rightarrow> ('k \<times> 'v) list" where
  "put_all es m = fold (\<lambda>(k, v). put k v) es m"

lemma put_all_lookup:
  "distinct (map fst es) \<Longrightarrow> map_of (put_all es m) = map_of m ++ map_of es"
proof (induction es arbitrary: m)
  case Nil
  then show ?case by (simp add: put_all_def)
next
  case (Cons e es)
  obtain k v where e: "e = (k, v)" by (cases e)
  have "map_of (put_all (e # es) m) = map_of (put k v m) ++ map_of es"
    using Cons by (simp add: put_all_def e)
  also have "\<dots> = map_of m ++ map_of (e # es)"
    using Cons.prems by (auto simp: put_lookup e map_add_def fun_eq_iff map_of_eq_None_iff[symmetric]
        split: option.splits)
  finally show ?case .
qed

lemma put_all_ascending: "ascending m \<Longrightarrow> ascending (put_all es m)"
  by (induction es arbitrary: m) (auto simp: put_all_def put_ascending)

text \<open>Entering the entries of a container one after the other rebuilds it.\<close>

lemma put_all_rebuilds: "ascending es \<Longrightarrow> put_all es [] = es"
  by (rule ascending_unique) (simp_all add: put_all_ascending put_all_lookup ascending_distinct)

lemma put_twice: "ascending m \<Longrightarrow> put k v (put k v' m) = put k v m"
  by (rule ascending_unique) (simp_all add: put_ascending put_lookup)

lemma put_again: "ascending m \<Longrightarrow> map_of m k = Some v \<Longrightarrow> put k v m = m"
  by (rule ascending_unique) (auto simp: put_ascending put_lookup)

end

lemma map_of_map_put [simp]: "map_of (map_put k v m) = (map_of m)(k \<mapsto> v)"
  by (induction k v m rule: map_put.induct) auto

lemma keys_map_put: "set (map fst (map_put k v m)) = insert k (set (map fst m))"
  by (induction k v m rule: map_put.induct) auto

lemma ascending_map_put: "ascending m \<Longrightarrow> ascending (map_put k v m)"
  by (induction k v m rule: map_put.induct) (auto simp: keys_map_put[simplified])

interpretation om: ordered_map map_put
  by unfold_locales (simp_all add: ascending_map_put)

lemma set_map_put: "e \<in> set (map_put k v m) \<Longrightarrow> e = (k, v) \<or> e \<in> set m"
  by (induction k v m rule: map_put.induct) (auto split: if_splits)

lemma length_map_put: "length (map_put k v m) \<le> Suc (length m)"
  by (induction k v m rule: map_put.induct) auto

end
