(* ===== verification/Windows_Server.thy ===== *)
theory Windows_Server
  imports Windows_Connection Windows_Commands Ordered_Map
begin

text \<open>
  The server of the Windows client (\<open>windows/src/net/server.cpp\<close>), the list of devices of
  \<open>RTSP::Manager\<close> (\<open>windows/src/rtsp/manager.cpp\<close>) and the handlers of \<open>Application\<close>
  (\<open>windows/src/application.cpp\<close>) that keep the two in step: a device connects with its
  descriptor, disconnects, is selected, and gets commands.
\<close>

section \<open>Receiving the descriptor\<close>

text \<open>
  One pass of the loop of \<open>readExact\<close> gets an answer: the time, whether \<open>select\<close> reports the
  socket readable, and how many bytes \<open>read_some\<close> may return, or \<open>None\<close> when it throws. Without
  a further answer \<open>select\<close> runs into the deadline.
\<close>

datatype answer = Answer nat bool "nat option"

datatype accept_error =
  Descriptor_timeout | Descriptor_EOF | Read_error | Invalid_frame_length | Invalid_descriptor serializer_error

fun readExact ::
  "nat \<Rightarrow> nat \<Rightarrow> bytes \<Rightarrow> answer list \<Rightarrow> bytes \<Rightarrow> accept_error + bytes \<times> answer list \<times> bytes" where
  "readExact deadline amount destination [] stream =
     (if length destination < amount then Inl Descriptor_timeout else Inr (destination, [], stream))"
| "readExact deadline amount destination (Answer now ready count # answers) stream =
     (if length destination < amount then
        if now \<ge> deadline then Inl Descriptor_timeout
        else if \<not> ready then Inl Descriptor_timeout
        else case count of
            None \<Rightarrow> Inl Read_error
          | Some n \<Rightarrow>
              let got = take (min n (amount - length destination)) stream
              in if got = [] then Inl Descriptor_EOF
                 else readExact deadline amount (destination @ got) answers (drop (length got) stream)
      else Inr (destination, Answer now ready count # answers, stream))"

definition DEADLINE_US :: nat where "DEADLINE_US = 8000000"

text \<open>The descriptor and the rest of the stream, which the connection goes on reading.\<close>

definition receive_descriptor ::
  "nat \<Rightarrow> answer list \<Rightarrow> bytes \<Rightarrow> accept_error + windows_descriptor \<times> bytes" where
  "receive_descriptor now answers stream =
     (let deadline = now + DEADLINE_US
      in case readExact deadline 4 [] answers stream of
          Inl e \<Rightarrow> Inl e
        | Inr (lengthBytes, answers, stream) \<Rightarrow>
            let descriptorLength = be_word lengthBytes :: 32 word
            in if descriptorLength = 0 \<or> descriptorLength > 64 * 1024 then Inl Invalid_frame_length
               else case readExact deadline (unat descriptorLength) [] answers stream of
                   Inl e \<Rightarrow> Inl e
                 | Inr (received_bytes, answers, stream) \<Rightarrow>
                     case DeserializeDeviceDescriptor received_bytes of
                       Inl e \<Rightarrow> Inl (Invalid_descriptor e)
                     | Inr descriptor \<Rightarrow> Inr (descriptor, stream))"

text \<open>What is received is the front of the stream, whole.\<close>

lemma readExact_step:
  assumes "length destination < amount" "now < deadline" "ready" "take (min n (amount - length destination)) stream \<noteq> []"
  shows "readExact deadline amount destination (Answer now ready (Some n) # answers) stream
    = readExact deadline amount (destination @ take (min n (amount - length destination)) stream) answers
        (drop (length (take (min n (amount - length destination)) stream)) stream)"
  unfolding readExact.simps Let_def using assms by (simp only: option.case not_le[symmetric] if_True if_False not_True_eq_False not_False_eq_True)

lemma readExact_front:
  "readExact deadline amount destination answers stream = Inr (bs, answers', rest) \<Longrightarrow>
     length destination \<le> amount \<Longrightarrow> destination @ stream = bs @ rest \<and> length bs = amount"
proof (induction deadline amount destination answers stream arbitrary: bs answers' rest rule: readExact.induct)
  case (2 deadline amount destination now ready count answers stream)
  show ?case
  proof (cases "length destination < amount")
    case True
    then obtain n where n: "count = Some n" "now < deadline" "ready"
      "take (min n (amount - length destination)) stream \<noteq> []"
      using 2(2) by (auto simp: Let_def not_le split: if_splits option.splits)
    let ?got = "take (min n (amount - length destination)) stream"
    have r: "readExact deadline amount (destination @ ?got) answers (drop (length ?got) stream) = Inr (bs, answers', rest)"
      using 2(2) unfolding n(1) readExact_step[OF True n(2,3,4)] .
    have l: "length (destination @ ?got) \<le> amount" using True by simp
    have "(destination @ ?got) @ drop (length ?got) stream = bs @ rest \<and> length bs = amount"
      by (rule 2(1)[OF True _ _ n(1) refl n(4) r l]) (use n(2,3) in simp_all)
    moreover have "take m xs @ drop (length (take m xs)) xs = xs" for m and xs :: bytes
      by (cases "m \<le> length xs") simp_all
    ultimately show ?thesis unfolding append_assoc by simp
  qed (use 2 in auto)
qed (auto split: if_splits)

lemma receive_descriptor_sound:
  assumes "receive_descriptor now answers stream = Inr (d, rest)"
  shows "\<exists>raw. stream = be_bytes 4 (word_of_nat (length raw) :: 32 word) @ raw @ rest
    \<and> raw \<noteq> [] \<and> length raw \<le> 65536 \<and> DeserializeDeviceDescriptor raw = Inr d"
proof -
  let ?dl = "now + DEADLINE_US"
  obtain lb a1 s1 where one: "readExact ?dl 4 [] answers stream = Inr (lb, a1, s1)"
    using assms by (auto simp: receive_descriptor_def Let_def split: sum.splits)
  then have valid: "(be_word lb :: 32 word) \<noteq> 0" "(be_word lb :: 32 word) \<le> 64 * 1024"
    using assms by (auto simp: receive_descriptor_def Let_def not_less split: if_splits)
  obtain raw a2 where two: "readExact ?dl (unat (be_word lb :: 32 word)) [] a1 s1 = Inr (raw, a2, rest)"
    and d: "DeserializeDeviceDescriptor raw = Inr d"
    using assms one valid
    by (auto simp: receive_descriptor_def Let_def not_less split: if_splits sum.splits)
  have "stream = lb @ s1 \<and> length lb = 4" using readExact_front[OF one] by simp
  moreover have "s1 = raw @ rest \<and> length raw = unat (be_word lb :: 32 word)" using readExact_front[OF two] by simp
  moreover have "be_bytes 4 (be_word lb :: 32 word) = lb" if "length lb = 4"
    using that by (simp add: be_bytes_be_word)
  moreover have "unat (be_word lb :: 32 word) \<le> 65536" using valid(2) by (simp add: word_le_nat_alt)
  moreover have "unat (be_word lb :: 32 word) \<noteq> 0" using valid(1) by (simp add: unat_eq_0)
  ultimately show ?thesis using d by (intro exI[of _ raw]) auto
qed

section \<open>Connections and descriptors\<close>

text \<open>
  A connected device: the identity of its connection object, the descriptor the connection keeps,
  and the packets sent to it. The connections of the server and the descriptors of the manager
  are two vectors; \<open>streamingDevice\<close> is an index into both.
\<close>

record client =
  client_id :: nat
  client_descriptor :: windows_descriptor
  client_packets :: "bytes list"

record application =
  connections :: "client list"
  descriptors :: "windows_descriptor list"
  streamingDevice :: int
  stateRegistry :: "string \<rightharpoonup> windows_options"

definition start_application :: "(string \<rightharpoonup> windows_options) \<Rightarrow> application" where
  "start_application registry =
     \<lparr>connections = [], descriptors = [], streamingDevice = -1, stateRegistry = registry\<rparr>"

definition same_device :: "windows_descriptor \<Rightarrow> windows_descriptor \<Rightarrow> bool" where
  "same_device d e \<longleftrightarrow> deviceUrl d = deviceUrl e \<and> deviceName d = deviceName e"

definition AddDescriptor :: "windows_descriptor \<Rightarrow> application \<Rightarrow> application" where
  "AddDescriptor d app = app\<lparr>descriptors := descriptors app @ [d]\<rparr>"

text \<open>
  \<open>RemoveDescriptor\<close> calls \<open>erase\<close> with the iterator that \<open>remove\<close> returns, alone: this erases one
  element, which must exist. With several equal descriptors all but one of the places behind the
  kept ones remain, holding \<open>residue\<close>, which the language leaves open.
\<close>

definition RemoveDescriptor ::
  "(windows_descriptor list \<Rightarrow> windows_descriptor list) \<Rightarrow> windows_descriptor \<Rightarrow> application \<Rightarrow> application option" where
  "RemoveDescriptor residue d app =
     (let kept = filter (\<lambda>e. \<not> same_device e d) (descriptors app);
          removed = length (descriptors app) - length kept
      in if removed = 0 then None
         else Some (app\<lparr>descriptors := kept @ take (removed - 1) (residue (descriptors app))\<rparr>))"

text \<open>\<open>Server::Send\<close>: a packet for an index that is no connection is dropped.\<close>

definition server_send :: "int \<Rightarrow> bytes \<Rightarrow> application \<Rightarrow> application" where
  "server_send i bs app =
     (if 0 \<le> i \<and> i < int (length (connections app))
      then let c = connections app ! nat i
           in app\<lparr>connections := (connections app)[nat i := c\<lparr>client_packets := client_packets c @ [bs]\<rparr>]\<rparr>
      else app)"

definition send_command :: "command \<Rightarrow> application \<Rightarrow> application" where
  "send_command c app = server_send (streamingDevice app) (packet c) app"

section \<open>Selecting a device\<close>

text \<open>A \<open>float\<close> below \<open>1.0f\<close>, by its bits: a smaller positive number, or a negative one.\<close>

definition zoom_below_one :: "32 word \<Rightarrow> bool" where
  "zoom_below_one z \<longleftrightarrow> z < 0x3F800000 \<or> (0x80000000 \<le> z \<and> z \<le> 0xFF800000)"

definition EnsureStateInitialized :: "windows_descriptor \<Rightarrow> windows_options \<Rightarrow> windows_options" where
  "EnsureStateInitialized d state =
     (let state = (if zoom_below_one (w_zoom state) then state\<lparr>w_zoom := 0x3F800000\<rparr> else state)
      in case availableFilters d 1 of
          None \<Rightarrow> state
        | Some names \<Rightarrow>
            fold (\<lambda>fname state.
                if map_of (w_filterSliderValues state) fname = None
                then state\<lparr>w_filterSliderValues := map_put fname 50 (w_filterSliderValues state)\<rparr>
                else state) names state)"

definition int_resolution :: "Resolution \<Rightarrow> 32 word \<times> 32 word" where
  "int_resolution r = (ucast (width r), ucast (height r))"

definition choose_resolution :: "windows_descriptor \<Rightarrow> windows_options \<Rightarrow> windows_options" where
  "choose_resolution d state =
     (let resList = (if w_backCameraActive state then availableBackResolutions d else availableFrontResolutions d)
      in case resList of
          [] \<Rightarrow> state
        | first # _ \<Rightarrow>
            if list_ex (\<lambda>r. int_resolution r = w_resolution state) resList then state
            else state\<lparr>w_resolution := int_resolution first\<rparr>)"

text \<open>\<open>Connect2Stream\<close>: the device is selected before the options turn out to be valid or not.\<close>

definition Connect2Stream :: "nat \<Rightarrow> windows_options \<Rightarrow> application \<Rightarrow> application" where
  "Connect2Stream i opts app =
     (let app = app\<lparr>streamingDevice := int i\<rparr>
      in case activation_packet opts of
          Inl e \<Rightarrow> app
        | Inr p \<Rightarrow> server_send (streamingDevice app) p app)"

definition OnSourceChanged :: "int \<Rightarrow> application \<Rightarrow> application option" where
  "OnSourceChanged selection app =
     (let deviceId = selection - 1
      in if deviceId = -1 \<or> descriptors app = [] then Some app
         else if \<not> (0 \<le> deviceId \<and> deviceId < int (length (descriptors app))) then None
         else
           let d = descriptors app ! nat deviceId;
               old = (case stateRegistry app (deviceName d) of None \<Rightarrow> windows_defaults | Some s \<Rightarrow> s);
               state = choose_resolution d (EnsureStateInitialized d old)
           in Some (Connect2Stream (nat deviceId) state
                (app\<lparr>stateRegistry := (stateRegistry app)(deviceName d \<mapsto> state)\<rparr>)))"

section \<open>Connecting and disconnecting\<close>

definition device_connected :: "nat \<Rightarrow> windows_descriptor \<Rightarrow> application \<Rightarrow> application" where
  "device_connected cid d app =
     AddDescriptor d (app\<lparr>connections := connections app
       @ [\<lparr>client_id = cid, client_descriptor = d, client_packets = []\<rparr>]\<rparr>)"

text \<open>
  \<open>OnDeviceDisconnected\<close> looks at the descriptor of the streaming device, whose index must be one
  of the vector.
\<close>

definition OnDeviceDisconnected ::
  "(windows_descriptor list \<Rightarrow> windows_descriptor list) \<Rightarrow> windows_descriptor \<Rightarrow> application \<Rightarrow> application option" where
  "OnDeviceDisconnected residue d app =
     (if streamingDevice app \<ge> 0 \<and> streamingDevice app \<ge> int (length (descriptors app)) then None
      else RemoveDescriptor residue d app)"

definition OnConnectionDisconnected ::
  "(windows_descriptor list \<Rightarrow> windows_descriptor list) \<Rightarrow> client \<Rightarrow> application \<Rightarrow> application option" where
  "OnConnectionDisconnected residue c app =
     OnDeviceDisconnected residue (client_descriptor c)
       (app\<lparr>connections := filter (\<lambda>c'. client_id c' \<noteq> client_id c) (connections app)\<rparr>)"

text \<open>The events of a run; \<open>None\<close> is undefined behaviour.\<close>

datatype event = Connects nat windows_descriptor | Disconnects nat | Selects int | Commands command

fun app_step ::
  "(windows_descriptor list \<Rightarrow> windows_descriptor list) \<Rightarrow> event \<Rightarrow> application \<Rightarrow> application option" where
  "app_step residue (Connects cid d) app = Some (device_connected cid d app)"
| "app_step residue (Disconnects cid) app =
     (case List.find (\<lambda>c. client_id c = cid) (connections app) of
        None \<Rightarrow> Some app
      | Some c \<Rightarrow> OnConnectionDisconnected residue c app)"
| "app_step residue (Selects selection) app = OnSourceChanged selection app"
| "app_step residue (Commands c) app = Some (send_command c app)"

fun app_run ::
  "(windows_descriptor list \<Rightarrow> windows_descriptor list) \<Rightarrow> event list \<Rightarrow> application \<Rightarrow> application option" where
  "app_run residue [] app = Some app"
| "app_run residue (ev # evs) app =
     (case app_step residue ev app of None \<Rightarrow> None | Some app \<Rightarrow> app_run residue evs app)"

section \<open>The two vectors stay in step\<close>

definition device_key :: "windows_descriptor \<Rightarrow> string \<times> string" where
  "device_key d = (deviceUrl d, deviceName d)"

lemma same_device_key: "same_device d e \<longleftrightarrow> device_key d = device_key e"
  by (simp add: same_device_def device_key_def)

fun connecting :: "event list \<Rightarrow> (nat \<times> windows_descriptor) list" where
  "connecting [] = []"
| "connecting (Connects cid d # evs) = (cid, d) # connecting evs"
| "connecting (_ # evs) = connecting evs"

text \<open>Every connection object is a new one, and no two devices announce the same name and address.\<close>

definition different_devices :: "event list \<Rightarrow> bool" where
  "different_devices evs \<longleftrightarrow> distinct (map fst (connecting evs))
     \<and> distinct (map (device_key \<circ> snd) (connecting evs))"

definition in_step :: "application \<Rightarrow> bool" where
  "in_step app \<longleftrightarrow> descriptors app = map client_descriptor (connections app)
     \<and> distinct (map client_id (connections app))
     \<and> distinct (map (device_key \<circ> client_descriptor) (connections app))"

lemma server_send_frame:
  "map client_id (connections (server_send i bs app)) = map client_id (connections app)"
  "map client_descriptor (connections (server_send i bs app)) = map client_descriptor (connections app)"
  "descriptors (server_send i bs app) = descriptors app"
  "streamingDevice (server_send i bs app) = streamingDevice app"
  "length (connections (server_send i bs app)) = length (connections app)"
  by (auto simp: server_send_def Let_def map_update list_update_same_conv intro!: list_update_same_conv[THEN iffD2])

lemma map_comp_client: "map (device_key \<circ> client_descriptor) cs = map device_key (map client_descriptor cs)"
  by simp

lemma in_step_cong:
  assumes "map client_id (connections app') = map client_id (connections app)"
    and "map client_descriptor (connections app') = map client_descriptor (connections app)"
    and "descriptors app' = descriptors app"
  shows "in_step app' = in_step app"
  unfolding in_step_def map_comp_client assms by simp

lemma Connect2Stream_frame:
  "map client_id (connections (Connect2Stream i opts app)) = map client_id (connections app)"
  "map client_descriptor (connections (Connect2Stream i opts app)) = map client_descriptor (connections app)"
  "descriptors (Connect2Stream i opts app) = descriptors app"
  "streamingDevice (Connect2Stream i opts app) = int i"
  by (auto simp: Connect2Stream_def Let_def server_send_frame split: sum.splits)

lemma OnSourceChanged_frame:
  assumes "OnSourceChanged selection app = Some app'"
  shows "map client_id (connections app') = map client_id (connections app)"
    and "map client_descriptor (connections app') = map client_descriptor (connections app)"
    and "descriptors app' = descriptors app"
    and "streamingDevice app' = (if selection = 0 \<or> descriptors app = [] then streamingDevice app else selection - 1)"
  using assms by (auto simp: OnSourceChanged_def Let_def Connect2Stream_frame split: if_splits)

text \<open>Disconnecting takes the device out of both vectors, at the same place.\<close>

lemma filter_different:
  assumes "distinct (map f xs)" "j < length xs"
  shows "filter (\<lambda>x. f x \<noteq> f (xs ! j)) xs = take j xs @ drop (Suc j) xs"
proof -
  have d: "distinct (map f (take j xs @ xs ! j # drop (Suc j) xs))"
    using assms by (simp flip: id_take_nth_drop)
  then have "f (xs ! j) \<notin> f ` set (take j xs @ drop (Suc j) xs)" by auto
  then have f: "\<forall>x \<in> set (take j xs @ drop (Suc j) xs). f x \<noteq> f (xs ! j)" by (metis imageI)
  have "filter (\<lambda>x. f x \<noteq> f (xs ! j)) (take j xs @ xs ! j # drop (Suc j) xs)
      = filter (\<lambda>x. f x \<noteq> f (xs ! j)) (take j xs @ drop (Suc j) xs)"
    by simp
  also have "\<dots> = take j xs @ drop (Suc j) xs" using f by (simp only: filter_id_conv)
  finally show ?thesis using assms(2) by (simp flip: id_take_nth_drop)
qed

lemma disconnect_in_step:
  assumes "in_step app" "j < length (connections app)"
  shows "app_step residue (Disconnects (client_id (connections app ! j))) app =
    (if streamingDevice app \<ge> 0 \<and> streamingDevice app \<ge> int (length (descriptors app)) then None
     else Some (app\<lparr>connections := take j (connections app) @ drop (Suc j) (connections app),
       descriptors := take j (descriptors app) @ drop (Suc j) (descriptors app)\<rparr>))"
proof -
  let ?c = "connections app ! j"
  have ids: "distinct (map client_id (connections app))"
    and keys: "distinct (map device_key (descriptors app))"
    and len: "length (descriptors app) = length (connections app)"
    and dj: "client_descriptor ?c = descriptors app ! j"
    using assms by (simp_all add: in_step_def)
  have find: "List.find (\<lambda>c. client_id c = client_id ?c) (connections app) = Some ?c"
    unfolding find_Some_iff
  proof (intro exI[of _ j] conjI allI impI)
    fix i assume "i < j"
    then show "client_id (connections app ! i) \<noteq> client_id ?c"
      using nth_eq_iff_index_eq[OF ids, of i j] assms(2) by simp
  qed (use assms(2) in simp_all)
  have conns: "filter (\<lambda>c'. client_id c' \<noteq> client_id ?c) (connections app)
      = take j (connections app) @ drop (Suc j) (connections app)"
    using filter_different[OF ids assms(2)] .
  have descr: "filter (\<lambda>e. \<not> same_device e (descriptors app ! j)) (descriptors app)
      = take j (descriptors app) @ drop (Suc j) (descriptors app)"
    using filter_different[OF keys] assms(2) len by (simp add: same_device_key)
  have one: "\<not> length (connections app) \<le> length (connections app) - Suc 0" using assms(2) by auto
  show ?thesis
    using assms(2) len one
    by (simp add: find OnConnectionDisconnected_def OnDeviceDisconnected_def RemoveDescriptor_def conns dj descr Let_def)
qed

lemma drop_index_distinct: "distinct (map f xs) \<Longrightarrow> distinct (map f (take j xs @ drop (Suc j) xs))"
proof -
  assume "distinct (map f xs)"
  then have "distinct (take j (map f xs) @ drop (Suc j) (map f xs))"
    by (auto dest: set_take_disj_set_drop_if_distinct[of "map f xs" j "Suc j"])
  then show ?thesis by (simp add: take_map drop_map)
qed

lemma step_in_step:
  assumes "in_step app" "app_step residue ev app = Some app'"
    and new: "distinct (map client_id (connections app) @ map fst (connecting [ev]))"
      "distinct (map device_key (descriptors app) @ map (device_key \<circ> snd) (connecting [ev]))"
  shows "in_step app'"
    and "set (map client_id (connections app')) \<subseteq> set (map client_id (connections app) @ map fst (connecting [ev]))"
    and "set (map device_key (descriptors app'))
      \<subseteq> set (map device_key (descriptors app) @ map (device_key \<circ> snd) (connecting [ev]))"
proof -
  have all: "in_step app' \<and> set (map client_id (connections app')) \<subseteq> set (map client_id (connections app) @ map fst (connecting [ev]))
    \<and> set (map device_key (descriptors app'))
      \<subseteq> set (map device_key (descriptors app) @ map (device_key \<circ> snd) (connecting [ev]))"
  proof (cases ev)
    case (Connects cid d)
    with assms show ?thesis
      by (auto simp: in_step_def device_connected_def AddDescriptor_def)
  next
    case (Disconnects cid)
    show ?thesis
    proof (cases "cid \<in> set (map client_id (connections app))")
      case True
      then obtain j where j: "j < length (connections app)" "cid = client_id (connections app ! j)"
        by (auto simp: in_set_conv_nth)
      have app': "app' = app\<lparr>connections := take j (connections app) @ drop (Suc j) (connections app),
          descriptors := take j (descriptors app) @ drop (Suc j) (descriptors app)\<rparr>"
        using assms(2) disconnect_in_step[OF assms(1) j(1), of residue] Disconnects j(2)
        by (simp del: app_step.simps split: if_splits)
      show ?thesis
        using assms(1) drop_index_distinct[of client_id "connections app" j]
          drop_index_distinct[of "device_key \<circ> client_descriptor" "connections app" j] Disconnects
        by (auto simp: app' in_step_def take_map drop_map dest: in_set_takeD in_set_dropD)
    next
      case False
      then have "List.find (\<lambda>c. client_id c = cid) (connections app) = None"
        by (auto simp: find_None_iff)
      with assms Disconnects show ?thesis by simp
    qed
  next
    case (Selects selection)
    then have s: "OnSourceChanged selection app = Some app'" using assms(2) by simp
    note f = OnSourceChanged_frame[OF s]
    show ?thesis using assms(1) in_step_cong[OF f(1,2,3)] Selects f(1,3) by simp
  next
    case (Commands c)
    then have "app' = server_send (streamingDevice app) (packet c) app"
      using assms(2) by (simp add: send_command_def)
    note f = server_send_frame[of "streamingDevice app" "packet c" app, folded this]
    show ?thesis using assms(1) in_step_cong[OF f(1,2,3)] Commands f by simp
  qed
  then show "in_step app'"
    "set (map client_id (connections app')) \<subseteq> set (map client_id (connections app) @ map fst (connecting [ev]))"
    "set (map device_key (descriptors app'))
      \<subseteq> set (map device_key (descriptors app) @ map (device_key \<circ> snd) (connecting [ev]))"
    by blast+
qed

lemma connecting_Cons: "connecting (ev # evs) = connecting [ev] @ connecting evs"
  by (cases ev) simp_all

lemma distinct_moved:
  "distinct (a @ n @ m) \<Longrightarrow> distinct a' \<Longrightarrow> set a' \<subseteq> set (a @ n) \<Longrightarrow> distinct (a' @ m)"
  by auto

lemma run_in_step:
  "in_step app \<Longrightarrow> app_run residue evs app = Some app' \<Longrightarrow>
     distinct (map client_id (connections app) @ map fst (connecting evs)) \<Longrightarrow>
     distinct (map device_key (descriptors app) @ map (device_key \<circ> snd) (connecting evs)) \<Longrightarrow> in_step app'"
proof (induction evs arbitrary: app)
  case (Cons ev evs)
  then obtain app1 where one: "app_step residue ev app = Some app1" and rest: "app_run residue evs app1 = Some app'"
    by (auto split: option.splits)
  have new: "distinct (map client_id (connections app) @ map fst (connecting [ev]))"
      "distinct (map device_key (descriptors app) @ map (device_key \<circ> snd) (connecting [ev]))"
    using Cons.prems(3,4) by (auto simp: connecting_Cons[of ev evs] comp_def)
  note s = step_in_step[OF Cons.prems(1) one new]
  have "distinct (map client_id (connections app1))" "distinct (map device_key (descriptors app1))"
    using s(1) by (auto simp: in_step_def)
  then show ?case
    using Cons.prems(3,4)
    by (intro Cons.IH[OF s(1) rest] distinct_moved[OF _ _ s(2)] distinct_moved[OF _ _ s(3)])
      (simp_all only: connecting_Cons[of ev evs] map_append)
qed simp

lemma reached_in_step:
  assumes "different_devices evs" "app_run residue evs (start_application registry) = Some app"
  shows "in_step app"
  by (rule run_in_step[OF _ assms(2)])
    (use assms(1) in \<open>simp_all add: in_step_def start_application_def different_devices_def\<close>)

definition demo_windows_device :: "string \<Rightarrow> windows_descriptor" where
  "demo_windows_device nm = \<lparr>deviceName = nm, deviceUrl = ''rtsp://phone'', rtspProtocol = ''tcp'',
     availableFrontResolutions = [], availableBackResolutions = [\<lparr>width = 1280, height = 720\<rparr>],
     availableFilters = Map.empty\<rparr>"

text \<open>Two devices connect and the first is selected.\<close>

definition demo_device_events :: "event list" where
  "demo_device_events = [Connects 10 (demo_windows_device ''One''), Connects 20 (demo_windows_device ''Two''), Selects 1]"

lemma demo_different: "different_devices demo_device_events"
  by (simp add: different_devices_def demo_device_events_def device_key_def demo_windows_device_def)

lemma select_first: "descriptors app = d # ds \<Longrightarrow> \<exists>app'. OnSourceChanged 1 app = Some app'"
  by (simp add: OnSourceChanged_def Let_def)

lemma two_devices:
  "\<exists>app. app_run (\<lambda>_. []) demo_device_events (start_application Map.empty) = Some app
     \<and> map client_id (connections app) = [10, 20] \<and> streamingDevice app = 0
     \<and> map client_descriptor (connections app) = [demo_windows_device ''One'', demo_windows_device ''Two'']"
proof -
  let ?app = "device_connected 20 (demo_windows_device ''Two'') (device_connected 10 (demo_windows_device ''One'') (start_application Map.empty))"
  have app: "map client_id (connections ?app) = [10, 20]" "descriptors ?app = [demo_windows_device ''One'', demo_windows_device ''Two'']"
    "map client_descriptor (connections ?app) = [demo_windows_device ''One'', demo_windows_device ''Two'']"
    by (simp_all add: device_connected_def AddDescriptor_def start_application_def)
  obtain app' where s: "OnSourceChanged 1 ?app = Some app'"
    using select_first[OF app(2)] by blast
  have "app_run (\<lambda>_. []) demo_device_events (start_application Map.empty) = Some app'"
    using s by (simp add: demo_device_events_def)
  with OnSourceChanged_frame[OF s] app show ?thesis by auto
qed

section \<open>Properties\<close>

text \<open>The device that gets the packets.\<close>

definition receiver :: "application \<Rightarrow> nat option" where
  "receiver app = (let s = streamingDevice app
     in if 0 \<le> s \<and> s < int (length (connections app)) then Some (client_id (connections app ! nat s)) else None)"

lemma receiver_alt: "receiver app = (let s = streamingDevice app; ids = map client_id (connections app)
    in if 0 \<le> s \<and> s < int (length ids) then Some (ids ! nat s) else None)"
  by (auto simp: receiver_def Let_def nat_less_iff)

lemma server_send_receiver:
  "server_send (streamingDevice app) bs app = app\<lparr>connections := map (\<lambda>c.
     if receiver app = Some (client_id c) then c\<lparr>client_packets := client_packets c @ [bs]\<rparr> else c) (connections app)\<rparr>"
  if "distinct (map client_id (connections app))"
proof (cases "receiver app")
  case None
  then show ?thesis by (auto simp: server_send_def receiver_def Let_def split: if_splits)
next
  case (Some i)
  let ?s = "nat (streamingDevice app)"
  have s: "0 \<le> streamingDevice app" "?s < length (connections app)" "i = client_id (connections app ! ?s)"
    using Some by (auto simp: receiver_def Let_def nat_less_iff split: if_splits)
  have "(connections app)[?s := (connections app ! ?s)\<lparr>client_packets := client_packets (connections app ! ?s) @ [bs]\<rparr>]
      = map (\<lambda>c. if i = client_id c then c\<lparr>client_packets := client_packets c @ [bs]\<rparr> else c) (connections app)"
    using s nth_eq_iff_index_eq[OF that, of ?s]
    by (intro nth_equalityI) (auto simp: nth_list_update)
  then show ?thesis using s(1,2) Some by (simp add: server_send_def Let_def nat_less_iff)
qed

text \<open>
  C26: As long as devices announce different names or addresses, the connections of the server and
  the device list of the manager stay in step: after any run of connects, disconnects, selections
  and commands that ends, the list shown to the user holds the descriptors of the connections in
  their order, each disconnect has removed exactly its own device, and a command goes to the
  connection at the place of the selected device and to no other.
\<close>

theorem devices_in_step:
  assumes "different_devices evs" "app_run residue evs (start_application registry) = Some app"
  shows "descriptors app = map client_descriptor (connections app)
    \<and> distinct (map client_id (connections app))
    \<and> distinct (map (device_key \<circ> client_descriptor) (connections app))
    \<and> connections (send_command c app) = map (\<lambda>cl. if receiver app = Some (client_id cl)
         then cl\<lparr>client_packets := client_packets cl @ [packet c]\<rparr> else cl) (connections app)"
proof -
  have "in_step app"
    using assms(1,2) by (rule reached_in_step)
  then have st: "descriptors app = map client_descriptor (connections app)"
    "distinct (map client_id (connections app))" "distinct (map (device_key \<circ> client_descriptor) (connections app))"
    unfolding in_step_def by blast+
  have "connections (send_command c app) = map (\<lambda>cl. if receiver app = Some (client_id cl)
      then cl\<lparr>client_packets := client_packets cl @ [packet c]\<rparr> else cl) (connections app)"
    unfolding send_command_def server_send_receiver[OF st(2)] by simp
  with st show ?thesis by blast
qed

lemma devices_in_step_witness:
  "\<exists>app. app_run (\<lambda>_. []) demo_device_events (start_application Map.empty) = Some app
     \<and> descriptors app = [demo_windows_device ''One'', demo_windows_device ''Two'']"
proof -
  obtain app where run: "app_run (\<lambda>_. []) demo_device_events (start_application Map.empty) = Some app"
    and ids: "map client_descriptor (connections app) = [demo_windows_device ''One'', demo_windows_device ''Two'']"
    using two_devices by (elim exE conjE) (rule that)
  have "descriptors app = map client_descriptor (connections app)"
    using devices_in_step[OF demo_different run] by blast
  with ids run show ?thesis by (intro exI[of _ app]) simp
qed

text \<open>
  C27: The streaming device is kept as a place in the list and not adjusted when the list changes:
  connects, commands and disconnects of devices further down leave the device that gets the
  commands as it is, but when the streaming device itself or one before it disconnects, the
  commands go to the device after it from then on, or to none when it was the last; and a
  disconnect while the kept place is behind the end of the list reads past the end of the vector.
\<close>

theorem commands_follow_place:
  assumes "different_devices evs" "app_run residue evs (start_application registry) = Some app"
    and place: "0 \<le> streamingDevice app" and gone: "j < length (connections app)"
  shows "receiver (send_command c app) = receiver app
    \<and> (receiver app \<noteq> None \<longrightarrow> receiver (device_connected cid d app) = receiver app)
    \<and> (case app_step residue (Disconnects (client_id (connections app ! j))) app of
         None \<Rightarrow> streamingDevice app \<ge> int (length (connections app))
       | Some app' \<Rightarrow> streamingDevice app < int (length (connections app))
           \<and> receiver app' = (if streamingDevice app < int j then receiver app
               else if nat (streamingDevice app) + 1 < length (connections app)
               then Some (client_id (connections app ! (nat (streamingDevice app) + 1))) else None))"
proof -
  have st: "in_step app"
    using assms(1,2) by (rule reached_in_step)
  then have len: "length (descriptors app) = length (connections app)" by (simp add: in_step_def)
  have "receiver (send_command c app) = receiver app"
    unfolding receiver_alt send_command_def server_send_frame ..
  moreover have "receiver (device_connected cid d app) = receiver app" if "receiver app \<noteq> None"
    using that by (auto simp: receiver_def device_connected_def AddDescriptor_def Let_def nth_append nat_less_iff split: if_splits)
  moreover have "receiver (app\<lparr>connections := take j (connections app) @ drop (Suc j) (connections app), descriptors := ds\<rparr>)
      = (if streamingDevice app < int j then receiver app
         else if nat (streamingDevice app) + 1 < length (connections app)
         then Some (client_id (connections app ! (nat (streamingDevice app) + 1))) else None)" for ds
    using place gone by (auto simp: receiver_def Let_def nth_append nat_less_iff)
  ultimately show ?thesis
    using disconnect_in_step[OF st gone, of residue] place len
    by (auto simp del: app_step.simps)
qed

lemma commands_follow_place_witness:
  "\<exists>app app'. app_run (\<lambda>_. []) demo_device_events (start_application Map.empty) = Some app
     \<and> receiver app = Some 10 \<and> app_step (\<lambda>_. []) (Disconnects 10) app = Some app' \<and> receiver app' = Some 20"
proof -
  obtain app where run: "app_run (\<lambda>_. []) demo_device_events (start_application Map.empty) = Some app"
    and ids: "map client_id (connections app) = [10, 20]" and place: "streamingDevice app = 0"
    using two_devices by (elim exE conjE) (rule that)
  have len: "length (connections app) = 2" using arg_cong[OF ids, of length] by simp
  then have id: "client_id (connections app ! 0) = 10" "client_id (connections app ! 1) = 20"
    using nth_map[of 0 "connections app" client_id] nth_map[of 1 "connections app" client_id] ids by simp_all
  have before: "receiver app = Some 10" using ids place by (simp add: receiver_alt)
  have p: "0 \<le> streamingDevice app" "0 < length (connections app)" using place len by simp_all
  note f = commands_follow_place[OF demo_different run p, THEN conjunct2, THEN conjunct2, unfolded id place len]
  show ?thesis
  proof (cases "app_step (\<lambda>_. []) (Disconnects 10) app")
    case None
    with f show ?thesis by simp
  next
    case (Some app')
    with f id have "receiver app' = Some 20" by simp
    with run before Some show ?thesis by blast
  qed
qed

end
