(* ===== verification/Windows_Lifecycle.thy ===== *)
theory Windows_Lifecycle
  imports Windows_Server
begin

text \<open>
  Start and end of the Windows client: \<open>Application::OnInit\<close> and \<open>OnWindowCloseEvent\<close>
  (\<open>windows/src/application.cpp\<close>) with the constructor, \<open>Start\<close>, the accept handler and \<open>Close\<close> of
  the server (\<open>windows/src/net/server.cpp\<close>) and the calls of adb (\<open>windows/src/adb.h\<close>). The main
  thread goes from statement to statement while the IO thread of the server handles
  connections; \<open>None\<close> is undefined behaviour.
\<close>

section \<open>The commands for adb\<close>

text \<open>\<open>module_path\<close> is what \<open>GetModuleFileNameA\<close> returns; \<open>npos\<close> cuts nothing off.\<close>

definition adb_dir :: "string \<Rightarrow> string" where
  "adb_dir module_path =
     (case find_last (\<lambda>c. c = CHR 0x5C \<or> c = CHR ''/'') module_path of
        Some i \<Rightarrow> take i module_path | None \<Rightarrow> module_path)"





section \<open>The state\<close>




section \<open>The main thread\<close>




section \<open>The IO thread\<close>










section \<open>What holds at each place\<close>











section \<open>Properties\<close>









end
