(* ===== verification/Windows_Settings.thy ===== *)
theory Windows_Settings
  imports Windows_Server
begin

text \<open>
  The settings file of the Windows client, \<open>windows/src/settings.cpp\<close>: the global settings, the
  states of the devices the client has seen, and the lines of device sections kept back while
  the saving of device states is switched off.
\<close>

section \<open>Text files and numbers of the C++ library\<close>

definition LF :: char where "LF = CHR 0x0A"
definition CR :: char where "CR = CHR 0x0D"
definition CTRL_Z :: char where "CTRL_Z = CHR 0x1A"

text \<open>
  Files opened in text mode on Windows: a line feed is written as two characters and read back
  as one, and reading ends at the first \<open>Ctrl-Z\<close>.
\<close>

fun written :: "string \<Rightarrow> string" where
  "written [] = []"
| "written (c # s) = (if c = LF then CR # LF # written s else c # written s)"

fun read_text :: "string \<Rightarrow> string" where
  "read_text [] = []"
| "read_text (c # s) =
     (if c = CTRL_Z then []
      else if c = CR \<and> s \<noteq> [] \<and> hd s = LF then LF # read_text (tl s)
      else c # read_text s)"

text \<open>\<open>std::getline\<close> until the end of the file; a text without final line feed ends a line too.\<close>

fun getlines :: "string \<Rightarrow> string list" where
  "getlines [] = []"
| "getlines (c # s) =
     (if c = LF then [] # getlines s
      else case getlines s of [] \<Rightarrow> [[c]] | l # ls \<Rightarrow> (c # l) # ls)"

definition print_lines :: "string list \<Rightarrow> string" where
  "print_lines ls = concat (map (\<lambda>l. l @ [LF]) ls)"

text \<open>
  \<open>std::atoi\<close> skips white space, reads a sign and digits, and ignores the rest. A number that is
  no \<open>int\<close> is undefined behaviour: the argument \<open>huge\<close> gives what the library at hand makes of it.
\<close>

definition isspace :: "char \<Rightarrow> bool" where
  "isspace c \<longleftrightarrow> c = CHR '' '' \<or> (9 \<le> (of_char c :: nat) \<and> (of_char c :: nat) \<le> 13)"

definition isdigit :: "char \<Rightarrow> bool" where
  "isdigit c \<longleftrightarrow> CHR ''0'' \<le> c \<and> c \<le> CHR ''9''"

definition digits_value :: "string \<Rightarrow> nat" where
  "digits_value ds = foldl (\<lambda>n c. n * 10 + (of_char c - 48)) 0 ds"

definition atoi :: "(int \<Rightarrow> 32 word) \<Rightarrow> string \<Rightarrow> 32 word" where
  "atoi huge s =
     (let s = dropWhile isspace s;
          negative = (s \<noteq> [] \<and> hd s = CHR ''-'');
          s = (if s \<noteq> [] \<and> (hd s = CHR ''-'' \<or> hd s = CHR ''+'') then tl s else s);
          n = int (digits_value (takeWhile isdigit s));
          v = (if negative then - n else n)
      in if - (2 ^ 31) \<le> v \<and> v < 2 ^ 31 then word_of_int v else huge v)"

text \<open>\<open>operator<<\<close> of an \<open>int\<close>.\<close>

fun print_nat :: "nat \<Rightarrow> string" where
  "print_nat n = (if n < 10 then [char_of (48 + n)] else print_nat (n div 10) @ [char_of (48 + n mod 10)])"

declare print_nat.simps [simp del]

definition print_int :: "32 word \<Rightarrow> string" where
  "print_int w =
     (if sint w < 0 then CHR ''-'' # print_nat (nat (- sint w)) else print_nat (nat (sint w)))"

section \<open>The state\<close>

text \<open>The three static members; both maps are lists of entries in the order of their keys.\<close>

type_synonym registry = "(string \<times> windows_options) list"

record settings_state =
  settings :: "(string \<times> 32 word) list"
  loadedDeviceStates :: registry
  preservedDeviceLines :: "string list"

definition SAVE_DEVICE_STATES :: string where "SAVE_DEVICE_STATES = ''SAVE_DEVICE_STATES''"

definition Get :: "string \<Rightarrow> settings_state \<Rightarrow> 32 word" where
  "Get key st = (case map_of (settings st) key of Some v \<Rightarrow> v | None \<Rightarrow> -1)"

definition Set :: "string \<Rightarrow> 32 word \<Rightarrow> settings_state \<Rightarrow> settings_state" where
  "Set key v st = st\<lparr>settings := map_put key v (settings st)\<rparr>"

definition GetDeviceStates :: "settings_state \<Rightarrow> registry" where
  "GetDeviceStates st = (if Get SAVE_DEVICE_STATES st = 1 then loadedDeviceStates st else [])"

definition UpdateDeviceStates :: "registry \<Rightarrow> settings_state \<Rightarrow> settings_state" where
  "UpdateDeviceStates states st =
     (if Get SAVE_DEVICE_STATES st = 1 then st\<lparr>loadedDeviceStates := states\<rparr> else st)"

section \<open>Saving\<close>

definition print_bool :: "bool \<Rightarrow> string" where
  "print_bool b = (if b then ''1'' else ''0'')"

definition global_line :: "string \<times> 32 word \<Rightarrow> string" where
  "global_line e = fst e @ ''='' @ print_int (snd e)"

definition device_lines :: "string \<times> windows_options \<Rightarrow> string list" where
  "device_lines e =
     (let nm = fst e; state = snd e
      in [''[DEVICE:'' @ nm @ '']'',
          ''fps='' @ print_int (w_fps state),
          ''res='' @ print_int (fst (w_resolution state)) @ ''x'' @ print_int (snd (w_resolution state)),
          ''back_cam='' @ print_bool (w_backCameraActive state),
          ''adaptive_br='' @ print_bool (w_adaptiveBitrate state),
          ''bitrate='' @ print_int (w_bitrate state),
          ''min_br='' @ print_int (w_minBitrate state),
          ''max_br='' @ print_int (w_maxBitrate state),
          ''stab='' @ print_bool (w_stabilizationEnabled state),
          ''flash='' @ print_bool (w_flashEnabled state),
          ''h265='' @ print_bool (w_h265Enabled state),
          ''focus='' @ print_int (w_focusMode state)]
       @ map (\<lambda>(fname, val). ''C:'' @ fname @ ''='' @ print_int val) (w_filterSliderValues state)
       @ [''E:='' @ w_activeEffectFilter state, []])"

definition saved_lines :: "settings_state \<Rightarrow> string list" where
  "saved_lines st =
     map global_line (settings st) @ [[]]
     @ (if Get SAVE_DEVICE_STATES st = 1 then concat (map device_lines (loadedDeviceStates st))
        else preservedDeviceLines st)"

text \<open>The content of the file afterwards; \<open>writable\<close> says whether it could be opened.\<close>

definition Save :: "bool \<Rightarrow> settings_state \<Rightarrow> string option \<Rightarrow> string option" where
  "Save writable st old = (if writable then Some (written (print_lines (saved_lines st))) else old)"

section \<open>Loading\<close>

definition ParseDeviceLine ::
  "(int \<Rightarrow> 32 word) \<Rightarrow> string \<Rightarrow> string \<Rightarrow> windows_options \<Rightarrow> windows_options" where
  "ParseDeviceLine huge key val state =
     (if key = ''fps'' then state\<lparr>w_fps := atoi huge val\<rparr>
      else if key = ''back_cam'' then state\<lparr>w_backCameraActive := (val = ''1'')\<rparr>
      else if key = ''res'' then
        (case find_first (\<lambda>c. c = CHR ''x'') val of
           None \<Rightarrow> state
         | Some xPos \<Rightarrow>
             state\<lparr>w_resolution := (atoi huge (take xPos val), atoi huge (drop (xPos + 1) val))\<rparr>)
      else if key = ''adaptive_br'' then state\<lparr>w_adaptiveBitrate := (val = ''1'')\<rparr>
      else if key = ''bitrate'' then state\<lparr>w_bitrate := atoi huge val\<rparr>
      else if key = ''min_br'' then state\<lparr>w_minBitrate := atoi huge val\<rparr>
      else if key = ''max_br'' then state\<lparr>w_maxBitrate := atoi huge val\<rparr>
      else if key = ''stab'' then state\<lparr>w_stabilizationEnabled := (val = ''1'')\<rparr>
      else if key = ''flash'' then state\<lparr>w_flashEnabled := (val = ''1'')\<rparr>
      else if key = ''h265'' then state\<lparr>w_h265Enabled := (val = ''1'')\<rparr>
      else if key = ''focus'' then state\<lparr>w_focusMode := atoi huge val\<rparr>
      else if prefix ''C:'' key
      then state\<lparr>w_filterSliderValues := map_put (drop 2 key) (atoi huge val) (w_filterSliderValues state)\<rparr>
      else if prefix ''E:'' key then state\<lparr>w_activeEffectFilter := val\<rparr>
      else state)"

text \<open>
  The loop of \<open>Load\<close>. The pointer \<open>currentDevice\<close> into the map is the key of its entry.
\<close>

record loading =
  read_settings :: "(string \<times> 32 word) list"
  read_states :: registry
  currentDevice :: "string option"

definition registry_entry :: "string \<Rightarrow> registry \<Rightarrow> windows_options" where
  "registry_entry nm r = (case map_of r nm of None \<Rightarrow> windows_defaults | Some s \<Rightarrow> s)"

definition Load_line :: "(int \<Rightarrow> 32 word) \<Rightarrow> string \<Rightarrow> loading \<Rightarrow> loading" where
  "Load_line huge line st =
     (if line = [] then st
      else if hd line = CHR ''['' \<and> last line = CHR '']'' then
        (let currentSection = take (length line - 2) (drop 1 line)
         in if prefix ''DEVICE:'' currentSection then
              (let devName = drop 7 currentSection
               in st\<lparr>read_states := map_put devName (registry_entry devName (read_states st)) (read_states st),
                     currentDevice := Some devName\<rparr>)
            else st\<lparr>currentDevice := None\<rparr>)
      else case find_first (\<lambda>c. c = CHR ''='') line of
          None \<Rightarrow> st
        | Some pos \<Rightarrow>
            (let key = take pos line; valStr = drop (pos + 1) line
             in case currentDevice st of
                 Some d \<Rightarrow>
                   st\<lparr>read_states := map_put d
                     (ParseDeviceLine huge key valStr (registry_entry d (read_states st))) (read_states st)\<rparr>
               | None \<Rightarrow> st\<lparr>read_settings := map_put key (atoi huge valStr) (read_settings st)\<rparr>))"

definition contains :: "string \<Rightarrow> string \<Rightarrow> bool" where
  "contains pat s \<longleftrightarrow> list_ex (prefix pat) (suffixes s)"

fun preserve :: "bool \<Rightarrow> string list \<Rightarrow> string list" where
  "preserve inside [] = []"
| "preserve inside (line # rest) =
     (if line = [] then preserve inside rest
      else if hd line = CHR ''['' \<and> contains ''DEVICE:'' line then line # preserve True rest
      else if hd line = CHR ''['' \<and> \<not> contains ''DEVICE:'' line then preserve False rest
      else if \<not> inside \<and> CHR ''='' \<in> set line then preserve inside rest
      else if inside then line # preserve inside rest
      else preserve inside rest)"

definition CachePreservedLines :: "string \<Rightarrow> settings_state \<Rightarrow> settings_state" where
  "CachePreservedLines text st =
     st\<lparr>preservedDeviceLines := preservedDeviceLines st @ preserve False (getlines (read_text text))\<rparr>"

text \<open>Without a file \<open>Load\<close> returns at once. The second reading of the file finds the same text.\<close>

definition Load :: "(int \<Rightarrow> 32 word) \<Rightarrow> string option \<Rightarrow> settings_state \<Rightarrow> settings_state" where
  "Load huge content st =
     (case content of
        None \<Rightarrow> st
      | Some text \<Rightarrow>
          let l = fold (Load_line huge) (getlines (read_text text))
                    \<lparr>read_settings = [], read_states = [], currentDevice = None\<rparr>;
              st = \<lparr>settings = read_settings l, loadedDeviceStates = read_states l, preservedDeviceLines = []\<rparr>
          in if Get SAVE_DEVICE_STATES st \<noteq> 1 then CachePreservedLines text st else st)"

section \<open>Text and numbers read back\<close>

lemma hd_written [simp]: "written s \<noteq> [] \<Longrightarrow> hd (written s) \<noteq> LF"
  by (cases s) (simp_all add: LF_def CR_def)

lemma read_text_written: "CTRL_Z \<notin> set s \<Longrightarrow> read_text (written s) = s"
proof (induction s)
  case (Cons c s)
  have "LF \<noteq> CTRL_Z" "CR \<noteq> CTRL_Z" "LF \<noteq> CR" by (simp_all add: LF_def CR_def CTRL_Z_def)
  with Cons show ?case using hd_written[of s] by auto
qed simp

lemma getlines_line: "LF \<notin> set l \<Longrightarrow> getlines (l @ LF # s) = l # getlines s"
  by (induction l) auto

lemma getlines_print_lines: "\<forall>l \<in> set ls. LF \<notin> set l \<Longrightarrow> getlines (print_lines ls) = ls"
  by (induction ls) (simp_all add: print_lines_def getlines_line)

lemma set_print_lines: "set (print_lines ls) \<subseteq> insert LF (\<Union>l \<in> set ls. set l)"
  by (auto simp: print_lines_def)

text \<open>What \<open>Save\<close> writes comes back as the lines it wrote.\<close>

definition clean :: "string \<Rightarrow> bool" where
  "clean s \<longleftrightarrow> LF \<notin> set s \<and> CTRL_Z \<notin> set s"

lemma clean_simps [simp]:
  "clean []"
  "clean (c # s) \<longleftrightarrow> c \<noteq> LF \<and> c \<noteq> CTRL_Z \<and> clean s"
  "clean (s @ t) \<longleftrightarrow> clean s \<and> clean t"
  by (auto simp: clean_def)

lemma written_lines_read:
  assumes "\<forall>l \<in> set ls. clean l"
  shows "getlines (read_text (written (print_lines ls))) = ls"
proof -
  have "CTRL_Z \<notin> set (print_lines ls)"
    using assms set_print_lines[of ls] by (auto simp: clean_def LF_def CTRL_Z_def)
  then show ?thesis using assms by (simp add: read_text_written getlines_print_lines clean_def)
qed

lemma of_char_digit [simp]: "d < 10 \<Longrightarrow> of_char (char_of (48 + d) :: char) = 48 + (d :: nat)"
  by (simp add: of_char_of)

lemma isdigit_digit [simp]: "d < 10 \<Longrightarrow> isdigit (char_of (48 + d :: nat))"
  by (simp add: isdigit_def less_eq_char_def)

lemma print_nat_facts:
  "print_nat n \<noteq> [] \<and> list_all isdigit (print_nat n) \<and> digits_value (print_nat n) = n"
proof (induction n rule: print_nat.induct)
  case (1 n)
  show ?case
  proof (cases "n < 10")
    case True
    then show ?thesis by (subst (1 2 3) print_nat.simps) (simp add: digits_value_def)
  next
    case False
    then show ?thesis using 1[OF False]
      by (subst (1 2 3) print_nat.simps) (simp add: digits_value_def)
  qed
qed

lemma isdigit_not:
  "isdigit c \<Longrightarrow> \<not> isspace c \<and> c \<noteq> CHR ''-'' \<and> c \<noteq> CHR ''+'' \<and> c \<noteq> CHR '']'' \<and> c \<noteq> CHR ''x''
     \<and> c \<noteq> CHR ''='' \<and> c \<noteq> LF \<and> c \<noteq> CTRL_Z"
  by (auto simp: isdigit_def isspace_def less_eq_char_def LF_def CTRL_Z_def)

lemma atoi_digits:
  assumes "list_all isdigit ds" "ds \<noteq> []"
  shows "atoi huge (CHR ''-'' # ds) = (if int (digits_value ds) \<le> 2 ^ 31 then word_of_int (- int (digits_value ds)) else huge (- int (digits_value ds)))"
    and "atoi huge ds = (if int (digits_value ds) < 2 ^ 31 then word_of_int (int (digits_value ds)) else huge (int (digits_value ds)))"
proof -
  have all: "takeWhile isdigit ds = ds" using assms by (simp add: list_all_iff)
  obtain d r where ds: "ds = d # r" "isdigit d" using assms by (cases ds) auto
  have "\<not> isspace (CHR ''-'')" by (simp add: isspace_def)
  then show "atoi huge (CHR ''-'' # ds) = (if int (digits_value ds) \<le> 2 ^ 31 then word_of_int (- int (digits_value ds)) else huge (- int (digits_value ds)))"
    by (auto simp: atoi_def Let_def all)
  have "dropWhile isspace ds = ds" "hd ds \<noteq> CHR ''-''" "hd ds \<noteq> CHR ''+''"
    using isdigit_not[OF ds(2)] by (simp_all add: ds(1))
  then show "atoi huge ds = (if int (digits_value ds) < 2 ^ 31 then word_of_int (int (digits_value ds)) else huge (int (digits_value ds)))"
    using assms by (auto simp: atoi_def Let_def all)
qed

lemma atoi_print_int [simp]: "atoi huge (print_int w) = w"
proof -
  note f = print_nat_facts[THEN conjunct1] print_nat_facts[THEN conjunct2, THEN conjunct1]
    print_nat_facts[THEN conjunct2, THEN conjunct2]
  have "- (2 ^ 31) \<le> sint w" "sint w < 2 ^ 31"
    using sint_ge[of w] sint_lt[of w] by simp_all
  then show ?thesis by (auto simp: print_int_def atoi_digits f)
qed

lemma print_int_chars:
  "print_int w \<noteq> []" "last (print_int w) \<noteq> CHR '']''" "CHR ''x'' \<notin> set (print_int w)"
  "CHR ''='' \<notin> set (print_int w)" "clean (print_int w)"
proof -
  have d: "c \<in> set (print_nat n) \<Longrightarrow> isdigit c" for c n
    using print_nat_facts[of n] by (simp add: list_all_iff)
  have n: "print_nat n \<noteq> []" for n using print_nat_facts[of n] by simp
  have l: "isdigit (last (print_nat n))" for n by (rule d[OF last_in_set[OF n]])
  show "print_int w \<noteq> []" by (simp add: print_int_def n)
  show "last (print_int w) \<noteq> CHR '']''" using isdigit_not[OF l] by (simp add: print_int_def n)
  show "CHR ''x'' \<notin> set (print_int w)" "CHR ''='' \<notin> set (print_int w)" "clean (print_int w)"
    using isdigit_not[OF d] by (auto simp: print_int_def clean_def LF_def CTRL_Z_def)
qed

section \<open>Lines and entries\<close>

definition entry_line :: "string \<times> string \<Rightarrow> string" where
  "entry_line e = fst e @ CHR ''='' # snd e"

definition plain_entry :: "string \<times> string \<Rightarrow> bool" where
  "plain_entry e \<longleftrightarrow> CHR ''='' \<notin> set (fst e)
     \<and> \<not> (hd (entry_line e) = CHR ''['' \<and> last (entry_line e) = CHR '']'')"

lemma Load_line_entry:
  assumes "plain_entry e"
  shows "Load_line huge (entry_line e) st =
    (case currentDevice st of
       Some d \<Rightarrow> st\<lparr>read_states := map_put d
           (ParseDeviceLine huge (fst e) (snd e) (registry_entry d (read_states st))) (read_states st)\<rparr>
     | None \<Rightarrow> st\<lparr>read_settings := map_put (fst e) (atoi huge (snd e)) (read_settings st)\<rparr>)"
proof -
  have "find_first (\<lambda>c. c = CHR ''='') (entry_line e) = Some (length (fst e))"
    using assms unfolding entry_line_def plain_entry_def by (intro find_first_append) auto
  moreover have "entry_line e \<noteq> []" "take (length (fst e)) (entry_line e) = fst e"
    "drop (length (fst e) + 1) (entry_line e) = snd e"
    by (simp_all add: entry_line_def)
  moreover have "(hd (entry_line e) = CHR ''['' \<and> last (entry_line e) = CHR '']'') = False"
    using assms by (simp add: plain_entry_def)
  ultimately show ?thesis unfolding Load_line_def Let_def by (simp only: if_False option.case)
qed

text \<open>The global part.\<close>

lemma fold_global_lines:
  assumes "\<forall>e \<in> set es. CHR ''='' \<notin> set (fst e)"
  shows "fold (Load_line huge) (map global_line es) \<lparr>read_settings = S, read_states = D, currentDevice = None\<rparr>
    = \<lparr>read_settings = om.put_all es S, read_states = D, currentDevice = None\<rparr>"
  using assms
proof (induction es arbitrary: S)
  case Nil
  show ?case by (simp add: om.put_all_def)
next
  case (Cons e es)
  have line: "global_line e = entry_line (fst e, print_int (snd e))"
    by (simp add: global_line_def entry_line_def)
  have "plain_entry (fst e, print_int (snd e))"
    using Cons.prems print_int_chars[of "snd e"] by (simp add: plain_entry_def entry_line_def)
  then show ?case
    using Cons by (simp add: line Load_line_entry om.put_all_def case_prod_beta)
qed

text \<open>The part of a device: an entry of the map is filled in.\<close>

definition in_device ::
  "(string \<times> 32 word) list \<Rightarrow> registry \<Rightarrow> string \<Rightarrow> windows_options \<Rightarrow> loading" where
  "in_device S D n s = \<lparr>read_settings = S, read_states = map_put n s D, currentDevice = Some n\<rparr>"

lemma Load_line_header:
  "Load_line huge (''[DEVICE:'' @ n @ '']'') \<lparr>read_settings = S, read_states = D, currentDevice = c\<rparr>
    = in_device S D n (registry_entry n D)"
  by (simp add: Load_line_def in_device_def Let_def)

lemma Load_line_in_device:
  assumes "plain_entry e" "ascending D"
  shows "Load_line huge (entry_line e) (in_device S D n s)
    = in_device S D n (ParseDeviceLine huge (fst e) (snd e) s)"
  using assms by (simp add: Load_line_entry in_device_def registry_entry_def om.put_twice)

lemma fold_entry_lines:
  assumes "\<forall>e \<in> set es. plain_entry e" "ascending D"
  shows "fold (Load_line huge) (map entry_line es) (in_device S D n s)
    = in_device S D n (fold (\<lambda>e. ParseDeviceLine huge (fst e) (snd e)) es s)"
  using assms by (induction es arbitrary: s) (simp_all add: Load_line_in_device)

definition device_entries :: "windows_options \<Rightarrow> (string \<times> string) list" where
  "device_entries state =
     [(''fps'', print_int (w_fps state)),
      (''res'', print_int (fst (w_resolution state)) @ ''x'' @ print_int (snd (w_resolution state))),
      (''back_cam'', print_bool (w_backCameraActive state)),
      (''adaptive_br'', print_bool (w_adaptiveBitrate state)),
      (''bitrate'', print_int (w_bitrate state)),
      (''min_br'', print_int (w_minBitrate state)),
      (''max_br'', print_int (w_maxBitrate state)),
      (''stab'', print_bool (w_stabilizationEnabled state)),
      (''flash'', print_bool (w_flashEnabled state)),
      (''h265'', print_bool (w_h265Enabled state)),
      (''focus'', print_int (w_focusMode state))]
     @ map (\<lambda>(fname, val). (''C:'' @ fname, print_int val)) (w_filterSliderValues state)
     @ [(''E:'', w_activeEffectFilter state)]"

lemma device_lines_entries:
  "device_lines e = (''[DEVICE:'' @ fst e @ '']'') # map entry_line (device_entries (snd e)) @ [[]]"
  by (simp add: device_lines_def device_entries_def entry_line_def Let_def comp_def case_prod_beta)

text \<open>Which values survive in the file: those without line feed and \<open>Ctrl-Z\<close>, no \<open>=\<close> in filter names.\<close>

definition storable_state :: "windows_options \<Rightarrow> bool" where
  "storable_state s \<longleftrightarrow> ascending (w_filterSliderValues s) \<and> clean (w_activeEffectFilter s)
     \<and> (\<forall>e \<in> set (w_filterSliderValues s). clean (fst e) \<and> CHR ''='' \<notin> set (fst e))"

definition storable :: "settings_state \<Rightarrow> bool" where
  "storable st \<longleftrightarrow> ascending (settings st) \<and> ascending (loadedDeviceStates st)
     \<and> (\<forall>e \<in> set (settings st). clean (fst e) \<and> CHR ''='' \<notin> set (fst e))
     \<and> (\<forall>e \<in> set (loadedDeviceStates st). clean (fst e) \<and> storable_state (snd e))"

lemma print_bool_chars [simp]:
  "print_bool b \<noteq> []" "last (print_bool b) \<noteq> CHR '']''" "clean (print_bool b)" "(print_bool b = ''1'') = b"
  by (simp_all add: print_bool_def LF_def CTRL_Z_def)

lemma plain_device_entries:
  assumes "storable_state s"
  shows "\<forall>e \<in> set (device_entries s). plain_entry e \<and> clean (entry_line e)"
  using assms print_int_chars
  by (auto simp: device_entries_def plain_entry_def entry_line_def storable_state_def LF_def CTRL_Z_def)

lemma fold_sliders:
  "fold (\<lambda>e. ParseDeviceLine huge (fst e) (snd e)) (map (\<lambda>(fname, val). (''C:'' @ fname, print_int val)) sl) s
    = s\<lparr>w_filterSliderValues := om.put_all sl (w_filterSliderValues s)\<rparr>"
proof (induction sl arbitrary: s)
  case Nil
  show ?case by (simp add: om.put_all_def)
next
  case (Cons e sl)
  then show ?case by (cases e) (simp add: ParseDeviceLine_def om.put_all_def)
qed

lemma parse_resolution:
  "ParseDeviceLine huge ''res'' (print_int v @ ''x'' @ print_int w) s = s\<lparr>w_resolution := (v, w)\<rparr>"
proof -
  have "find_first (\<lambda>c. c = CHR ''x'') (print_int v @ CHR ''x'' # print_int w) = Some (length (print_int v))"
    using print_int_chars(3)[of v] by (intro find_first_append) auto
  then show ?thesis by (simp add: ParseDeviceLine_def)
qed

lemma fold_device_entries:
  assumes "storable_state s"
  shows "fold (\<lambda>e. ParseDeviceLine huge (fst e) (snd e)) (device_entries s) windows_defaults
    = s\<lparr>w_zoom := 0x3F800000\<rparr>"
proof -
  have asc: "ascending (w_filterSliderValues s)" using assms by (simp add: storable_state_def)
  let ?P = "\<lambda>e. ParseDeviceLine huge (fst e) (snd e)"
  let ?num = "[(''fps'', print_int (w_fps s)),
      (''res'', print_int (fst (w_resolution s)) @ ''x'' @ print_int (snd (w_resolution s))),
      (''back_cam'', print_bool (w_backCameraActive s)),
      (''adaptive_br'', print_bool (w_adaptiveBitrate s)),
      (''bitrate'', print_int (w_bitrate s)),
      (''min_br'', print_int (w_minBitrate s)),
      (''max_br'', print_int (w_maxBitrate s)),
      (''stab'', print_bool (w_stabilizationEnabled s)),
      (''flash'', print_bool (w_flashEnabled s)),
      (''h265'', print_bool (w_h265Enabled s)),
      (''focus'', print_int (w_focusMode s))]"
  have num: "fold ?P ?num windows_defaults =
      s\<lparr>w_filterSliderValues := [], w_activeEffectFilter := [], w_zoom := 0x3F800000\<rparr>"
    by (simp del: append_Cons append_Nil add: parse_resolution) (simp add: ParseDeviceLine_def windows_defaults_def)
  have eff: "ParseDeviceLine huge ''E:'' v t = t\<lparr>w_activeEffectFilter := v\<rparr>" for v t
    by (simp add: ParseDeviceLine_def)
  show ?thesis
    unfolding device_entries_def fold_append comp_apply num fold_sliders
    by (simp add: eff om.put_all_rebuilds[OF asc])
qed

text \<open>The zoom is not in the file.\<close>

definition forget_zoom :: "string \<times> windows_options \<Rightarrow> string \<times> windows_options" where
  "forget_zoom e = (fst e, (snd e)\<lparr>w_zoom := 0x3F800000\<rparr>)"

lemma fold_device_lines:
  assumes "storable_state (snd e)" "ascending D" "map_of D (fst e) = None"
  shows "fold (Load_line huge) (device_lines e) \<lparr>read_settings = S, read_states = D, currentDevice = c\<rparr>
    = \<lparr>read_settings = S, read_states = map_put (fst e) (snd (forget_zoom e)) D, currentDevice = Some (fst e)\<rparr>"
proof -
  have plain: "\<forall>x \<in> set (device_entries (snd e)). plain_entry x"
    using plain_device_entries[OF assms(1)] by blast
  have "registry_entry (fst e) D = windows_defaults" using assms(3) by (simp add: registry_entry_def)
  moreover have "Load_line huge [] l = l" for l by (simp add: Load_line_def)
  ultimately show ?thesis
    unfolding device_lines_entries
    by (simp only: fold_simps fold_append comp_apply Load_line_header fold_entry_lines[OF plain assms(2)]
        fold_device_entries[OF assms(1)] forget_zoom_def snd_conv) (simp add: in_device_def)
qed

lemma fold_devices:
  assumes "\<forall>e \<in> set es. storable_state (snd e)" "ascending D" "ascending es"
    and "\<forall>e \<in> set es. map_of D (fst e) = None"
  shows "\<exists>c'. fold (Load_line huge) (concat (map device_lines es)) \<lparr>read_settings = S, read_states = D, currentDevice = c\<rparr>
    = \<lparr>read_settings = S, read_states = om.put_all (map forget_zoom es) D, currentDevice = c'\<rparr>"
  using assms
proof (induction es arbitrary: D c)
  case Nil
  then show ?case by (simp add: om.put_all_def)
next
  case (Cons e es)
  let ?D = "map_put (fst e) (snd (forget_zoom e)) D"
  have "fold (Load_line huge) (device_lines e) \<lparr>read_settings = S, read_states = D, currentDevice = c\<rparr>
    = \<lparr>read_settings = S, read_states = ?D, currentDevice = Some (fst e)\<rparr>"
    using Cons.prems by (intro fold_device_lines) auto
  moreover have "\<exists>c'. fold (Load_line huge) (concat (map device_lines es)) \<lparr>read_settings = S, read_states = ?D, currentDevice = Some (fst e)\<rparr>
    = \<lparr>read_settings = S, read_states = om.put_all (map forget_zoom es) ?D, currentDevice = c'\<rparr>"
    using Cons.prems by (intro Cons.IH) (auto simp: ascending_map_put)
  moreover have "om.put_all (map forget_zoom (e # es)) D = om.put_all (map forget_zoom es) ?D"
    by (simp add: om.put_all_def forget_zoom_def)
  ultimately show ?case by simp
qed

lemma ascending_forget_zoom: "ascending (map forget_zoom es) = ascending es"
  by (simp add: ascending_def comp_def forget_zoom_def)

text \<open>The lines of storable settings are read back as they were written.\<close>

lemma clean_lines:
  assumes "storable st" "Get SAVE_DEVICE_STATES st = 1 \<or> (\<forall>l \<in> set (preservedDeviceLines st). clean l)"
  shows "\<forall>l \<in> set (saved_lines st). clean l"
proof -
  have "clean l" if "e \<in> set (loadedDeviceStates st)" "l \<in> set (device_lines e)" for e l
  proof -
    have "clean (fst e)" "storable_state (snd e)" using assms that by (auto simp: storable_def)
    then show ?thesis using that(2) plain_device_entries[of "snd e"]
      by (auto simp: device_lines_entries LF_def CTRL_Z_def)
  qed
  moreover have "clean (global_line e)" if "e \<in> set (settings st)" for e
    using assms that print_int_chars by (auto simp: storable_def global_line_def LF_def CTRL_Z_def)
  ultimately show ?thesis using assms(2) by (auto simp: saved_lines_def)
qed

lemma Load_Save:
  assumes "storable st" "Get SAVE_DEVICE_STATES st = 1"
  shows "Load huge (Save True st old) st'
    = st\<lparr>loadedDeviceStates := map forget_zoom (loadedDeviceStates st), preservedDeviceLines := []\<rparr>"
proof -
  let ?S = "settings st" and ?D = "loadedDeviceStates st"
  have lines: "getlines (read_text (written (print_lines (saved_lines st)))) = saved_lines st"
    using clean_lines[OF assms(1)] assms(2) by (intro written_lines_read) blast
  have glob: "fold (Load_line huge) (map global_line ?S) \<lparr>read_settings = [], read_states = [], currentDevice = None\<rparr>
      = \<lparr>read_settings = ?S, read_states = [], currentDevice = None\<rparr>"
    using assms(1) by (subst fold_global_lines) (auto simp: storable_def om.put_all_rebuilds)
  obtain c where dev: "fold (Load_line huge) (concat (map device_lines ?D)) \<lparr>read_settings = ?S, read_states = [], currentDevice = None\<rparr>
      = \<lparr>read_settings = ?S, read_states = om.put_all (map forget_zoom ?D) [], currentDevice = c\<rparr>"
    using fold_devices[of ?D "[]" huge ?S None] assms(1) by (auto simp: storable_def)
  have "om.put_all (map forget_zoom ?D) [] = map forget_zoom ?D"
    using assms(1) by (intro om.put_all_rebuilds) (simp add: ascending_forget_zoom storable_def)
  moreover have "Load_line huge [] l = l" for l by (simp add: Load_line_def)
  ultimately have "fold (Load_line huge) (saved_lines st) \<lparr>read_settings = [], read_states = [], currentDevice = None\<rparr>
      = \<lparr>read_settings = ?S, read_states = map forget_zoom ?D, currentDevice = c\<rparr>"
    using assms(2) by (simp add: saved_lines_def glob dev)
  then show ?thesis
    using assms(2) by (simp add: Load_def Save_def lines Let_def Get_def)
qed

section \<open>The lines kept back\<close>

definition device_part :: "string option \<Rightarrow> string list" where
  "device_part content = (case content of None \<Rightarrow> [] | Some text \<Rightarrow> preserve False (getlines (read_text text)))"

lemma preserve_append_globals:
  assumes "\<forall>e \<in> set es. fst e = [] \<or> hd (fst e) \<noteq> CHR ''[''"
  shows "preserve False (map global_line es @ [] # ls) = preserve False ls"
  using assms
proof (induction es)
  case (Cons e es)
  have "global_line e \<noteq> []" "hd (global_line e) \<noteq> CHR ''[''" "CHR ''='' \<in> set (global_line e)"
    using Cons.prems by (auto simp: global_line_def hd_append)
  then show ?case using Cons by simp
qed simp

lemma preserve_kept:
  "l \<in> set (preserve b ls) \<Longrightarrow> l \<in> set ls \<and> l \<noteq> [] \<and> (hd l = CHR ''['' \<longrightarrow> contains ''DEVICE:'' l)"
  by (induction b ls rule: preserve.induct) (auto split: if_splits)

lemma preserve_True_all:
  "\<forall>l \<in> set ls. l \<noteq> [] \<and> (hd l = CHR ''['' \<longrightarrow> contains ''DEVICE:'' l) \<Longrightarrow> preserve True ls = ls"
  by (induction ls) auto

lemma preserve_False_head:
  "preserve False ls = l # r \<Longrightarrow> hd l = CHR ''['' \<and> contains ''DEVICE:'' l"
  by (induction ls) (auto split: if_splits)

lemma preserve_idem: "preserve False (preserve False ls) = preserve False ls"
proof (cases "preserve False ls")
  case (Cons l r)
  have "\<forall>x \<in> set (l # r). x \<noteq> [] \<and> (hd x = CHR ''['' \<longrightarrow> contains ''DEVICE:'' x)"
    unfolding Cons[symmetric] using preserve_kept by blast
  then show ?thesis using preserve_False_head[OF Cons] by (simp add: Cons preserve_True_all)
qed simp

text \<open>What a file can hold: no line of a text has a line feed, none a \<open>Ctrl-Z\<close>.\<close>

lemma read_text_lines: "l \<in> set (getlines s) \<Longrightarrow> LF \<notin> set l"
  by (induction s arbitrary: l rule: getlines.induct) (auto split: if_splits list.splits)

lemma set_read_text: "CTRL_Z \<notin> set (read_text s)"
  by (induction s rule: read_text.induct) (auto simp: LF_def CR_def CTRL_Z_def)

lemma set_getlines: "l \<in> set (getlines s) \<Longrightarrow> set l \<subseteq> set s"
  by (induction s arbitrary: l rule: getlines.induct) (fastforce split: if_splits list.splits)+

lemma clean_getlines: "l \<in> set (getlines (read_text s)) \<Longrightarrow> clean l"
  using read_text_lines set_getlines set_read_text by (fastforce simp: clean_def)

text \<open>The keys of loaded settings can be written back.\<close>

definition storable_key :: "string \<Rightarrow> bool" where
  "storable_key k \<longleftrightarrow> clean k \<and> CHR ''='' \<notin> set k"

lemma Load_line_keys:
  assumes "clean line" "\<forall>e \<in> set (read_settings st). storable_key (fst e)" "ascending (read_settings st)"
  shows "(\<forall>e \<in> set (read_settings (Load_line huge line st)). storable_key (fst e))
    \<and> ascending (read_settings (Load_line huge line st))"
proof -
  have key: "storable_key (take pos line)" if "find_first (\<lambda>c. c = CHR ''='') line = Some pos" for pos
    using find_first_Some[OF that] assms(1) by (auto simp: storable_key_def clean_def dest: in_set_takeD)
  show ?thesis
    using assms(2,3) key
    by (auto simp: Load_line_def Let_def ascending_map_put split: option.splits dest!: set_map_put)
qed

lemma fold_keys:
  "\<forall>l \<in> set ls. clean l \<Longrightarrow> \<forall>e \<in> set (read_settings st). storable_key (fst e) \<Longrightarrow> ascending (read_settings st) \<Longrightarrow>
     (\<forall>e \<in> set (read_settings (fold (Load_line huge) ls st)). storable_key (fst e))
     \<and> ascending (read_settings (fold (Load_line huge) ls st))"
proof (induction ls arbitrary: st)
  case (Cons l ls)
  show ?case
    using Cons.prems Load_line_keys[of l st huge] by (simp only: fold_simps) (intro Cons.IH, simp_all)
qed simp

section \<open>Sessions\<close>

text \<open>
  A run of the program: \<open>Application\<close> loads the settings and takes the states, the menus change
  settings, the handlers turn the registry into \<open>leave\<close> of it, and the closing of the window
  stores the registry and saves.
\<close>

definition no_settings :: settings_state where
  "no_settings = \<lparr>settings = [], loadedDeviceStates = [], preservedDeviceLines = []\<rparr>"

definition set_all :: "(string \<times> 32 word) list \<Rightarrow> settings_state \<Rightarrow> settings_state" where
  "set_all changes st = fold (\<lambda>(k, v). Set k v) changes st"

definition settings_session ::
  "(int \<Rightarrow> 32 word) \<Rightarrow> (string \<times> 32 word) list \<Rightarrow> (registry \<Rightarrow> registry) \<Rightarrow> string option \<Rightarrow> string option" where
  "settings_session huge changes leave content =
     (let st = Load huge content no_settings;
          stateRegistry = GetDeviceStates st;
          st = set_all changes st
      in Save True (UpdateDeviceStates (leave stateRegistry) st) content)"

definition menu_key :: "string \<Rightarrow> bool" where
  "menu_key k \<longleftrightarrow> storable_key k \<and> \<not> prefix ''['' k"

lemma set_all_frame:
  "loadedDeviceStates (set_all ch st) = loadedDeviceStates st"
  "preservedDeviceLines (set_all ch st) = preservedDeviceLines st"
  "settings (set_all ch st) = om.put_all ch (settings st)"
  by (induction ch arbitrary: st) (auto simp: set_all_def Set_def om.put_all_def)

lemma put_all_members: "e \<in> set (om.put_all ch m) \<Longrightarrow> e \<in> set ch \<or> e \<in> set m"
  by (induction ch arbitrary: m) (auto simp: om.put_all_def dest!: set_map_put)

lemma Get_UpdateDeviceStates [simp]: "Get k (UpdateDeviceStates r st) = Get k st"
  by (simp add: UpdateDeviceStates_def Get_def)

lemma Load_settings_ok:
  "(\<forall>e \<in> set (settings (Load huge (Some text) st0)). storable_key (fst e))
   \<and> ascending (settings (Load huge (Some text) st0))"
  using fold_keys[of "getlines (read_text text)" "\<lparr>read_settings = [], read_states = [], currentDevice = None\<rparr>" huge]
    clean_getlines
  by (simp add: Load_def Let_def CachePreservedLines_def)

lemma Load_preserved:
  "Get SAVE_DEVICE_STATES (Load huge (Some text) st0) \<noteq> 1 \<Longrightarrow>
     preservedDeviceLines (Load huge (Some text) st0) = device_part (Some text)"
  by (simp add: Load_def Let_def CachePreservedLines_def device_part_def Get_def split: if_splits)

lemma Load_preserved_off:
  "Get SAVE_DEVICE_STATES (Load huge (Some text) st0) = 1 \<Longrightarrow>
     preservedDeviceLines (Load huge (Some text) st0) = []"
  by (simp add: Load_def Let_def CachePreservedLines_def Get_def split: if_splits)

text \<open>The device part of a file written while saving is off: the lines kept back.\<close>

lemma device_part_off:
  assumes "Get SAVE_DEVICE_STATES st \<noteq> 1"
    and "\<forall>e \<in> set (settings st). menu_key (fst e)"
    and "preservedDeviceLines st = device_part content \<or> preservedDeviceLines st = []"
  shows "device_part (Save True st old) = preservedDeviceLines st"
proof -
  have pres: "\<forall>l \<in> set (preservedDeviceLines st). clean l"
    using assms(3) by (auto simp: device_part_def dest!: preserve_kept clean_getlines split: option.splits)
  moreover have "clean (global_line e)" if "e \<in> set (settings st)" for e
    using assms(2) that print_int_chars
    by (auto simp: global_line_def menu_key_def storable_key_def LF_def CTRL_Z_def)
  ultimately have "\<forall>l \<in> set (saved_lines st). clean l"
    using assms(1) by (auto simp: saved_lines_def)
  then have "device_part (Save True st old) = preserve False (saved_lines st)"
    by (simp add: device_part_def Save_def written_lines_read)
  also have "\<dots> = preserve False (preservedDeviceLines st)"
    using assms(1,2) by (simp add: saved_lines_def)
      (rule preserve_append_globals, force simp: menu_key_def prefix_def hd_conv_nth neq_Nil_conv)
  also have "\<dots> = preservedDeviceLines st"
    using assms(3) preserve_idem by (auto simp: device_part_def split: option.splits)
  finally show ?thesis .
qed

definition storable_registry :: "registry \<Rightarrow> bool" where
  "storable_registry r \<longleftrightarrow> ascending r \<and> (\<forall>e \<in> set r. clean (fst e) \<and> storable_state (snd e))"

lemma storable_alt:
  "storable st \<longleftrightarrow> ascending (settings st) \<and> (\<forall>e \<in> set (settings st). storable_key (fst e))
     \<and> storable_registry (loadedDeviceStates st)"
  by (auto simp: storable_def storable_key_def storable_registry_def)

lemma storable_set_all:
  assumes "ascending (settings st)" "\<forall>e \<in> set (settings st). storable_key (fst e)"
    and "\<forall>e \<in> set ch. storable_key (fst e)"
  shows "ascending (settings (set_all ch st)) \<and> (\<forall>e \<in> set (settings (set_all ch st)). storable_key (fst e))"
  using assms by (auto simp: set_all_frame om.put_all_ascending dest!: put_all_members)

text \<open>A session that leaves the saving on stores its registry, whatever was stored before.\<close>

lemma session_on:
  assumes "Get SAVE_DEVICE_STATES (set_all ch (Load huge content no_settings)) = 1"
    and "ascending (settings (Load huge content no_settings))"
    and "\<forall>e \<in> set (settings (Load huge content no_settings)). storable_key (fst e)"
    and "\<forall>e \<in> set ch. storable_key (fst e)"
    and "storable_registry (leave (GetDeviceStates (Load huge content no_settings)))"
  shows "GetDeviceStates (Load huge (settings_session huge ch leave content) no_settings)
    = map forget_zoom (leave (GetDeviceStates (Load huge content no_settings)))"
proof -
  let ?st = "set_all ch (Load huge content no_settings)"
  let ?r = "leave (GetDeviceStates (Load huge content no_settings))"
  have "storable (UpdateDeviceStates ?r ?st)"
    using storable_set_all[OF assms(2-4)] assms(1,5) by (simp add: storable_alt UpdateDeviceStates_def)
  from Load_Save[OF this, where huge = huge and old = content and st' = no_settings] assms(1) show ?thesis
    unfolding settings_session_def Let_def
    by (simp add: GetDeviceStates_def) (simp add: UpdateDeviceStates_def Get_def)
qed

section \<open>Properties\<close>

definition demo_settings :: settings_state where
  "demo_settings = \<lparr>settings = [(''SAVE_DEVICE_STATES'', 1), (''SHOW_STATS'', 0)],
     loadedDeviceStates = [(''Pixel'', windows_defaults\<lparr>w_fps := 25, w_zoom := 0x40000000,
        w_filterSliderValues := [(''EXPOSURE'', 40)], w_activeEffectFilter := ''SEPIA''\<rparr>)],
     preservedDeviceLines = []\<rparr>"

lemma demo_settings_ok:
  "storable demo_settings" "Get SAVE_DEVICE_STATES demo_settings = 1"
  by (simp_all add: storable_def storable_state_def demo_settings_def Get_def SAVE_DEVICE_STATES_def
      LF_def CTRL_Z_def less_char_def)

text \<open>
  C30: With the saving of device states on, \<open>Load\<close> reads back what \<open>Save\<close> wrote: all settings and
  all device states with every option, but for the zoom, which is not in the file and comes back
  as 1. The names and the effect may hold anything but a line feed or \<open>Ctrl-Z\<close>, filter names and
  the keys of settings no \<open>=\<close> either; what \<open>Load\<close> finds in the program before does not matter,
  nor what the library makes of numbers that are no \<open>int\<close>.
\<close>

theorem settings_round_trip:
  assumes "storable st" and "Get SAVE_DEVICE_STATES st = 1"
  shows "Load huge (Save True st old) st'
    = st\<lparr>loadedDeviceStates := map (\<lambda>(nm, s). (nm, s\<lparr>w_zoom := 0x3F800000\<rparr>)) (loadedDeviceStates st),
         preservedDeviceLines := []\<rparr>"
proof -
  have "forget_zoom = (\<lambda>(nm, s). (nm, s\<lparr>w_zoom := 0x3F800000\<rparr>))"
    by (auto simp: forget_zoom_def)
  then show ?thesis using Load_Save[OF assms] by simp
qed

lemma settings_round_trip_witness:
  "Load (\<lambda>_. 0) (Save True demo_settings None) no_settings
    = demo_settings\<lparr>loadedDeviceStates := [(''Pixel'', windows_defaults\<lparr>w_fps := 25,
        w_filterSliderValues := [(''EXPOSURE'', 40)], w_activeEffectFilter := ''SEPIA''\<rparr>)]\<rparr>"
  using settings_round_trip[OF demo_settings_ok, of "\<lambda>_. 0" None no_settings]
  by (simp add: demo_settings_def windows_defaults_def)



text \<open>
  With the saving off (any other value, or none), the lines of the device sections of the file
  go through a session unchanged, whatever the menus change and whatever the devices do; but if
  the saving is switched on in a session, the registry of that session, which started empty,
  takes their place.
\<close>

theorem lines_kept_while_off:
  assumes "Get SAVE_DEVICE_STATES (Load huge (Some text) no_settings) \<noteq> 1"
    and "\<forall>e \<in> set changes. menu_key (fst e)"
    and "\<forall>e \<in> set (settings (Load huge (Some text) no_settings)). \<not> prefix ''['' (fst e)"
    and "storable_registry (leave [])"
  shows "if Get SAVE_DEVICE_STATES (set_all changes (Load huge (Some text) no_settings)) = 1
    then GetDeviceStates (Load huge (settings_session huge changes leave (Some text)) no_settings)
      = map forget_zoom (leave [])
    else device_part (settings_session huge changes leave (Some text)) = device_part (Some text)"
proof -
  let ?l = "Load huge (Some text) no_settings"
  have states: "GetDeviceStates ?l = []" using assms(1) by (simp add: GetDeviceStates_def)
  have ok: "\<forall>e \<in> set (settings ?l). storable_key (fst e)" "ascending (settings ?l)"
    using Load_settings_ok by blast+
  show ?thesis
  proof (cases "Get SAVE_DEVICE_STATES (set_all changes ?l) = 1")
    case True
    then show ?thesis
      using session_on[of changes huge "Some text" leave] ok assms(2,4) by (simp add: states menu_key_def)
  next
    case False
    have "device_part (Save True (set_all changes ?l) (Some text)) = preservedDeviceLines (set_all changes ?l)"
      using False assms(2,3) ok
      by (intro device_part_off[where content = "Some text"])
        (auto simp: set_all_frame menu_key_def Load_preserved[OF assms(1)] dest!: put_all_members)
    then show ?thesis
      using False unfolding settings_session_def Let_def
      by (simp add: UpdateDeviceStates_def states set_all_frame Load_preserved[OF assms(1)])
  qed
qed

definition demo_text :: string where
  "demo_text = print_lines [''SAVE_DEVICE_STATES=0'', [], ''[DEVICE:Pixel]'', ''fps=25'']"

lemma lines_kept_while_off_witness:
  "device_part (settings_session (\<lambda>_. 0) [(''SHOW_STATS'', 1)] (\<lambda>r. r) (Some demo_text)) = device_part (Some demo_text)"
proof -
  have l: "settings (Load (\<lambda>_. 0) (Some demo_text) no_settings) = [(''SAVE_DEVICE_STATES'', 0)]"
    by code_simp
  show ?thesis
    using lines_kept_while_off[of "\<lambda>_. 0" demo_text "[(''SHOW_STATS'', 1)]" "\<lambda>r. r"] l
    by (simp add: Get_def SAVE_DEVICE_STATES_def menu_key_def storable_key_def LF_def CTRL_Z_def
        storable_registry_def set_all_def Set_def less_char_def)
qed

end
