(* ===== verification/Windows_Application.thy ===== *)
theory Windows_Application
  imports Windows_Server Windows_Settings Binary_Floats
begin

text \<open>
  The user interface of the Windows client as far as it decides anything: the buttons and menus of
  \<open>windows/src/application.cpp\<close>, the stream configuration dialog \<open>gui/streamconfigdlg.cpp\<close> and the
  image adjustment dialog \<open>gui/imgadjdlg.cpp\<close>, on top of the application of \<open>Windows_Server\<close>.
  wxWidgets is a record of functions; what the code relies on is \<open>lawful_toolkit\<close>.
\<close>

section \<open>The toolkit\<close>




section \<open>Buttons\<close>










section \<open>The stream configuration dialog\<close>

definition MIN_BITRATE :: int where "MIN_BITRATE = 500"
definition MAX_BITRATE :: int where "MAX_BITRATE = 25000"

record config_dialog =
  resChoice :: "string list"
  resSelection :: int
  fpsSelection :: nat
  rbAdaptive :: bool
  staticSlider :: int
  minSlider :: int
  maxSlider :: int
  codecChoice :: nat
  focusChoice :: int
  stabilizationCheck :: bool
  flashCheck :: bool

definition resolution_entry :: "Resolution \<Rightarrow> string" where
  "resolution_entry r = print_int (fst (int_resolution r)) @ '' x '' @ print_int (snd (int_resolution r))"



















section \<open>The image adjustment dialog\<close>








section \<open>The desktop\<close>











definition when_possible :: "bool \<Rightarrow> 'a \<Rightarrow> 'a option" where
  "when_possible b x = (if b then Some x else None)"


section \<open>Options that every activation accepts\<close>

definition kbps_ok :: "int \<Rightarrow> bool" where
  "kbps_ok v \<longleftrightarrow> MIN_BITRATE \<le> v \<and> v \<le> MAX_BITRATE"




definition picture_size_ok :: "int \<Rightarrow> int \<Rightarrow> bool" where
  "picture_size_ok w h \<longleftrightarrow> 160 \<le> w \<and> w \<le> 8192 \<and> 160 \<le> h \<and> h \<le> 8192 \<and> w * h \<le> 16777216"















definition dialog_rates :: "config_dialog \<Rightarrow> bool" where
  "dialog_rates dlg \<longleftrightarrow> kbps_ok (staticSlider dlg) \<and> kbps_ok (minSlider dlg) \<and> kbps_ok (maxSlider dlg)
     \<and> minSlider dlg \<le> maxSlider dlg"



section \<open>What the dialogs hold\<close>

definition entry_ok :: "string \<Rightarrow> bool" where
  "entry_ok e \<longleftrightarrow> (\<exists>r. e = resolution_entry r \<and> picture_size_ok (uint (width r)) (uint (height r)))"

definition config_ok :: "config_dialog \<Rightarrow> bool" where
  "config_ok dlg \<longleftrightarrow> dialog_rates dlg \<and> 0 \<le> focusChoice dlg \<and> focusChoice dlg \<le> 1
     \<and> (\<forall>e \<in> set (resChoice dlg). entry_ok e)"












section \<open>Selecting keeps the options good\<close>






section \<open>The application stays well formed\<close>



















section \<open>The desktop stays well formed\<close>







lemma when_possible_iff [simp]: "when_possible b x = Some y \<longleftrightarrow> b \<and> y = x"
  by (auto simp: when_possible_def)

lemma config_ok_update [simp]:
  "config_ok (dlg\<lparr>resSelection := i\<rparr>) = config_ok dlg" "config_ok (dlg\<lparr>fpsSelection := j\<rparr>) = config_ok dlg"
  "config_ok (dlg\<lparr>rbAdaptive := a\<rparr>) = config_ok dlg" "config_ok (dlg\<lparr>codecChoice := c\<rparr>) = config_ok dlg"
  "config_ok (dlg\<lparr>stabilizationCheck := b\<rparr>) = config_ok dlg" "config_ok (dlg\<lparr>flashCheck := b\<rparr>) = config_ok dlg"
  "0 \<le> f \<Longrightarrow> f \<le> 1 \<Longrightarrow> config_ok dlg \<Longrightarrow> config_ok (dlg\<lparr>focusChoice := f\<rparr>)"
  by (simp_all add: config_ok_def dialog_rates_def)

















section \<open>Properties\<close>





end
