(* ===== verification/Windows_Views.thy ===== *)
theory Windows_Views
  imports Windows_Application Windows_Receiver
begin

text \<open>
  What the window of the Windows client shows and what its menu does: the menu and its settings
  (\<open>gui/window.cpp\<close>, \<open>Application::OnMenuEvent\<close>), the list of devices
  (\<open>Application::UpdateAvailableDevices\<close>), the statistics, the table of devices
  (\<open>gui/devicesview.cpp\<close>) and the picture of the QR code (\<open>gui/qrconview.cpp\<close>).
\<close>

section \<open>The menu\<close>

definition HIDE2TRAY :: int where "HIDE2TRAY = 102"
definition SHOWSTATS :: int where "SHOWSTATS = 103"
definition SAVESTATE :: int where "SAVESTATE = 104"
definition DS_SD :: int where "DS_SD = 105"
definition DS_HD :: int where "DS_HD = 106"
definition DS_FHD :: int where "DS_FHD = 107"
definition DS_QHD :: int where "DS_QHD = 108"

lemmas menu_ids = HIDE2TRAY_def SHOWSTATS_def SAVESTATE_def DS_SD_def DS_HD_def DS_FHD_def DS_QHD_def

text \<open>The checked items, the item marked in the group of resolutions, and whether the statistics are shown.\<close>

record menu =
  hide_checked :: bool
  stats_checked :: bool
  save_checked :: bool
  marked_resolution :: int
  stats_shown :: bool

definition InitializeMenu :: "settings_state \<Rightarrow> menu" where
  "InitializeMenu st =
     (let selected = sint (Get ''DIRECTSHOW_RESOLUTION'' st)
      in \<lparr>hide_checked = (Get ''MINIMIZE_TASKBAR'' st = 1), stats_checked = (Get ''SHOW_STATS'' st = 1),
          save_checked = (Get ''SAVE_DEVICE_STATE'' st = 1),
          marked_resolution = (if selected \<noteq> -1 then selected else 0) + 105,
          stats_shown = (Get ''SHOW_STATS'' st = 1)\<rparr>)"

definition bool_setting :: "bool \<Rightarrow> 32 word" where
  "bool_setting b = (if b then 1 else 0)"

text \<open>The handler; \<open>checked\<close> is what \<open>IsChecked\<close> says of the item, which the toolkit has toggled.\<close>

definition OnMenuEvent :: "int \<Rightarrow> bool \<Rightarrow> menu \<times> settings_state \<Rightarrow> menu \<times> settings_state" where
  "OnMenuEvent ident checked w =
     (let (m, st) = w
      in if ident = HIDE2TRAY then (m, Set ''MINIMIZE_TASKBAR'' (bool_setting checked) st)
         else if ident = SHOWSTATS then (m\<lparr>stats_shown := checked\<rparr>, Set ''SHOW_STATS'' (bool_setting checked) st)
         else if ident = SAVESTATE then (m, Set ''SAVE_DEVICE_STATES'' (bool_setting checked) st)
         else if ident \<in> {DS_SD, DS_HD, DS_FHD, DS_QHD}
         then (m, Set ''DIRECTSHOW_RESOLUTION'' (word_of_int (ident - DS_SD)) st)
         else (m, st))"

text \<open>A click: the toolkit toggles a check item or marks an item of the group, then the handler runs.\<close>

definition click :: "int \<Rightarrow> menu \<times> settings_state \<Rightarrow> menu \<times> settings_state" where
  "click ident w =
     (let (m, st) = w
      in if ident = HIDE2TRAY then OnMenuEvent ident (\<not> hide_checked m) (m\<lparr>hide_checked := \<not> hide_checked m\<rparr>, st)
         else if ident = SHOWSTATS then OnMenuEvent ident (\<not> stats_checked m) (m\<lparr>stats_checked := \<not> stats_checked m\<rparr>, st)
         else if ident = SAVESTATE then OnMenuEvent ident (\<not> save_checked m) (m\<lparr>save_checked := \<not> save_checked m\<rparr>, st)
         else if ident \<in> {DS_SD, DS_HD, DS_FHD, DS_QHD} then OnMenuEvent ident True (m\<lparr>marked_resolution := ident\<rparr>, st)
         else OnMenuEvent ident False (m, st))"

definition clicks :: "int list \<Rightarrow> menu \<times> settings_state \<Rightarrow> menu \<times> settings_state" where
  "clicks ids w = fold click ids w"

text \<open>The size of the virtual camera that \<open>OnInit\<close> creates.\<close>

definition directshow_size :: "settings_state \<Rightarrow> int \<times> int" where
  "directshow_size st =
     (let v = sint (Get ''DIRECTSHOW_RESOLUTION'' st) + DS_SD
      in if v = DS_SD then (640, 480) else if v = DS_HD then (1280, 720)
         else if v = DS_FHD then (1920, 1080) else if v = DS_QHD then (3840, 2160) else (1280, 720))"

definition MinimizeToTaskbar :: "settings_state \<Rightarrow> bool" where
  "MinimizeToTaskbar st \<longleftrightarrow> Get ''MINIMIZE_TASKBAR'' st = 1"

section \<open>The statistics\<close>

definition fixed_one :: "rat \<Rightarrow> string" where
  "fixed_one x = (let n = nat (round_half_even (10 * x)) in print_nat (n div 10) @ ''.'' @ print_nat (n mod 10))"

definition print_integer :: "int \<Rightarrow> string" where
  "print_integer n = (if n < 0 then CHR ''-'' # print_nat (nat (- n)) else print_nat (nat n))"

definition OnStatsReceived :: "settings_state \<Rightarrow> stats \<Rightarrow> string option" where
  "OnStatsReceived st s =
     (if Get ''SHOW_STATS'' st \<noteq> 0
      then Some (print_integer (stat_width s) @ ''p@'' @ print_integer (stat_fps s) @ ''fps'' @ [LF]
        @ fixed_one (stat_bitrate s) @ ''Mbps'')
      else None)"

section \<open>The list of devices\<close>

record source_choice =
  entries :: "string list"
  chosen :: int

definition UpdateAvailableDevices :: "application \<Rightarrow> source_choice" where
  "UpdateAvailableDevices app =
     (let currentSelectionIndex = streamingDevice app; devices = descriptors app
      in if devices = [] then \<lparr>entries = [''No devices''], chosen = 0\<rparr>
         else \<lparr>entries = ''Select device'' # map deviceName devices,
               chosen = (if currentSelectionIndex \<ge> 0 \<and> currentSelectionIndex < int (length devices)
                         then currentSelectionIndex + 1 else 0)\<rparr>)"

text \<open>The window starts with one entry and none selected.\<close>

definition new_choice :: source_choice where
  "new_choice = \<lparr>entries = [''No devices''], chosen = -1\<rparr>"

text \<open>
  The steps of \<open>Windows_Server\<close> with the list on the window: connecting and disconnecting update
  it, and only its entries can be selected.
\<close>

fun view_step ::
  "(windows_descriptor list \<Rightarrow> windows_descriptor list) \<Rightarrow> event \<Rightarrow> application \<times> source_choice
     \<Rightarrow> (application \<times> source_choice) option" where
  "view_step residue (Connects cid d) (app, ch) =
     map_option (\<lambda>a. (a, UpdateAvailableDevices a)) (app_step residue (Connects cid d) app)"
| "view_step residue (Disconnects cid) (app, ch) =
     map_option (\<lambda>a. (a, if cid \<in> client_id ` set (connections app) then UpdateAvailableDevices a else ch))
       (app_step residue (Disconnects cid) app)"
| "view_step residue (Selects i) (app, ch) =
     (if 0 \<le> i \<and> i < int (length (entries ch))
      then map_option (\<lambda>a. (a, ch\<lparr>chosen := i\<rparr>)) (app_step residue (Selects i) app) else Some (app, ch))"
| "view_step residue (Commands c) (app, ch) = map_option (\<lambda>a. (a, ch)) (app_step residue (Commands c) app)"

fun view_run ::
  "(windows_descriptor list \<Rightarrow> windows_descriptor list) \<Rightarrow> event list \<Rightarrow> application \<times> source_choice
     \<Rightarrow> (application \<times> source_choice) option" where
  "view_run residue [] v = Some v"
| "view_run residue (ev # evs) v = (case view_step residue ev v of None \<Rightarrow> None | Some v \<Rightarrow> view_run residue evs v)"

section \<open>The table of devices\<close>

text \<open>\<open>std::max_element\<close>: the first of the largest elements.\<close>

definition pixel_count :: "Resolution \<Rightarrow> nat" where
  "pixel_count r = unat (width r) * unat (height r)"

fun max_resolution :: "Resolution \<Rightarrow> Resolution list \<Rightarrow> Resolution" where
  "max_resolution best [] = best"
| "max_resolution best (r # rs) = max_resolution (if pixel_count best < pixel_count r then r else best) rs"

definition getMaxResString :: "Resolution list \<Rightarrow> string" where
  "getMaxResString resList =
     (case resList of
        [] \<Rightarrow> ''-''
      | r # rs \<Rightarrow> let m = max_resolution r rs in print_nat (unat (width m)) @ ''x'' @ print_nat (unat (height m)))"

lemma max_resolution_max:
  "max_resolution best rs \<in> insert best (set rs) \<and> (\<forall>r \<in> insert best (set rs). pixel_count r \<le> pixel_count (max_resolution best rs))"
proof (induction rs arbitrary: best)
  case (Cons r rs)
  show ?case
    using Cons.IH[of "if pixel_count best < pixel_count r then r else best"] by (auto split: if_splits)
qed simp

text \<open>The address without its user info, as the table shows it, and the rows of the table.\<close>

definition redactedUrl :: "windows_descriptor \<Rightarrow> string" where
  "redactedUrl d =
     (let url = deviceUrl d
      in if \<not> prefix ''rtsp://'' url then ''<invalid-url>''
         else case find_first (\<lambda>c. c = CHR ''@'') (drop 7 url) of
             None \<Rightarrow> url
           | Some i \<Rightarrow> ''rtsp://<redacted>@'' @ drop (7 + i + 1) url)"

definition device_row :: "nat \<Rightarrow> windows_descriptor \<Rightarrow> string list" where
  "device_row i dev = [print_nat (i + 1), deviceName dev, redactedUrl dev,
     getMaxResString (availableBackResolutions dev), getMaxResString (availableFrontResolutions dev)]"

definition DevicesView :: "windows_descriptor list \<Rightarrow> string list list" where
  "DevicesView devices = map (\<lambda>i. device_row i (devices ! i)) [0..<length devices]"

lemma drop_front: "length pre = 7 \<Longrightarrow> drop (7 + length xs + 1) (pre @ xs @ c # ys) = ys"
  by simp

lemma redacted_loopback:
  assumes "list_all base64url cred"
  shows "redactedUrl (d\<lparr>deviceUrl := loopback_url cred token\<rparr>) = ''rtsp://<redacted>@127.0.0.1:8554/live/'' @ token"
proof -
  let ?user = "''opencam:'' @ cred" and ?rest = "''127.0.0.1:8554/live/'' @ token"
  have no: "\<forall>c \<in> set ?user. \<not> c = CHR ''@''"
    using assms no_at(1) by (auto simp: list_all_iff)
  have url: "loopback_url cred token = ''rtsp://'' @ ?user @ CHR ''@'' # ?rest" by (simp add: loopback_url_def)
  have f: "find_first (\<lambda>c. c = CHR ''@'') (drop 7 (loopback_url cred token)) = Some (length ?user)"
    using find_first_append[OF no, of "CHR ''@''" ?rest] by (simp add: loopback_url_def)
  have d: "drop (7 + length ?user + 1) (loopback_url cred token) = ?rest"
    unfolding url by (rule drop_front) simp
  have u: "deviceUrl (d\<lparr>deviceUrl := loopback_url cred token\<rparr>) = loopback_url cred token" by simp
  have "prefix ''rtsp://'' (loopback_url cred token)" unfolding url by simp
  then have "redactedUrl (d\<lparr>deviceUrl := loopback_url cred token\<rparr>) = ''rtsp://<redacted>@'' @ ?rest"
    unfolding redactedUrl_def Let_def u
    by (simp only: f d option.case if_True if_False not_True_eq_False)
  then show ?thesis by simp
qed

text \<open>
  The table tells nothing about the credentials: for addresses that the reader of descriptors
  accepts, it is the same whatever their credentials are.
\<close>

definition other_credential :: "windows_descriptor \<Rightarrow> windows_descriptor \<Rightarrow> bool" where
  "other_credential d d' \<longleftrightarrow> (\<exists>cred cred' token. list_all base64url cred \<and> list_all base64url cred'
     \<and> deviceUrl d = loopback_url cred token \<and> d' = d\<lparr>deviceUrl := loopback_url cred' token\<rparr>)"

theorem table_hides_credentials:
  assumes "list_all2 other_credential ds ds'"
  shows "DevicesView ds = DevicesView ds'"
proof -
  have row: "device_row i d = device_row i d'" if other: "other_credential d d'" for i d d'
  proof -
    obtain cred cred' token where c: "list_all base64url cred" "list_all base64url cred'"
        "deviceUrl d = loopback_url cred token" "d' = d\<lparr>deviceUrl := loopback_url cred' token\<rparr>"
      using other unfolding other_credential_def by blast
    have "d = d\<lparr>deviceUrl := loopback_url cred token\<rparr>" using c(3) by simp
    then have "redactedUrl d = redactedUrl d'"
      using redacted_loopback[OF c(1), where d = d and token = token]
        redacted_loopback[OF c(2), where d = d and token = token] c(4) by simp
    then show ?thesis using c(4) by (simp add: device_row_def)
  qed
  have "\<forall>i < length ds. device_row i (ds ! i) = device_row i (ds' ! i)" "length ds = length ds'"
    using assms row by (auto simp: list_all2_conv_all_nth)
  then show ?thesis by (simp add: DevicesView_def)
qed

section \<open>The QR code\<close>

definition GenerateQRCode_text :: "string \<Rightarrow> string \<Rightarrow> string" where
  "GenerateQRCode_text address port = address @ '':'' @ port"

text \<open>The two loops; the array is not initialised before.\<close>

definition set_pixel :: "nat \<Rightarrow> (nat \<Rightarrow> nat \<Rightarrow> bool) \<Rightarrow> nat \<Rightarrow> nat \<Rightarrow> bytes \<Rightarrow> bytes" where
  "set_pixel sz getModule y x bs =
     (let v = (if getModule x y then 0 else 255); i = (y * sz + x) * 3
      in bs[i := v, i + 1 := v, i + 2 := v])"

definition GenerateImageFromQR :: "nat \<Rightarrow> (nat \<Rightarrow> nat \<Rightarrow> bool) \<Rightarrow> bytes \<Rightarrow> bytes" where
  "GenerateImageFromQR sz getModule uninitialised =
     fold (\<lambda>y bs. fold (\<lambda>x bs. set_pixel sz getModule y x bs) [0..<sz] bs) [0..<sz] uninitialised"

lemma length_set_pixel [simp]: "length (set_pixel sz m y x bs) = length bs"
  by (simp add: set_pixel_def Let_def)

lemma set_pixel_nth:
  assumes "j < length bs"
  shows "set_pixel sz m y x bs ! j = (if j div 3 = y * sz + x then (if m x y then 0 else 255) else bs ! j)"
proof -
  have "j div 3 = q \<longleftrightarrow> j = q * 3 \<or> j = q * 3 + 1 \<or> j = q * 3 + 2" for q by auto
  then show ?thesis using assms by (auto simp: set_pixel_def Let_def nth_list_update)
qed

lemma row_pixels:
  assumes "n \<le> sz" "j < length bs"
  shows "fold (\<lambda>x bs. set_pixel sz m y x bs) [0..<n] bs ! j
      = (if y * sz \<le> j div 3 \<and> j div 3 < y * sz + n then (if m (j div 3 - y * sz) y then 0 else 255) else bs ! j)
    \<and> length (fold (\<lambda>x bs. set_pixel sz m y x bs) [0..<n] bs) = length bs"
  using assms
proof (induction n)
  case (Suc n)
  then show ?case by (auto simp: set_pixel_nth)
qed auto

lemma image_rows:
  assumes "j < length bs" "n \<le> sz" "0 < sz"
  shows "fold (\<lambda>y bs. fold (\<lambda>x bs. set_pixel sz m y x bs) [0..<sz] bs) [0..<n] bs ! j
      = (if j div 3 < n * sz then (if m (j div 3 mod sz) (j div 3 div sz) then 0 else 255) else bs ! j)
    \<and> length (fold (\<lambda>y bs. fold (\<lambda>x bs. set_pixel sz m y x bs) [0..<sz] bs) [0..<n] bs) = length bs"
  using assms
proof (induction n)
  case (Suc n)
  let ?q = "j div 3"
  have "?q div sz = n \<and> ?q mod sz = ?q - n * sz" if "n * sz \<le> ?q" "?q < n * sz + sz"
  proof -
    have "?q div sz = n" using that Suc.prems(3) by (intro div_nat_eqI) (simp_all add: ac_simps)
    then show ?thesis by (simp add: minus_div_mult_eq_mod[symmetric])
  qed
  then show ?case using Suc row_pixels[of sz sz j _ m n] by (auto simp: add.commute)
qed simp

text \<open>Every pixel of the picture is black exactly where the code has a module.\<close>

lemma qr_picture:
  assumes "length bs = sz * sz * 3" "x < sz" "y < sz" "k < 3"
  shows "GenerateImageFromQR sz m bs ! ((y * sz + x) * 3 + k) = (if m x y then 0 else 255)"
proof -
  let ?j = "(y * sz + x) * 3 + k"
  have q: "?j div 3 = y * sz + x" using assms(4) by simp
  have "y * sz + x < (y + 1) * sz" using assms(2) by simp
  also have "\<dots> \<le> sz * sz" using assms(3) by (intro mult_le_mono1) simp
  finally have lt: "y * sz + x < sz * sz" .
  then have "?j < length bs" using assms(1,4) by simp
  then show ?thesis
    using image_rows[of ?j bs sz sz m] assms(2) q lt by (simp add: GenerateImageFromQR_def)
qed

section \<open>The list stays in step\<close>

lemma UpdateAvailableDevices_entries:
  "entries (UpdateAvailableDevices app) = (if descriptors app = [] then [''No devices''] else ''Select device'' # map deviceName (descriptors app))"
  by (simp add: UpdateAvailableDevices_def Let_def)

definition choice_ok :: "application \<Rightarrow> source_choice \<Rightarrow> bool" where
  "choice_ok app ch \<longleftrightarrow> entries ch = entries (UpdateAvailableDevices app)
     \<and> -1 \<le> chosen ch \<and> chosen ch < int (length (entries ch))"

lemma choice_ok_update: "choice_ok app (UpdateAvailableDevices app)"
  by (simp add: choice_ok_def UpdateAvailableDevices_def Let_def)

lemma choice_ok_cong: "descriptors app' = descriptors app \<Longrightarrow> choice_ok app ch \<Longrightarrow> choice_ok app' ch"
  by (auto simp: choice_ok_def UpdateAvailableDevices_entries)

lemma view_step_ok:
  assumes "view_step residue ev (app, ch) = Some (app', ch')" "choice_ok app ch"
  shows "choice_ok app' ch'"
proof (cases ev)
  case (Connects cid d)
  then show ?thesis using assms choice_ok_update by auto
next
  case (Disconnects cid)
  show ?thesis
  proof (cases "cid \<in> client_id ` set (connections app)")
    case True
    then show ?thesis using assms Disconnects choice_ok_update by (auto simp del: app_step.simps)
  next
    case False
    then have "List.find (\<lambda>c. client_id c = cid) (connections app) = None" by (auto simp: find_None_iff)
    then show ?thesis using assms Disconnects False by simp
  qed
next
  case (Selects i)
  show ?thesis
  proof (cases "0 \<le> i \<and> i < int (length (entries ch))")
    case True
    then have s: "OnSourceChanged i app = Some app'" "ch' = ch\<lparr>chosen := i\<rparr>" using assms(1) Selects by auto
    have "choice_ok app' ch" by (rule choice_ok_cong[OF OnSourceChanged_frame(3)[OF s(1)] assms(2)])
    then show ?thesis using True by (simp add: s(2) choice_ok_def)
  next
    case False
    then have "\<not> (0 \<le> i \<and> i < int (length (entries ch)))" by simp
    then have "app' = app" "ch' = ch" using assms(1) Selects by (simp_all only: view_step.simps if_False option.inject prod.inject)
    then show ?thesis using assms(2) by simp
  qed
next
  case (Commands c)
  then have "app' = send_command c app" "ch' = ch" using assms(1) by simp_all
  then show ?thesis
    using choice_ok_cong[OF _ assms(2), of app'] by (simp add: send_command_def server_send_frame)
qed

lemma view_run_ok:
  "view_run residue evs (app, ch) = Some (app', ch') \<Longrightarrow> choice_ok app ch \<Longrightarrow> choice_ok app' ch'"
proof (induction evs arbitrary: app ch)
  case (Cons ev evs)
  then obtain app1 ch1 where v: "view_step residue ev (app, ch) = Some (app1, ch1)"
      "view_run residue evs (app1, ch1) = Some (app', ch')"
    by (auto split: option.splits)
  show ?case by (rule Cons.IH[OF v(2) view_step_ok[OF v(1) Cons.prems(2)]])
qed simp

text \<open>A run with the list is a run without the selections that the list does not offer.\<close>

lemma view_step_app:
  assumes "view_step residue ev (app, ch) = Some (app', ch')"
  shows "app_step residue ev app = Some app' \<or> app' = app \<and> connecting [ev] = []"
  using assms by (cases ev) (auto simp del: app_step.simps split: if_splits)

lemma view_run_app:
  "view_run residue evs (app, ch) = Some (app', ch') \<Longrightarrow>
     \<exists>evs'. app_run residue evs' app = Some app' \<and> connecting evs' = connecting evs"
proof (induction evs arbitrary: app ch)
  case Nil
  then show ?case by (intro exI[of _ "[]"]) simp
next
  case (Cons ev evs)
  then obtain app1 ch1 where v: "view_step residue ev (app, ch) = Some (app1, ch1)"
      "view_run residue evs (app1, ch1) = Some (app', ch')"
    by (auto split: option.splits)
  obtain evs' where e: "app_run residue evs' app1 = Some app'" "connecting evs' = connecting evs"
    using Cons.IH[OF v(2)] by blast
  from view_step_app[OF v(1)] show ?case
  proof
    assume "app_step residue ev app = Some app1"
    then show ?thesis
      using e connecting_Cons[of ev evs] connecting_Cons[of ev evs'] by (intro exI[of _ "ev # evs'"]) simp
  next
    assume "app1 = app \<and> connecting [ev] = []"
    then show ?thesis using e connecting_Cons[of ev evs] by (intro exI[of _ evs']) simp
  qed
qed

section \<open>Properties\<close>

text \<open>
  The list of devices on the window is always usable: after any run of connects, disconnects,
  selections and commands it offers the connected devices in their order (or says that there are
  none), the mark is on an entry or nowhere, every entry can be selected without reading out of
  range, and selecting a device makes that device the one that gets the commands.
\<close>

theorem source_list_selects:
  assumes "different_devices evs" "view_run residue evs (start_application registry, new_choice) = Some (app, ch)"
    and "i < length (entries ch)"
  shows "entries ch = (if connections app = [] then [''No devices'']
        else ''Select device'' # map (deviceName \<circ> client_descriptor) (connections app))
    \<and> -1 \<le> chosen ch \<and> chosen ch < int (length (entries ch))
    \<and> (\<exists>app' ch'. view_step residue (Selects (int i)) (app, ch) = Some (app', ch') \<and> chosen ch' = int i
         \<and> (connections app \<noteq> [] \<and> 0 < i \<longrightarrow> receiver app' = Some (client_id (connections app ! (i - 1)))))"
proof -
  have "choice_ok (start_application registry) new_choice"
    by (simp add: choice_ok_def new_choice_def start_application_def UpdateAvailableDevices_entries)
  then have ok: "choice_ok app ch" using view_run_ok[OF assms(2)] by blast
  obtain evs' where e: "app_run residue evs' (start_application registry) = Some app" "connecting evs' = connecting evs"
    using view_run_app[OF assms(2)] by blast
  have "in_step app" by (rule reached_in_step[OF _ e(1)]) (use assms(1) e(2) in \<open>simp add: different_devices_def\<close>)
  then have ds: "descriptors app = map client_descriptor (connections app)" by (simp add: in_step_def)
  then have ent: "entries ch = (if connections app = [] then [''No devices'']
        else ''Select device'' # map (deviceName \<circ> client_descriptor) (connections app))"
    using ok by (simp add: choice_ok_def UpdateAvailableDevices_entries)
  have "\<exists>app'. OnSourceChanged (int i) app = Some app'"
    using assms(3) ent ds by (auto simp: OnSourceChanged_def Let_def split: if_splits)
  then obtain app' where s: "OnSourceChanged (int i) app = Some app'" by blast
  note f = OnSourceChanged_frame[OF s]
  have "receiver app' = Some (client_id (connections app ! (i - 1)))" if "connections app \<noteq> [] \<and> 0 < i"
  proof -
    have len: "i - 1 < length (map client_id (connections app))" using assms(3) ent that by auto
    have "streamingDevice app' = int i - 1" using f(4) that ds by simp
    then show ?thesis
      using that len f(1) by (simp add: receiver_alt Let_def nat_diff_distrib)
  qed
  then show ?thesis using ent ok s assms(3) by (auto simp: choice_ok_def)
qed

lemma source_list_selects_witness:
  "\<exists>app ch. view_run (\<lambda>_. []) [Connects 10 (demo_windows_device ''One'')] (start_application Map.empty, new_choice) = Some (app, ch)
     \<and> entries ch = [''Select device'', ''One'']
     \<and> (\<exists>app' ch'. view_step (\<lambda>_. []) (Selects 1) (app, ch) = Some (app', ch') \<and> receiver app' = Some 10)"
proof -
  let ?evs = "[Connects 10 (demo_windows_device ''One'')]"
  have d: "different_devices ?evs" by (simp add: different_devices_def)
  obtain app ch where v: "view_run (\<lambda>_. []) ?evs (start_application Map.empty, new_choice) = Some (app, ch)"
    and c: "entries ch = [''Select device'', ''One'']" "map client_id (connections app) = [10]"
    by (simp add: UpdateAvailableDevices_def device_connected_def AddDescriptor_def start_application_def demo_windows_device_def)
  have i: "1 < length (entries ch)" by (simp add: c(1))
  have "connections app \<noteq> []" "client_id (connections app ! 0) = 10" using c(2) by (auto simp: map_eq_Cons_conv)
  with source_list_selects[OF d v i] v c(1) show ?thesis by (simp del: view_step.simps) blast
qed

text \<open>Settings under different names do not touch each other.\<close>

lemma Get_Set: "Get k (Set k' v st) = (if k = k' then v else Get k st)"
  by (simp add: Get_def Set_def map_of_map_put)

definition menu_shows :: "menu \<Rightarrow> settings_state \<Rightarrow> bool" where
  "menu_shows m st \<longleftrightarrow> hide_checked m = (Get ''MINIMIZE_TASKBAR'' st = 1)
     \<and> stats_checked m = (Get ''SHOW_STATS'' st = 1) \<and> stats_shown m = (Get ''SHOW_STATS'' st = 1)
     \<and> marked_resolution m = (if Get ''DIRECTSHOW_RESOLUTION'' st = -1 then 105 else sint (Get ''DIRECTSHOW_RESOLUTION'' st) + 105)"

lemma sint_minus_one_iff: "sint (w :: 32 word) = -1 \<longleftrightarrow> w = -1"
  by (metis sint_n1 signed_word_eqI)

lemma open_menu_shows: "menu_shows (InitializeMenu st) st"
  by (simp add: menu_shows_def InitializeMenu_def Let_def sint_minus_one_iff)

lemma click_shows: "menu_shows (fst w) (snd w) \<Longrightarrow> menu_shows (fst (click i w)) (snd (click i w))"
  by (cases w) (auto simp: click_def OnMenuEvent_def menu_shows_def Get_Set bool_setting_def menu_ids)

lemma clicks_show: "menu_shows (fst w) (snd w) \<Longrightarrow> menu_shows (fst (clicks is w)) (snd (clicks is w))"
  unfolding clicks_def by (induction "is" arbitrary: w) (simp_all add: click_shows)

lemma click_frame:
  "Get ''SAVE_DEVICE_STATE'' (snd (click i w)) = Get ''SAVE_DEVICE_STATE'' (snd w)"
  "Get ''DIRECTSHOW_RESOLUTION'' (snd (click i w))
    = (if i \<in> {DS_SD, DS_HD, DS_FHD, DS_QHD} then word_of_int (i - DS_SD) else Get ''DIRECTSHOW_RESOLUTION'' (snd w))"
  by (cases w; auto simp: click_def OnMenuEvent_def Get_Set menu_ids)+

lemma clicks_frame: "Get ''SAVE_DEVICE_STATE'' (snd (clicks is w)) = Get ''SAVE_DEVICE_STATE'' (snd w)"
  unfolding clicks_def by (induction "is" arbitrary: w) (simp_all add: click_frame)

text \<open>The switch of the presets is what its item showed at the last click on it.\<close>

lemma click_save:
  "Get ''SAVE_DEVICE_STATES'' (snd (click i w))
     = (if i = SAVESTATE then bool_setting (save_checked (fst (click i w))) else Get ''SAVE_DEVICE_STATES'' (snd w))"
  "i \<noteq> SAVESTATE \<Longrightarrow> save_checked (fst (click i w)) = save_checked (fst w)"
  by (cases w; auto simp: click_def OnMenuEvent_def Get_Set menu_ids)+

lemma clicks_save:
  "Get ''SAVE_DEVICE_STATES'' (snd (clicks is w))
     = (if SAVESTATE \<in> set is then bool_setting (save_checked (fst (clicks is w))) else Get ''SAVE_DEVICE_STATES'' (snd w))"
  unfolding clicks_def by (induction "is" rule: rev_induct) (simp_all add: click_save)

text \<open>The resolutions as the items of the menu name them.\<close>

definition resolution_items :: "(int \<times> int \<times> int) list" where
  "resolution_items = [(DS_SD, 640, 480), (DS_HD, 1280, 720), (DS_FHD, 1920, 1080), (DS_QHD, 3840, 2160)]"

lemma item_size:
  assumes "menu_shows m st" "Get ''DIRECTSHOW_RESOLUTION'' st \<noteq> -1" "map_of resolution_items (marked_resolution m) = Some r"
  shows "directshow_size st = r"
  using assms by (auto simp: menu_shows_def directshow_size_def resolution_items_def Let_def menu_ids split: if_splits)

text \<open>
  C38: The menu and the settings after any clicks on a menu opened on them agree: a menu opened on
  the new settings has the same checked items, the same mark and the same statistics, except for
  the item of the presets. That item is stored under one name and read under another, so it comes
  back as it was before the clicks, though the last click on it set the switch of the presets to what it
  showed. The marked resolution is the size of the virtual camera that the next start creates, once
  one has been chosen; before that the menu marks 640x480 while the camera has 1280x720.
\<close>

theorem menu_shows_settings:
  assumes "clicks is (InitializeMenu st, st) = (m, st')"
  shows "InitializeMenu st' = m\<lparr>save_checked := save_checked (InitializeMenu st)\<rparr>
    \<and> Get ''SAVE_DEVICE_STATES'' st'
        = (if SAVESTATE \<in> set is then bool_setting (save_checked m) else Get ''SAVE_DEVICE_STATES'' st)
    \<and> (if Get ''DIRECTSHOW_RESOLUTION'' st' = -1
        then map_of resolution_items (marked_resolution m) = Some (640, 480) \<and> directshow_size st' = (1280, 720)
        else \<forall>r. map_of resolution_items (marked_resolution m) = Some r \<longrightarrow> directshow_size st' = r)"
proof -
  have w: "fst (clicks is (InitializeMenu st, st)) = m" "snd (clicks is (InitializeMenu st, st)) = st'"
    using assms by simp_all
  have m: "menu_shows m st'" using clicks_show[of "(InitializeMenu st, st)" "is"] open_menu_shows w by simp
  have k: "Get ''SAVE_DEVICE_STATE'' st' = Get ''SAVE_DEVICE_STATE'' st"
    using clicks_frame[of "is" "(InitializeMenu st, st)"] w by simp
  have "InitializeMenu st' = m\<lparr>save_checked := save_checked (InitializeMenu st)\<rparr>"
    using m open_menu_shows[of st'] k by (simp add: menu_shows_def InitializeMenu_def Let_def)
  moreover have "Get ''SAVE_DEVICE_STATES'' st'
        = (if SAVESTATE \<in> set is then bool_setting (save_checked m) else Get ''SAVE_DEVICE_STATES'' st)"
    using clicks_save[of "is" "(InitializeMenu st, st)"] w by simp
  moreover have "map_of resolution_items (marked_resolution m) = Some (640, 480) \<and> directshow_size st' = (1280, 720)"
    if "Get ''DIRECTSHOW_RESOLUTION'' st' = -1"
    using that m by (simp add: menu_shows_def resolution_items_def directshow_size_def menu_ids)
  ultimately show ?thesis using item_size[OF m] by simp
qed

lemma menu_shows_settings_witness:
  "\<exists>m st. clicks [SAVESTATE, DS_FHD] (InitializeMenu no_settings, no_settings) = (m, st)
     \<and> save_checked m \<and> \<not> save_checked (InitializeMenu st) \<and> Get ''SAVE_DEVICE_STATES'' st = 1
     \<and> directshow_size st = (1920, 1080)"
proof -
  let ?w = "clicks [SAVESTATE, DS_FHD] (InitializeMenu no_settings, no_settings)"
  have c: "?w = (fst ?w, snd ?w)" by simp
  have "Get k no_settings = -1" for k by (simp add: Get_def no_settings_def)
  then have "save_checked (fst ?w)" "\<not> save_checked (InitializeMenu no_settings)" "marked_resolution (fst ?w) = DS_FHD"
      "Get ''DIRECTSHOW_RESOLUTION'' (snd ?w) \<noteq> -1"
    by (simp_all add: clicks_def click_def OnMenuEvent_def InitializeMenu_def menu_ids Get_Set bool_setting_def)
  with menu_shows_settings[OF c] c show ?thesis
    by (intro exI[of _ "fst ?w"] exI[of _ "snd ?w"]) (auto simp: resolution_items_def bool_setting_def menu_ids)
qed

end
