(* ===== verification/Spec2Isabelle.thy ===== *)
theory Spec2Isabelle
  imports Controller_Properties Diagnostic_Redaction Windows_Video Windows_Lifecycle Windows_Views
begin

text \<open>
  A verification library for OpenCam, which turns a phone into a webcam: the phone sends its
  video over RTSP, the computer shows it as a virtual camera, and a control connection between
  the two, paired by a QR code, carries a descriptor of the phone, the activation of the stream
  and error reports. The library models the Linux controller under \<open>linux/src\<close> and the Windows
  client under \<open>windows/src\<close>, which works over a USB tunnel.

  \<^bold>\<open>The parts and their theories.\<close>
  \<^item> \<open>OC_Prelude\<close>: bytes, big-endian coding, buffers, searching in strings, the collections
    \<open>codec_simps\<close>, \<open>io_frame\<close>, \<open>clock_mono\<close>.
  \<^item> \<open>Socket_IO\<close>: one connected socket as a record (bytes still to come, bytes written, the
    answers of the coming \<open>poll\<close> and \<open>recv\<close>/\<open>send\<close> calls, the clock) and \<open>waitFor\<close>,
    \<open>transfer\<close> of \<open>control_protocol.cpp\<close>.
  \<^item> \<open>Message_Stream\<close>: the locale of a stream of encoded messages, with its facts proved once
    and interpreted on frames and on the secure channel.
  \<^item> \<open>Control_Frames\<close>, \<open>Hex_Codec\<close>, \<open>Openssl_Crypto\<close>, \<open>Secure_Channel\<close>,
    \<open>Channel_Session\<close>: the layers of \<open>control_protocol.cpp\<close>, from \<open>sendFrame\<close> and
    \<open>receiveFrame\<close> to whole sessions of \<open>AuthenticatedChannel\<close>. \<open>Sample_Library\<close> is a concrete
    library behind the OpenSSL interface, for the witnesses.
  \<^item> \<open>Byte_Readers\<close>: readers of binary data and the locales of a reader as a codec
    (\<open>codec\<close>, \<open>stream_codec\<close>, \<open>counted_codec\<close>), interpreted on the readers of both clients.
  \<^item> \<open>Utf8\<close>, \<open>Device_Descriptor\<close> (\<open>device_descriptor.cpp\<close>), \<open>Stream_Options\<close>
    (\<open>stream_options.cpp\<close> and the reader of the Android side), \<open>Rtsp_Endpoint\<close>
    (\<open>security_validation.cpp\<close>), \<open>Diagnostic_Redaction\<close> (\<open>diagnostic_redaction.cpp\<close>).
  \<^item> \<open>Linux_Host\<close>: \<open>network.cpp\<close>, \<open>qr.cpp\<close>, \<open>v4l2_device.cpp\<close>, \<open>rtsp_probe.cpp\<close>.
  \<^item> \<open>Media_Pipeline\<close> (\<open>media_pipeline.cpp\<close>): the negotiation with the virtual camera, the
    packing of frames, the decode loop of the worker and the object with its state and thread.
  \<^item> \<open>Controller\<close> (\<open>main.cpp\<close>), \<open>Controller_Run\<close> (its facts) and \<open>Controller_Properties\<close>.
  \<^item> \<open>Windows_Serializer\<close> and \<open>Windows_Activation\<close> (\<open>net/serializer.cpp\<close>),
    \<open>Windows_Connection\<close> (\<open>net/connection.cpp\<close>), \<open>Windows_Commands\<close> (the packets of
    \<open>rtsp/manager.cpp\<close> and the reader of the phone for them) and \<open>Windows_Server\<close>
    (\<open>net/server.cpp\<close>, the device list of \<open>rtsp/manager.cpp\<close> and the handlers of
    \<open>application.cpp\<close> that keep them in step).
  \<^item> \<open>Windows_Lifecycle\<close>: start and end of the Windows client, statement by statement of the
    main thread against the IO thread of the server, and the commands for \<open>adb.h\<close>.
  \<^item> \<open>Ordered_Map\<close> (the locale of a sorted association list, interpreted on \<open>map_put\<close>) and
    \<open>Windows_Settings\<close> (\<open>settings.cpp\<close>): the file of settings and device states, session by session.
  \<^item> \<open>Binary_Floats\<close> (rounding to \<open>float\<close> and \<open>double\<close>), \<open>Windows_Scaler\<close>
    (\<open>video/framescaler.cpp\<close> and its three subclasses), \<open>Windows_Receiver\<close>
    (\<open>rtsp/receiver.cpp\<close>, \<open>ffmpeginterrupt.h\<close>) and \<open>Windows_Outputs\<close> (the preview \<open>canvas.cpp\<close>,
    the virtual camera \<open>directshowsource.cpp\<close> and the snapshots \<open>snapshotmanager.cpp\<close>);
    \<open>Windows_Video\<close> puts them together, from the packets to the virtual camera and the screen.
  \<^item> \<open>Windows_Application\<close> (the buttons and dialogs: \<open>application.cpp\<close>,
    \<open>gui/streamconfigdlg.cpp\<close>, \<open>gui/imgadjdlg.cpp\<close>) and \<open>Windows_Views\<close> (the menu, the list of
    devices, the statistics, the table of devices and the QR code: \<open>gui/window.cpp\<close>,
    \<open>gui/devicesview.cpp\<close>, \<open>gui/qrconview.cpp\<close>).

  \<^bold>\<open>Conventions.\<close> An operation that may block for ever is option-valued and \<open>None\<close> then; every
  claim that something comes back is proved as such. Errors are branches of the models. What
  OpenSSL, the operating system and FFmpeg answer is an argument (records of functions, scripts
  of answers); the few laws of AES-GCM and of \<open>CRYPTO_memcmp\<close> the code relies on are
  hypotheses (\<open>gcm_ok\<close>, \<open>memcmp_lawful\<close>) which \<open>Sample_Library\<close> shows satisfiable. Sequence
  numbers, sizes and characters keep their widths. A \<open>float\<close> is its 32 bits, a \<open>double\<close> the rational
  it stands for with every rounding written out. Of the toolkit of the Windows client the models
  use a record of functions (\<open>toolkit\<close>, \<open>bitmap_library\<close>), of libswscale another (\<open>swscale\<close>);
  the laws relied on are \<open>lawful_toolkit\<close>, \<open>lawful_bitmaps\<close> and \<open>lawful_swscale\<close>, each with an
  instance. Threads take turns: a handler, or a statement where a theory says so, is one step.

  \<^bold>\<open>What is shown.\<close> The secure channel accepts only what the peer sealed, in order, once, and
  never repeats a nonce; parsers accept exactly the encodings of well-formed values; the
  controller gives a session only to a client that proved the secret behind the code on display,
  in time, and announced an endpoint of its own; each code opens at most one session; every
  operation returns; and a client that does everything right is served. Frames go to the virtual
  camera packed as the negotiated layout asks for, in order, and the worker ends with a message
  unless it was asked to stop. The Windows client and the phone agree on descriptors, activations,
  commands and error reports, however their bytes are split; its device list stays in step with
  its connections, and the theorems show where its index of the streaming device does not. Whatever
  is clicked in its window and dialogs, its options stay in the ranges an activation admits and the
  phone does what was clicked; its settings come back in the next session but for the zoom; its
  scalers stay inside their buffers and its preview, virtual camera and snapshots show received
  frames, in order and on black, and no frame is lost when nothing fails; stopping the receiver returns. The theorems also say where the
  client fails: device states erased by a switch, a menu item stored under another name than it is
  read, a lost stop request, statistics over whole seconds, devices announced before the manager
  exists or after it is gone.

  \<^bold>\<open>Bounds.\<close> Loops terminate on the length of their scripts or on counters of the code; there is
  no fuel. The statements on undisturbed connections ask for as many ready answers as bytes are
  moved (\<open>smooth\<close>), which is enough because every answer moves at least one byte.

  \<^bold>\<open>Not modelled.\<close> Console messages and logs; the releases of FFmpeg objects, which change no
  state of the program; of the Windows client the layout, labels and colours of its windows, the
  icon in the tray with its messages, the writing of the JPEG file of a snapshot, and interleavings
  of its threads within one handler (the statements of \<open>OnInit\<close>, \<open>OnWindowCloseEvent\<close>,
  \<open>Receiver::Start\<close> and \<open>Receiver::Stop\<close> excepted); of the Android application all but the
  readers of options and commands; the test programs.
\<close>

end
